(* ===== verification/Prelude.thy ===== *)
theory Prelude
  imports Main "HOL-Library.Word" "HOL-Library.Multiset"
begin

text \<open>
  Shared vocabulary of the development: the C++ outcome type (a value or an exception),
  undefined behaviour as an outcome of its own, the transaction runner of libpmemobj++ as a
  parameter with its documented contract, and the interfaces over transition systems that the
  concurrent components instantiate.
\<close>

named_theorems word_bounds \<open>facts that move 64-bit arithmetic to the naturals\<close>
named_theorems step_simps \<open>definitions unfolded by the proofs about one atomic step\<close>

section \<open>Machine integers, addresses and outcomes\<close>

type_synonym u64 = "64 word"
type_synonym addr = nat

text \<open>
  What a C++ call can end in besides a value. \<open>Undefined\<close> stands for behaviour the language
  leaves undefined (a null or dangling pointer, an index out of range, a division by zero): a
  theorem that an operation is correct shows in particular that it is never \<open>Undefined\<close>.
\<close>

datatype exn =
    OutOfRange string
  | InvalidArgument string
  | RuntimeError string
  | LogicError string
  | SystemError int
  | BadAlloc
  | TxError
  | Undefined

type_synonym 'a res = "exn + 'a"

text \<open>How a program ends: with an exit status, or by an exception that leaves \<open>main\<close>.\<close>

datatype ended = Exited int | Uncaught exn

section \<open>Transactions\<close>

text \<open>
  \<open>pmem::obj::transaction::run(pop, body)\<close> is library code, so a model takes it as an
  argument. \<open>tx_atomic\<close> is its documented contract: the body's effect on the pool is kept as
  a whole or not at all, and an exception of the body aborts and is rethrown. \<open>tx_commits\<close> adds
  that a body which completes is committed (no failure of the library itself).
\<close>

type_synonym ('s, 'r) tx_run = "('s \<Rightarrow> 's \<times> 'r res) \<Rightarrow> 's \<Rightarrow> 's \<times> 'r res"

definition tx_atomic :: "('s, 'r) tx_run \<Rightarrow> bool" where
  "tx_atomic run \<longleftrightarrow> (\<forall>body s.
     (case body s of
        (s', Inr r) \<Rightarrow> run body s = (s', Inr r) \<or> run body s = (s, Inl TxError)
      | (s', Inl e) \<Rightarrow> run body s = (s, Inl e)))"

definition tx_commits :: "('s, 'r) tx_run \<Rightarrow> bool" where
  "tx_commits run \<longleftrightarrow>
     (\<forall>body s s' r. body s = (s', Inr r) \<longrightarrow> run body s = (s', Inr r))"

text \<open>A runner that satisfies both contracts, for concrete runs.\<close>

definition tx_plain :: "('s, 'r) tx_run" where
  "tx_plain body s = (case body s of (s', Inr r) \<Rightarrow> (s', Inr r) | (s', Inl e) \<Rightarrow> (s, Inl e))"

lemma tx_plain_atomic [simp]: "tx_atomic tx_plain"
  by (auto simp: tx_atomic_def tx_plain_def split: prod.splits sum.splits)

lemma tx_plain_commits [simp]: "tx_commits tx_plain"
  by (auto simp: tx_commits_def tx_plain_def)

lemma tx_atomic_cases:
  assumes "tx_atomic run"
  obtains (commit) s' r where "body s = (s', Inr r)" "run body s = (s', Inr r)"
    | (failed) "run body s = (s, Inl TxError)"
    | (aborted) e where "snd (body s) = Inl e" "run body s = (s, Inl e)"
proof (cases "body s")
  case (Pair s' r)
  with assms show thesis
    by (cases r) (auto simp: tx_atomic_def dest!: spec [of _ body] spec [of _ s] intro: that)
qed

lemma tx_commits_run: "tx_commits run \<Longrightarrow> body s = (s', Inr r) \<Longrightarrow> run body s = (s', Inr r)"
  by (simp add: tx_commits_def)

section \<open>Transition systems\<close>

text \<open>
  An invariant of a step relation holds in every state reachable from an initial one. Every
  concurrent component of the program gives its own \<open>initial\<close>, \<open>step\<close> and \<open>inv\<close>.
\<close>

locale invariant_system =
  fixes initial :: "'s \<Rightarrow> bool" and step :: "'s \<Rightarrow> 's \<Rightarrow> bool" and inv :: "'s \<Rightarrow> bool"
  assumes initial_inv: "initial s \<Longrightarrow> inv s"
    and step_inv: "inv s \<Longrightarrow> step s t \<Longrightarrow> inv t"
begin

lemma steps_inv: "step\<^sup>*\<^sup>* s t \<Longrightarrow> inv s \<Longrightarrow> inv t"
  by (induction rule: rtranclp_induct) (auto intro: step_inv)

lemma reachable_inv: "initial s \<Longrightarrow> step\<^sup>*\<^sup>* s t \<Longrightarrow> inv t"
  using initial_inv steps_inv by blast

end

text \<open>
  Where in addition every non-final state that satisfies the invariant has a step that makes a
  natural-number measure smaller, a final state can always still be reached: the system neither
  deadlocks nor runs into a state from which it cannot finish.
\<close>

locale finishing_system = invariant_system +
  fixes final :: "'s \<Rightarrow> bool" and todo :: "'s \<Rightarrow> nat"
  assumes progress: "inv s \<Longrightarrow> \<not> final s \<Longrightarrow> \<exists>t. step s t \<and> todo t < todo s"
begin

lemma no_deadlock: "inv s \<Longrightarrow> \<not> final s \<Longrightarrow> \<exists>t. step s t"
  using progress by blast

lemma can_finish: "inv s \<Longrightarrow> \<exists>t. step\<^sup>*\<^sup>* s t \<and> final t"
proof (induction "todo s" arbitrary: s rule: less_induct)
  case less
  show ?case
  proof (cases "final s")
    case False
    with less.prems obtain t where t: "step s t" "todo t < todo s"
      using progress by blast
    with less.prems less.hyps obtain u where "step\<^sup>*\<^sup>* t u" "final u"
      using step_inv by blast
    with t show ?thesis by (meson converse_rtranclp_into_rtranclp)
  qed blast
qed

lemma reachable_can_finish: "initial s \<Longrightarrow> step\<^sup>*\<^sup>* s t \<Longrightarrow> \<exists>u. step\<^sup>*\<^sup>* t u \<and> final u"
  using reachable_inv can_finish by blast

end

text \<open>
  Where every step makes the measure smaller there is no infinite execution at all: whatever the
  scheduler does, the system stops, and it can only stop in a final state.
\<close>

locale terminating_system = invariant_system +
  fixes final :: "'s \<Rightarrow> bool" and todo :: "'s \<Rightarrow> nat"
  assumes enabled: "inv s \<Longrightarrow> \<not> final s \<Longrightarrow> \<exists>t. step s t"
    and decreases: "inv s \<Longrightarrow> step s t \<Longrightarrow> todo t < todo s"

sublocale terminating_system \<subseteq> finishing_system
  by unfold_locales (use enabled decreases in blast)

context terminating_system
begin

lemma run_bounded:
  assumes "initial (f 0)" and "\<And>i. i < n \<Longrightarrow> step (f i) (f (Suc i))"
  shows "inv (f n) \<and> todo (f n) + n \<le> todo (f 0)"
  using assms(2)
proof (induction n)
  case 0
  then show ?case using assms(1) initial_inv by simp
next
  case (Suc n)
  then have "inv (f n)" "todo (f n) + n \<le> todo (f 0)" "step (f n) (f (Suc n))" by simp_all
  with step_inv decreases [of "f n" "f (Suc n)"] show ?case by fastforce
qed

lemma no_infinite_run: "initial (f 0) \<Longrightarrow> \<exists>i. \<not> step (f i) (f (Suc i))"
  using run_bounded [of f "Suc (todo (f 0))"] by auto

lemma stuck_final: "initial s \<Longrightarrow> step\<^sup>*\<^sup>* s t \<Longrightarrow> (\<nexists>u. step t u) \<Longrightarrow> final t"
  using enabled reachable_inv by blast

end

text \<open>
  A condition variable may wake a thread for no reason, and a system with such \<open>noise\<close> can run
  forever. Where every other step makes the measure smaller, and one of them is always possible
  until the end, the noise is the only reason: an infinite execution has infinitely many noisy
  steps.
\<close>

locale noisy_system = invariant_system +
  fixes final :: "'s \<Rightarrow> bool" and todo :: "'s \<Rightarrow> nat" and noise :: "'s \<Rightarrow> 's \<Rightarrow> bool"
  assumes quiet_enabled: "inv s \<Longrightarrow> \<not> final s \<Longrightarrow> \<exists>t. step s t \<and> \<not> noise s t"
    and quiet_decreases: "inv s \<Longrightarrow> step s t \<Longrightarrow> \<not> noise s t \<Longrightarrow> todo t < todo s"

sublocale noisy_system \<subseteq> finishing_system
  by unfold_locales (use quiet_enabled quiet_decreases in blast)

sublocale noisy_system \<subseteq> quiet: terminating_system inv "\<lambda>s t. step s t \<and> \<not> noise s t" inv final todo
  by unfold_locales (use quiet_enabled quiet_decreases step_inv in blast)+

context noisy_system
begin

lemma noise_recurs:
  assumes "inv (f 0)" and run: "\<And>n. step (f n) (f (Suc n))"
  shows "\<exists>m\<ge>n. noise (f m) (f (Suc m))"
proof -
  have "step\<^sup>*\<^sup>* (f 0) (f n)"
    by (induction n) (use run in \<open>auto intro: rtranclp.rtrancl_into_rtrancl\<close>)
  with assms(1) have "inv (f n)" using steps_inv by blast
  then obtain i where "noise (f (n + i)) (f (Suc (n + i)))"
    using quiet.no_infinite_run [of "\<lambda>k. f (n + k)"] run by auto
  then show ?thesis by (intro exI [of _ "n + i"]) simp
qed

end

section \<open>Words as naturals\<close>

lemma unat_of_nat_u64 [word_bounds]: "n < 2 ^ 64 \<Longrightarrow> unat (of_nat n :: u64) = n"
  by (simp add: unat_of_nat)

lemma unat_u64_less [word_bounds]: "unat (w :: u64) < 2 ^ 64"
  using unsigned_less [of w] by simp

lemma unat_mult_u64 [word_bounds]:
  "unat a * unat b < 2 ^ 64 \<Longrightarrow> unat (a * b :: u64) = unat a * unat b"
  by (simp add: unat_word_ariths)

lemma unat_add_u64 [word_bounds]:
  "unat a + unat b < 2 ^ 64 \<Longrightarrow> unat (a + b :: u64) = unat a + unat b"
  by (simp add: unat_word_ariths)

lemma u64_zero_iff: "(w :: u64) = 0 \<longleftrightarrow> unat w = 0"
  by (simp add: unat_eq_zero)

section \<open>Sums over threads\<close>

text \<open>Changing the local state of one thread changes a sum over all threads by that summand.\<close>

lemma sum_fun_upd:
  fixes f :: "'b \<Rightarrow> nat" and N :: nat
  assumes "i < N"
  shows "(\<Sum>j<N. f ((p(i := x)) j)) + f (p i) = (\<Sum>j<N. f (p j)) + f x"
proof -
  have i: "i \<in> {..<N}" using assms by simp
  have "(\<Sum>j<N. f ((p(i := x)) j)) = f x + (\<Sum>j\<in>{..<N} - {i}. f (p j))"
    by (subst sum.remove [OF finite_lessThan i]) auto
  moreover have "(\<Sum>j<N. f (p j)) = f (p i) + (\<Sum>j\<in>{..<N} - {i}. f (p j))"
    by (rule sum.remove [OF finite_lessThan i])
  ultimately show ?thesis by simp
qed

lemma sum_le_mult:
  fixes f :: "nat \<Rightarrow> nat"
  assumes "\<And>j. j < N \<Longrightarrow> f j \<le> c"
  shows "(\<Sum>j<N. f j) \<le> c * N"
  using sum_bounded_above [of "{..<N}" f c] assms by (simp add: mult.commute)

end
