(* ===== verification/Pretty_Bytes.thy ===== *)
theory Pretty_Bytes
  imports Prelude
begin

text \<open>
  Model of \<open>pretty_bytes.hpp\<close>: the compile-time \<open>power\<close> template and \<open>prettyTo\<close>, which
  turns ``512'', ``100K'', ``2G'' into a 64-bit byte count. All callers instantiate
  \<open>T = uint64_t\<close> and leave \<open>BASE\<close> at 1024, so values are \<^typ>\<open>u64\<close> and every product wraps
  modulo \<open>2 ^ 64\<close>.
\<close>

section \<open>Definitions\<close>

text \<open>\<open>power<T, p>(x)\<close>: the template parameter \<open>p\<close> is an argument.\<close>

function power_t :: "nat \<Rightarrow> u64 \<Rightarrow> u64" where
  "power_t p x =
     (if p = 0 then 1
      else if p = 1 then x
      else let tmp = power_t (p div 2) x in
           if p mod 2 = 0 then tmp * tmp else x * tmp * tmp)"
  by pat_completeness auto
termination
  by (relation "measure (\<lambda>(p, x). p)") auto

declare power_t.simps [simp del]

definition is_digit :: "char \<Rightarrow> bool" where
  "is_digit c \<longleftrightarrow> 48 \<le> (of_char c :: nat) \<and> (of_char c :: nat) \<le> 57"

text \<open>
  \<open>std::regex_match\<close> against \<open>(\d+)(K|M|G|T|P)?\<close>: the whole string must match, the result
  is the pair of sub-matches, an absent suffix being the empty string.
\<close>

definition match_pretty :: "string \<Rightarrow> (string \<times> string) option" where
  "match_pretty s =
     (let ds = takeWhile is_digit s; suffix = dropWhile is_digit s in
      if ds \<noteq> [] \<and> suffix \<in> set ['''', ''K'', ''M'', ''G'', ''T'', ''P'']
      then Some (ds, suffix) else None)"

definition digit_val :: "char \<Rightarrow> nat" where
  "digit_val c = of_char c - 48"

definition digits_val :: "string \<Rightarrow> nat" where
  "digits_val ds = foldl (\<lambda>n c. 10 * n + digit_val c) 0 ds"

text \<open>\<open>iss >> result\<close> on a digit string: the largest value on overflow.\<close>

definition read_u64 :: "string \<Rightarrow> u64" where
  "read_u64 ds = (if digits_val ds < 2 ^ 64 then of_nat (digits_val ds) else - 1)"

definition prettyTo :: "u64 \<Rightarrow> string \<Rightarrow> u64 res" where
  "prettyTo BASE pretty =
     (case match_pretty pretty of
        None \<Rightarrow> Inl (InvalidArgument (''Invalid Argument: '' @ pretty))
      | Some (m1, suffix) \<Rightarrow>
          let result = read_u64 m1 in
          if suffix = '''' then Inr result
          else if suffix = ''K'' then Inr (result * BASE)
          else if suffix = ''M'' then Inr (result * power_t 2 BASE)
          else if suffix = ''G'' then Inr (result * power_t 3 BASE)
          else if suffix = ''T'' then Inr (result * power_t 4 BASE)
          else if suffix = ''P'' then Inr (result * power_t 5 BASE)
          else Inl (RuntimeError ''must not reach here.''))"

section \<open>Specification vocabulary\<close>

text \<open>The exponent a suffix stands for, and the strings the parser is documented to accept.\<close>

definition suffix_exp :: "string \<Rightarrow> nat option" where
  "suffix_exp =
     [''''  \<mapsto> 0, ''K'' \<mapsto> 1, ''M'' \<mapsto> 2, ''G'' \<mapsto> 3, ''T'' \<mapsto> 4, ''P'' \<mapsto> 5]"

definition pretty_syntax :: "string \<Rightarrow> string \<Rightarrow> string \<Rightarrow> bool" where
  "pretty_syntax s ds suffix \<longleftrightarrow>
     s = ds @ suffix \<and> ds \<noteq> [] \<and> (\<forall>c \<in> set ds. is_digit c) \<and> suffix \<in> dom suffix_exp"

text \<open>Decimal printing, for the round trip.\<close>

fun decimal :: "nat \<Rightarrow> string" where
  "decimal n =
     (if n < 10 then [char_of (n + 48)] else decimal (n div 10) @ [char_of (n mod 10 + 48)])"

declare decimal.simps [simp del]

section \<open>Lemmas\<close>

lemma power_t_eq: "power_t p x = x ^ p"
proof (induction p x rule: power_t.induct)
  case (1 p x)
  show ?case
  proof (cases "p \<le> 1")
    case True
    then have "p = 0 \<or> p = 1" by auto
    then show ?thesis by (elim disjE) (simp_all add: power_t.simps [of 0] power_t.simps [of "Suc 0"])
  next
    case False
    with 1 have IH: "power_t (p div 2) x = x ^ (p div 2)" by simp
    have split: "x ^ p = x ^ (p mod 2) * (x ^ (p div 2) * x ^ (p div 2))"
    proof -
      have "p = p mod 2 + (p div 2 + p div 2)" by presburger
      then show ?thesis by (metis power_add)
    qed
    show ?thesis
    proof (cases "p mod 2 = 0")
      case True
      with False IH show ?thesis
        by (subst power_t.simps, subst split) (simp add: Let_def)
    next
      case odd: False
      then have "p mod 2 = 1" by simp
      with False IH show ?thesis
        by (subst power_t.simps, subst split) (simp add: Let_def mult.assoc)
    qed
  qed
qed

lemma suffix_dom: "suffix \<in> dom suffix_exp \<longleftrightarrow> suffix \<in> set ['''', ''K'', ''M'', ''G'', ''T'', ''P'']"
  by (auto simp: suffix_exp_def split: if_splits)

lemma suffix_hd_not_digit:
  "suffix \<in> dom suffix_exp \<Longrightarrow> suffix = [] \<or> \<not> is_digit (hd suffix)"
  by (auto simp: suffix_dom is_digit_def)

lemma match_pretty_iff: "match_pretty s = Some (ds, suffix) \<longleftrightarrow> pretty_syntax s ds suffix"
proof
  assume "match_pretty s = Some (ds, suffix)"
  then have "ds = takeWhile is_digit s" "suffix = dropWhile is_digit s" "ds \<noteq> []"
    and "suffix \<in> dom suffix_exp"
    unfolding match_pretty_def suffix_dom Let_def by (auto simp del: set_simps split: if_splits)
  then show "pretty_syntax s ds suffix"
    by (auto simp: pretty_syntax_def dest: set_takeWhileD)
next
  assume *: "pretty_syntax s ds suffix"
  then have s: "s = ds @ suffix" and all: "\<forall>c \<in> set ds. is_digit c"
    and "suffix = [] \<or> \<not> is_digit (hd suffix)"
    using suffix_hd_not_digit by (auto simp: pretty_syntax_def)
  then have "takeWhile is_digit suffix = []" "dropWhile is_digit suffix = suffix"
    by (cases suffix; auto)+
  with s all have "takeWhile is_digit s = ds" "dropWhile is_digit s = suffix"
    by (simp_all add: takeWhile_append2 dropWhile_append2)
  with * show "match_pretty s = Some (ds, suffix)"
    by (auto simp: match_pretty_def pretty_syntax_def suffix_dom Let_def)
qed

lemma match_pretty_None: "match_pretty s = None \<longleftrightarrow> (\<nexists>ds suffix. pretty_syntax s ds suffix)"
  by (metis match_pretty_iff not_None_eq surj_pair)

lemma read_u64_val: "read_u64 ds = of_nat (min (digits_val ds) (2 ^ 64 - 1))"
proof -
  have "of_nat (2 ^ 64 - 1) = (- 1 :: u64)" by simp
  then show ?thesis by (auto simp: read_u64_def min_def)
qed

lemma prettyTo_syntax:
  assumes "pretty_syntax s ds suffix" and "suffix_exp suffix = Some k"
  shows "prettyTo BASE s = Inr (read_u64 ds * BASE ^ k)"
proof -
  have "match_pretty s = Some (ds, suffix)"
    using assms(1) by (simp add: match_pretty_iff)
  then show ?thesis
    using assms(2)
    by (auto simp: prettyTo_def power_t_eq suffix_exp_def Let_def split: if_splits)
qed

lemma digits_val_snoc: "digits_val (ds @ [c]) = 10 * digits_val ds + digit_val c"
  by (simp add: digits_val_def)

lemma digit_char: "d < 10 \<Longrightarrow> is_digit (char_of (d + 48 :: nat)) \<and> digit_val (char_of (d + 48 :: nat)) = d"
  by (simp add: is_digit_def digit_val_def of_char_of)

lemma decimal_digits: "decimal n \<noteq> [] \<and> (\<forall>c \<in> set (decimal n). is_digit c)"
proof (induction n rule: decimal.induct)
  case (1 n)
  then show ?case
    using digit_char [of n] digit_char [of "n mod 10"]
    by (subst (1 2) decimal.simps) auto
qed

lemma digits_val_decimal: "digits_val (decimal n) = n"
proof (induction n rule: decimal.induct)
  case (1 n)
  then show ?case
    using digit_char [of n] digit_char [of "n mod 10"]
    by (subst decimal.simps) (auto simp: digits_val_snoc, simp add: digits_val_def)
qed

lemmas pretty_eval =
  prettyTo_def match_pretty_def is_digit_def read_u64_def digits_val_def digit_val_def power_t_eq

section \<open>Properties\<close>

text \<open>
  C26. \<open>prettyTo\<close> accepts exactly the strings made of at least one decimal digit and at most one
  of the suffixes K, M, G, T, P; every other string raises \<open>std::invalid_argument\<close> with the
  input in its message, and no string reaches the final \<open>runtime_error\<close>.
\<close>

theorem prettyTo_error_iff:
  "prettyTo BASE s = Inl e \<longleftrightarrow>
     e = InvalidArgument (''Invalid Argument: '' @ s) \<and> (\<nexists>ds suffix. pretty_syntax s ds suffix)"
proof (cases "match_pretty s")
  case None
  then have "\<nexists>ds suffix. pretty_syntax s ds suffix"
    by (simp add: match_pretty_iff [symmetric])
  with None show ?thesis by (auto simp: prettyTo_def)
next
  case (Some m)
  then obtain ds suffix where "pretty_syntax s ds suffix"
    by (metis match_pretty_iff surj_pair)
  moreover from this obtain k where "suffix_exp suffix = Some k"
    by (auto simp: pretty_syntax_def)
  ultimately have "prettyTo BASE s = Inr (read_u64 ds * BASE ^ k)"
    by (rule prettyTo_syntax)
  with \<open>pretty_syntax s ds suffix\<close> show ?thesis by auto
qed

text \<open>
  C27. Where the byte count fits into 64 bits the parser returns exactly the number written,
  scaled by the suffix's power of 1024: parsing the decimal notation of a number with a suffix
  gives back the number times that power.
\<close>

theorem prettyTo_roundtrip:
  assumes "suffix_exp suffix = Some k" and "n * 1024 ^ k < 2 ^ 64"
  shows "\<exists>w. prettyTo 1024 (decimal n @ suffix) = Inr w \<and> unat w = n * 1024 ^ k"
proof -
  have syn: "pretty_syntax (decimal n @ suffix) (decimal n) suffix"
    using assms(1) decimal_digits [of n] by (auto simp: pretty_syntax_def)
  have n: "n < 2 ^ 64"
  proof -
    have "n * 1 \<le> n * 1024 ^ k" by (rule mult_le_mono2) simp
    with assms(2) show ?thesis by linarith
  qed
  have "read_u64 (decimal n) * 1024 ^ k = of_nat (n * 1024 ^ k)"
    using n by (simp add: read_u64_def digits_val_decimal)
  with prettyTo_syntax [OF syn assms(1), of 1024] assms(2) show ?thesis
    by (simp add: unat_of_nat_u64 del: of_nat_mult)
qed

theorem prettyTo_roundtrip_witness:
  "prettyTo 1024 ''100K'' = Inr 102400 \<and> suffix_exp ''K'' = Some 1 \<and>
   (\<exists>w. prettyTo 1024 (decimal 100 @ ''K'') = Inr w \<and> unat w = 100 * 1024 ^ 1)"
proof (intro conjI)
  show e: "suffix_exp ''K'' = Some 1" by code_simp
  show "prettyTo 1024 ''100K'' = Inr 102400" by (simp add: pretty_eval)
  show "\<exists>w. prettyTo 1024 (decimal 100 @ ''K'') = Inr w \<and> unat w = 100 * 1024 ^ 1"
    by (rule prettyTo_roundtrip [OF e]) simp
qed

text \<open>
  C28. Without that bound nothing is reported: a number that does not fit into 64 bits reads as
  \<open>2 ^ 64 - 1\<close>, and the scaling wraps modulo \<open>2 ^ 64\<close>.
\<close>

theorem prettyTo_wraps:
  assumes "pretty_syntax s ds suffix" and "suffix_exp suffix = Some k"
  shows "\<exists>w. prettyTo 1024 s = Inr w \<and>
    unat w = (min (digits_val ds) (2 ^ 64 - 1) * 1024 ^ k) mod 2 ^ 64"
proof -
  have "read_u64 ds * 1024 ^ k = of_nat (min (digits_val ds) (2 ^ 64 - 1) * 1024 ^ k)"
    by (simp add: read_u64_val)
  then show ?thesis
    using prettyTo_syntax [OF assms, of 1024] by (auto simp: unat_of_nat simp del: of_nat_mult)
qed

theorem prettyTo_wraps_witness:
  "prettyTo 1024 ''16384P'' = Inr 0 \<and>
   (\<exists>w. prettyTo 1024 ''16384P'' = Inr w \<and>
     unat w = (min (digits_val ''16384'') (2 ^ 64 - 1) * 1024 ^ 5) mod 2 ^ 64)"
proof -
  have "pretty_syntax ''16384P'' ''16384'' ''P''"
    by (simp add: pretty_syntax_def is_digit_def suffix_exp_def)
  moreover have "suffix_exp ''P'' = Some 5" by code_simp
  ultimately have "\<exists>w. prettyTo 1024 ''16384P'' = Inr w \<and>
     unat w = (min (digits_val ''16384'') (2 ^ 64 - 1) * 1024 ^ 5) mod 2 ^ 64"
    by (rule prettyTo_wraps)
  moreover have "prettyTo 1024 ''16384P'' = Inr 0" by (simp add: pretty_eval)
  ultimately show ?thesis by blast
qed

end
