(* ===== verification/Psync_Barrier.thy ===== *)
theory Psync_Barrier
  imports Prelude
begin

text \<open>
  Model of \<open>psync::Barrier\<close> (\<open>barrier.hpp\<close>): a counter, a mutex and a condition variable.
  \<open>enter\<close> is split at every point where another thread can run: taking the mutex, the
  decrement, the notification, the test of the wait predicate (which either leaves or releases
  the mutex and blocks in one atomic action, as \<open>condition_variable::wait\<close> does), a wake-up
  (by notification or spurious) and taking the mutex again. \<open>N\<close> is the number of threads that
  call \<open>enter\<close>, each of them once. The specification is a gate that counts arrivals.
\<close>

section \<open>Definitions\<close>

datatype bar_pc =
    Outside      \<comment> \<open>has not called \<open>enter\<close>, or waits for the mutex\<close>
  | Locked       \<comment> \<open>holds \<open>lk\<close>, before the decrement\<close>
  | Notifying    \<comment> \<open>holds \<open>lk\<close>, before \<open>notify_all\<close>\<close>
  | Checking     \<comment> \<open>holds \<open>lk\<close>, about to test the predicate of \<open>wait\<close>\<close>
  | Blocked      \<comment> \<open>asleep on \<open>cond_\<close>, mutex released\<close>
  | Woken        \<comment> \<open>woken, has to take the mutex again\<close>
  | Left         \<comment> \<open>returned from \<open>enter\<close>\<close>

record barrier =
  nthreads :: u64
  mtx :: "nat option"
  pcs :: "nat \<Rightarrow> bar_pc"

definition barrier_new :: "u64 \<Rightarrow> barrier" where
  "barrier_new n = \<lparr>nthreads = n, mtx = None, pcs = (\<lambda>_. Outside)\<rparr>"

definition set_pc :: "nat \<Rightarrow> bar_pc \<Rightarrow> barrier \<Rightarrow> barrier" where
  "set_pc i x s = s\<lparr>pcs := (pcs s)(i := x)\<rparr>"

definition wake_all :: "(nat \<Rightarrow> bar_pc) \<Rightarrow> nat \<Rightarrow> bar_pc" where
  "wake_all p j = (if p j = Blocked then Woken else p j)"

inductive enter_step :: "nat \<Rightarrow> barrier \<Rightarrow> barrier \<Rightarrow> bool" for N where
  lock: "i < N \<Longrightarrow> pcs s i = Outside \<Longrightarrow> mtx s = None \<Longrightarrow>
    enter_step N s (set_pc i Locked (s\<lparr>mtx := Some i\<rparr>))"
| decrement: "i < N \<Longrightarrow> pcs s i = Locked \<Longrightarrow>
    enter_step N s (set_pc i Notifying (s\<lparr>nthreads := nthreads s - 1\<rparr>))"
| notify_all: "i < N \<Longrightarrow> pcs s i = Notifying \<Longrightarrow>
    enter_step N s (set_pc i Checking (s\<lparr>pcs := wake_all (pcs s)\<rparr>))"
| leave: "i < N \<Longrightarrow> pcs s i = Checking \<Longrightarrow> nthreads s = 0 \<Longrightarrow>
    enter_step N s (set_pc i Left (s\<lparr>mtx := None\<rparr>))"
| block: "i < N \<Longrightarrow> pcs s i = Checking \<Longrightarrow> nthreads s \<noteq> 0 \<Longrightarrow>
    enter_step N s (set_pc i Blocked (s\<lparr>mtx := None\<rparr>))"
| spurious: "i < N \<Longrightarrow> pcs s i = Blocked \<Longrightarrow> enter_step N s (set_pc i Woken s)"
| relock: "i < N \<Longrightarrow> pcs s i = Woken \<Longrightarrow> mtx s = None \<Longrightarrow>
    enter_step N s (set_pc i Checking (s\<lparr>mtx := Some i\<rparr>))"

section \<open>Invariant\<close>

definition entered :: "bar_pc \<Rightarrow> bool" where
  "entered p \<longleftrightarrow> p \<notin> {Outside, Locked}"

definition critical :: "bar_pc \<Rightarrow> bool" where
  "critical p \<longleftrightarrow> p \<in> {Locked, Notifying, Checking}"

definition entered_count :: "nat \<Rightarrow> barrier \<Rightarrow> nat" where
  "entered_count N s = (\<Sum>j<N. of_bool (entered (pcs s j)))"

text \<open>
  The counter counts the threads that have not decremented yet; the mutex holder is the one
  thread inside; nobody leaves before the counter is zero; and once it is zero, a thread asleep
  has its wake-up coming.
\<close>

definition bar_inv :: "nat \<Rightarrow> barrier \<Rightarrow> bool" where
  "bar_inv N s \<longleftrightarrow>
     N < 2 ^ 64 \<and> unat (nthreads s) + entered_count N s = N \<and>
     (\<forall>i<N. critical (pcs s i) \<longleftrightarrow> mtx s = Some i) \<and>
     (\<forall>i. mtx s = Some i \<longrightarrow> i < N) \<and>
     (\<forall>i<N. pcs s i = Left \<longrightarrow> nthreads s = 0) \<and>
     (\<forall>i<N. pcs s i = Blocked \<longrightarrow> nthreads s = 0 \<longrightarrow>
        (\<exists>j. mtx s = Some j \<and> pcs s j = Notifying))"

definition bar_initial :: "nat \<Rightarrow> barrier \<Rightarrow> bool" where
  "bar_initial N s \<longleftrightarrow> N < 2 ^ 64 \<and> s = barrier_new (of_nat N)"

definition all_left :: "nat \<Rightarrow> barrier \<Rightarrow> bool" where
  "all_left N s \<longleftrightarrow> (\<forall>i<N. pcs s i = Left)"

text \<open>
  A wake-up that no notification caused.
\<close>

definition spurious_wakeup :: "nat \<Rightarrow> barrier \<Rightarrow> barrier \<Rightarrow> bool" where
  "spurious_wakeup N s t \<longleftrightarrow> (\<exists>i<N. pcs s i = Blocked \<and> t = set_pc i Woken s)"

text \<open>
  How much is left to do. Each program point has a weight, which every step of a thread lowers but
  a wake-up; one notification wakes fewer than \<open>N\<close> threads, and the thread that notifies has more
  than that to lose.
\<close>

fun pc_weight :: "nat \<Rightarrow> bar_pc \<Rightarrow> nat" where
  "pc_weight N Outside = 2 * N + 5"
| "pc_weight N Locked = 2 * N + 4"
| "pc_weight N Notifying = 2 * N + 3"
| "pc_weight N Woken = 3"
| "pc_weight N Checking = 2"
| "pc_weight N Blocked = 1"
| "pc_weight N Left = 0"

definition bar_todo :: "nat \<Rightarrow> barrier \<Rightarrow> nat" where
  "bar_todo N s = (\<Sum>j<N. pc_weight N (pcs s j))"

lemmas bar_defs [step_simps] = set_pc_def entered_def critical_def wake_all_def

lemma entered_count_upd:
  "i < N \<Longrightarrow> entered_count N (set_pc i x s) + of_bool (entered (pcs s i)) =
     entered_count N s + of_bool (entered x)"
  using sum_fun_upd [of i N "\<lambda>p. of_bool (entered p)" "pcs s" x]
  by (simp add: entered_count_def set_pc_def)

lemma entered_wake_all [simp]: "entered (wake_all p j) = entered (p j)"
  by (simp add: wake_all_def entered_def)

lemma entered_count_frame [simp]:
  "entered_count N (s\<lparr>mtx := m\<rparr>) = entered_count N s"
  "entered_count N (s\<lparr>nthreads := n\<rparr>) = entered_count N s"
  "entered_count N (s\<lparr>pcs := wake_all (pcs s)\<rparr>) = entered_count N s"
  by (simp_all add: entered_count_def)

lemma entered_count_le: "entered_count N s \<le> N"
  using sum_le_mult [of N "\<lambda>j. of_bool (entered (pcs s j))" 1] by (simp add: entered_count_def)

lemma entered_count_all: "entered_count N s = N \<longleftrightarrow> (\<forall>i<N. entered (pcs s i))"
proof
  assume full: "entered_count N s = N"
  show "\<forall>i<N. entered (pcs s i)"
  proof (intro allI impI, rule ccontr)
    fix i assume "i < N" and "\<not> entered (pcs s i)"
    then have "entered_count N (set_pc i Left s) = entered_count N s + 1"
      using entered_count_upd [of i N Left s] by (simp add: entered_def)
    then show False using full entered_count_le [of N "set_pc i Left s"] by simp
  qed
qed (simp add: entered_count_def)

lemma unat_dec: "(w :: u64) \<noteq> 0 \<Longrightarrow> unat (w - 1) + 1 = unat w"
  using unat_sub [of 1 w] by (simp add: word_le_nat_alt Suc_leI unat_gt_0)

section \<open>Every step keeps the invariant\<close>

lemma count_same:
  "i < N \<Longrightarrow> entered (pcs s i) = entered x \<Longrightarrow> entered_count N (set_pc i x s) = entered_count N s"
  using entered_count_upd [of i N x s] by simp

lemma some_not_entered: "bar_inv N s \<Longrightarrow> i < N \<Longrightarrow> \<not> entered (pcs s i) \<Longrightarrow> nthreads s \<noteq> 0"
  using entered_count_all [of N s] by (auto simp: bar_inv_def)

lemma holder: "bar_inv N s \<Longrightarrow> i < N \<Longrightarrow> critical (pcs s i) \<Longrightarrow> mtx s = Some i"
  by (simp add: bar_inv_def)

lemma inv_lock:
  assumes "bar_inv N s" "i < N" "pcs s i = Outside" "mtx s = None"
  shows "bar_inv N (set_pc i Locked (s\<lparr>mtx := Some i\<rparr>))"
  using assms count_same [of i N "s\<lparr>mtx := Some i\<rparr>" Locked]
  by (auto simp: bar_inv_def entered_def critical_def) (auto simp: set_pc_def split: if_splits)

lemma inv_decrement:
  assumes inv: "bar_inv N s" and i: "i < N" "pcs s i = Locked"
  shows "bar_inv N (set_pc i Notifying (s\<lparr>nthreads := nthreads s - 1\<rparr>))"
proof -
  have nz: "nthreads s \<noteq> 0"
    using some_not_entered [OF inv i(1)] i(2) by (simp add: entered_def)
  have "entered_count N (set_pc i Notifying (s\<lparr>nthreads := nthreads s - 1\<rparr>)) = entered_count N s + 1"
    using entered_count_upd [of i N Notifying "s\<lparr>nthreads := nthreads s - 1\<rparr>"] i
    by (simp add: entered_def)
  with inv i nz unat_dec [OF nz] holder [OF inv i(1)] show ?thesis
    by (auto simp: bar_inv_def critical_def) (auto simp: set_pc_def split: if_splits)
qed

lemma inv_notify:
  assumes inv: "bar_inv N s" and i: "i < N" "pcs s i = Notifying"
  shows "bar_inv N (set_pc i Checking (s\<lparr>pcs := wake_all (pcs s)\<rparr>))"
proof -
  have "entered_count N (set_pc i Checking (s\<lparr>pcs := wake_all (pcs s)\<rparr>)) = entered_count N s"
    using count_same [of i N "s\<lparr>pcs := wake_all (pcs s)\<rparr>" Checking] i
    by (simp add: entered_def wake_all_def)
  with inv i holder [OF inv i(1)] show ?thesis
    by (auto simp: bar_inv_def critical_def) (auto simp: set_pc_def wake_all_def split: if_splits)
qed

lemma inv_leave:
  assumes "bar_inv N s" "i < N" "pcs s i = Checking" "nthreads s = 0"
  shows "bar_inv N (set_pc i Left (s\<lparr>mtx := None\<rparr>))"
  using assms count_same [of i N "s\<lparr>mtx := None\<rparr>" Left] holder [OF assms(1,2)]
  by (auto simp: bar_inv_def entered_def critical_def) (auto simp: set_pc_def split: if_splits)

lemma inv_block:
  assumes "bar_inv N s" "i < N" "pcs s i = Checking" "nthreads s \<noteq> 0"
  shows "bar_inv N (set_pc i Blocked (s\<lparr>mtx := None\<rparr>))"
  using assms count_same [of i N "s\<lparr>mtx := None\<rparr>" Blocked] holder [OF assms(1,2)]
  by (auto simp: bar_inv_def entered_def critical_def) (auto simp: set_pc_def split: if_splits)

lemma inv_spurious:
  assumes "bar_inv N s" "i < N" "pcs s i = Blocked"
  shows "bar_inv N (set_pc i Woken s)"
proof -
  have "entered_count N (set_pc i Woken s) = entered_count N s"
    using assms by (simp add: count_same entered_def)
  moreover have "mtx s \<noteq> Some i"
    using assms by (auto simp: bar_inv_def critical_def)
  ultimately show ?thesis
    using assms by (simp add: bar_inv_def critical_def set_pc_def) metis
qed

lemma inv_relock:
  assumes "bar_inv N s" "i < N" "pcs s i = Woken" "mtx s = None"
  shows "bar_inv N (set_pc i Checking (s\<lparr>mtx := Some i\<rparr>))"
  using assms count_same [of i N "s\<lparr>mtx := Some i\<rparr>" Checking]
  by (auto simp: bar_inv_def entered_def critical_def) (auto simp: set_pc_def split: if_splits)

lemmas enter_step_inv =
  inv_lock inv_decrement inv_notify inv_leave inv_block inv_spurious inv_relock

lemma bar_step_inv: "bar_inv N s \<Longrightarrow> enter_step N s t \<Longrightarrow> bar_inv N t"
  by (erule enter_step.cases) (auto intro: enter_step_inv)

lemma bar_initial_inv: "bar_initial N s \<Longrightarrow> bar_inv N s"
  by (auto simp: bar_initial_def bar_inv_def barrier_new_def entered_count_def entered_def
      critical_def unat_of_nat_u64)

section \<open>Progress\<close>

lemma todo_pc_less:
  "i < N \<Longrightarrow> pcs s' = pcs s \<Longrightarrow> pc_weight N x < pc_weight N (pcs s i) \<Longrightarrow>
   bar_todo N (set_pc i x s') < bar_todo N s"
  using sum_fun_upd [of i N "pc_weight N" "pcs s" x] by (simp add: bar_todo_def set_pc_def)

lemma todo_notify:
  assumes "i < N" and "pcs s i = Notifying"
  shows "bar_todo N (set_pc i Checking (s\<lparr>pcs := wake_all (pcs s)\<rparr>)) < bar_todo N s"
proof -
  have "(\<Sum>j<N. pc_weight N (wake_all (pcs s) j)) \<le> (\<Sum>j<N. pc_weight N (pcs s j) + 2)"
    by (rule sum_mono) (simp add: wake_all_def)
  then have "(\<Sum>j<N. pc_weight N (wake_all (pcs s) j)) \<le> bar_todo N s + 2 * N"
    by (simp only: sum.distrib bar_todo_def) simp
  moreover have "bar_todo N (set_pc i Checking (s\<lparr>pcs := wake_all (pcs s)\<rparr>)) + (2 * N + 3) =
      (\<Sum>j<N. pc_weight N (wake_all (pcs s) j)) + 2"
    using sum_fun_upd [of i N "pc_weight N" "wake_all (pcs s)" Checking] assms
    by (simp add: bar_todo_def set_pc_def wake_all_def)
  ultimately show ?thesis by simp
qed

lemma quiet_todo:
  assumes "enter_step N s t" and "\<not> spurious_wakeup N s t"
  shows "bar_todo N t < bar_todo N s"
  using assms
proof cases
  case (spurious i)
  with assms(2) show ?thesis by (auto simp: spurious_wakeup_def)
next
  case (notify_all i)
  then show ?thesis using todo_notify by simp
qed (auto intro: todo_pc_less)

text \<open>A step that moves a thread which is not blocked is not a spurious wake-up.\<close>

lemma quietI: "pcs s i \<noteq> pcs t i \<Longrightarrow> pcs s i \<noteq> Blocked \<Longrightarrow> \<not> spurious_wakeup N s t"
  by (auto simp: spurious_wakeup_def set_pc_def split: if_splits)

lemma holder_progress:
  assumes inv: "bar_inv N s" and i: "mtx s = Some i"
  shows "\<exists>t. enter_step N s t \<and> \<not> spurious_wakeup N s t"
proof -
  from inv i have iN: "i < N" and "critical (pcs s i)" by (auto simp: bar_inv_def)
  then consider "pcs s i = Locked" | "pcs s i = Notifying" | "pcs s i = Checking"
    by (auto simp: critical_def)
  then obtain t where "enter_step N s t" "pcs t i \<noteq> pcs s i" "pcs s i \<noteq> Blocked"
  proof cases
    case 1
    with that show thesis using decrement [OF iN 1] by (simp add: set_pc_def)
  next
    case 2
    with that show thesis using notify_all [OF iN 2] by (simp add: set_pc_def)
  next
    case 3
    with that show thesis using leave [OF iN 3] block [OF iN 3]
      by (cases "nthreads s = 0") (simp_all add: set_pc_def)
  qed
  then show ?thesis using quietI by metis
qed

lemma free_progress:
  assumes inv: "bar_inv N s" and free: "mtx s = None" and "\<not> all_left N s"
  shows "\<exists>t. enter_step N s t \<and> \<not> spurious_wakeup N s t"
proof (cases "nthreads s = 0")
  case False
  then have "entered_count N s \<noteq> N"
    using inv by (auto simp: bar_inv_def u64_zero_iff)
  then obtain i where "i < N" "\<not> entered (pcs s i)"
    using entered_count_all by blast
  moreover from this inv free have "pcs s i = Outside"
    by (auto simp: bar_inv_def critical_def entered_def)
  ultimately show ?thesis
    using free lock [of i N s] quietI [of s i "set_pc i Locked (s\<lparr>mtx := Some i\<rparr>)" N]
    by (auto simp: set_pc_def)
next
  case True
  from assms(3) obtain i where i: "i < N" "pcs s i \<noteq> Left" by (auto simp: all_left_def)
  have "\<not> critical (pcs s j)" if "j < N" for j
    using inv free that by (auto simp: bar_inv_def)
  moreover have "entered (pcs s i)"
    using some_not_entered [OF inv i(1)] True by blast
  ultimately have "pcs s i = Woken"
    using i inv True by (cases "pcs s i") (auto simp: bar_inv_def critical_def entered_def)
  with i True free show ?thesis
    using relock [of i N s] quietI [of s i "set_pc i Checking (s\<lparr>mtx := Some i\<rparr>)" N]
    by (auto simp: set_pc_def)
qed

interpretation bar: noisy_system "bar_initial N" "enter_step N" "bar_inv N" "all_left N" "bar_todo N"
  "spurious_wakeup N" for N
proof unfold_locales
  show "\<exists>t. enter_step N s t \<and> \<not> spurious_wakeup N s t"
    if "bar_inv N s" "\<not> all_left N s" for s
    using that holder_progress free_progress by (cases "mtx s") blast+
qed (auto intro: bar_initial_inv bar_step_inv quiet_todo)

section \<open>The specification: a gate\<close>

text \<open>
  What the benchmarks rely on (theories \<open>Timed_Workers\<close> and \<open>Timed_Frame\<close>): a barrier is a counter
  of arrivals, and a thread passes when all have arrived. Between the two it only waits.
\<close>

datatype gate_pc = Before | Waiting | Passed

record gate =
  arrivals :: nat
  gate_pcs :: "nat \<Rightarrow> gate_pc"

definition gate_new :: gate where
  "gate_new = \<lparr>arrivals = 0, gate_pcs = (\<lambda>_. Before)\<rparr>"

inductive gate_step :: "nat \<Rightarrow> gate \<Rightarrow> gate \<Rightarrow> bool" for N where
  arrive: "i < N \<Longrightarrow> gate_pcs g i = Before \<Longrightarrow>
    gate_step N g (g\<lparr>arrivals := arrivals g + 1, gate_pcs := (gate_pcs g)(i := Waiting)\<rparr>)"
| pass: "i < N \<Longrightarrow> gate_pcs g i = Waiting \<Longrightarrow> arrivals g = N \<Longrightarrow>
    gate_step N g (g\<lparr>gate_pcs := (gate_pcs g)(i := Passed)\<rparr>)"

text \<open>The refinement mapping: a thread has arrived when it has decremented the counter.\<close>

definition gate_of :: "bar_pc \<Rightarrow> gate_pc" where
  "gate_of p = (if p = Left then Passed else if entered p then Waiting else Before)"

definition bar_abs :: "nat \<Rightarrow> barrier \<Rightarrow> gate" where
  "bar_abs N s = \<lparr>arrivals = entered_count N s, gate_pcs = (\<lambda>i. gate_of (pcs s i))\<rparr>"

lemma gate_of_simps [simp]:
  "gate_of Outside = Before" "gate_of Locked = Before" "gate_of Notifying = Waiting"
  "gate_of Checking = Waiting" "gate_of Blocked = Waiting" "gate_of Woken = Waiting"
  "gate_of Left = Passed" "gate_of (wake_all p i) = gate_of (p i)"
  by (simp_all add: gate_of_def entered_def wake_all_def)

lemma bar_abs_set_pc:
  assumes "i < N"
  shows "gate_pcs (bar_abs N (set_pc i x s)) = (gate_pcs (bar_abs N s))(i := gate_of x)"
    and "arrivals (bar_abs N (set_pc i x s)) + of_bool (entered (pcs s i)) =
      arrivals (bar_abs N s) + of_bool (entered x)"
  using entered_count_upd [OF assms] by (auto simp: bar_abs_def set_pc_def)

lemma bar_abs_frame [simp]:
  "bar_abs N (s\<lparr>mtx := m\<rparr>) = bar_abs N s" "bar_abs N (s\<lparr>nthreads := n\<rparr>) = bar_abs N s"
  "bar_abs N (s\<lparr>pcs := wake_all (pcs s)\<rparr>) = bar_abs N s"
  by (simp_all add: bar_abs_def)

text \<open>A thread that stays on its side of the gate does nothing in the specification.\<close>

lemma bar_abs_stutter:
  assumes "i < N" and "gate_of x = gate_of (pcs s i)"
  shows "bar_abs N (set_pc i x s) = bar_abs N s"
proof -
  have "entered x = entered (pcs s i)"
    using assms(2) by (auto simp: gate_of_def entered_def split: if_splits)
  then have "entered_count N (set_pc i x s) = entered_count N s"
    using count_same [OF assms(1)] by simp
  with assms(2) show ?thesis by (auto simp: bar_abs_def set_pc_def)
qed

lemma gate_simulation:
  assumes inv: "bar_inv N s" and step: "enter_step N s t"
  shows "bar_abs N t = bar_abs N s \<or> gate_step N (bar_abs N s) (bar_abs N t)"
  using step
proof cases
  case (decrement i)
  let ?g = "bar_abs N s"
  have "bar_abs N t = ?g\<lparr>arrivals := arrivals ?g + 1, gate_pcs := (gate_pcs ?g)(i := Waiting)\<rparr>"
    using decrement bar_abs_set_pc [OF decrement(2), of Notifying "s\<lparr>nthreads := nthreads s - 1\<rparr>"]
    by (intro gate.equality) (simp_all add: entered_def)
  moreover have "gate_pcs ?g i = Before" using decrement by (simp add: bar_abs_def)
  ultimately show ?thesis using gate_step.arrive [OF decrement(2)] by metis
next
  case (leave i)
  let ?g = "bar_abs N s"
  have "bar_abs N t = ?g\<lparr>gate_pcs := (gate_pcs ?g)(i := Passed)\<rparr>"
    using leave bar_abs_set_pc [OF leave(2), of Left "s\<lparr>mtx := None\<rparr>"]
    by (intro gate.equality) (simp_all add: entered_def)
  moreover have "gate_pcs ?g i = Waiting" "arrivals ?g = N"
    using leave inv by (simp_all add: bar_abs_def bar_inv_def)
  ultimately show ?thesis using gate_step.pass [OF leave(2)] by metis
next
  case (notify_all i)
  then show ?thesis
    using bar_abs_stutter [of i N Checking "s\<lparr>pcs := wake_all (pcs s)\<rparr>"] by (simp add: wake_all_def)
qed (simp_all add: bar_abs_stutter)

section \<open>Properties\<close>

text \<open>
  C9. The barrier separates the phases: in any execution of \<open>N\<close> threads that each call
  \<open>enter\<close> once on a barrier built for \<open>N\<close>, no thread has returned from \<open>enter\<close> unless every
  thread has already entered it, and at most one thread is inside its mutex at any time.
\<close>

theorem barrier_safe:
  assumes "N < 2 ^ 64" and "(enter_step N)\<^sup>*\<^sup>* (barrier_new (of_nat N)) s"
  shows "((\<exists>i<N. pcs s i = Left) \<longrightarrow> (\<forall>j<N. entered (pcs s j))) \<and>
    (\<forall>i<N. \<forall>j<N. critical (pcs s i) \<and> critical (pcs s j) \<longrightarrow> i = j)"
proof (intro conjI)
  have inv: "bar_inv N s"
    using bar.reachable_inv assms by (simp add: bar_initial_def)
  show "(\<exists>i<N. pcs s i = Left) \<longrightarrow> (\<forall>j<N. entered (pcs s j))"
    using inv some_not_entered [OF inv] unfolding bar_inv_def by blast
  show "\<forall>i<N. \<forall>j<N. critical (pcs s i) \<and> critical (pcs s j) \<longrightarrow> i = j"
    using holder [OF inv] by (metis option.inject)
qed

text \<open>One thread alone runs through: the state in which it has returned.\<close>

definition solo_end :: barrier where
  "solo_end = \<lparr>nthreads = 0, mtx = None, pcs = (\<lambda>_. Outside)(0 := Left)\<rparr>"

lemma solo_run: "(enter_step 1)\<^sup>*\<^sup>* (barrier_new (of_nat 1)) solo_end"
proof -
  let ?s0 = "barrier_new (of_nat 1)"
  let ?s1 = "set_pc 0 Locked (?s0\<lparr>mtx := Some 0\<rparr>)"
  let ?s2 = "set_pc 0 Notifying (?s1\<lparr>nthreads := nthreads ?s1 - 1\<rparr>)"
  let ?s3 = "set_pc 0 Checking (?s2\<lparr>pcs := wake_all (pcs ?s2)\<rparr>)"
  let ?s4 = "set_pc 0 Left (?s3\<lparr>mtx := None\<rparr>)"
  have a: "enter_step 1 ?s0 ?s1" by (rule lock) (simp_all add: barrier_new_def)
  have b: "enter_step 1 ?s1 ?s2" by (rule decrement) (simp_all add: set_pc_def)
  have c: "enter_step 1 ?s2 ?s3" by (rule notify_all) (simp_all add: set_pc_def)
  have d: "enter_step 1 ?s3 ?s4" by (rule leave) (simp_all add: set_pc_def barrier_new_def)
  note snoc = rtranclp.rtrancl_into_rtrancl [where r = "enter_step 1"]
  have "(enter_step 1)\<^sup>*\<^sup>* ?s0 ?s4"
    by (rule snoc [OF snoc [OF snoc [OF snoc [OF rtranclp.rtrancl_refl a] b] c] d])
  moreover have "?s4 = solo_end"
    by (auto simp: set_pc_def barrier_new_def solo_end_def wake_all_def fun_eq_iff)
  ultimately show ?thesis by (simp only:)
qed

theorem barrier_safe_witness:
  "(1::nat) < 2 ^ 64 \<and> pcs solo_end 0 = Left \<and>
   entered (pcs solo_end 0)"
proof -
  have "(1::nat) < 2 ^ 64" by simp
  from barrier_safe [OF this solo_run] show ?thesis by (simp add: solo_end_def)
qed

text \<open>
  C10. The barrier never deadlocks and no wake-up is lost: in every reachable state, unless all
  threads have returned, some thread can move other than by waking up for no reason, and without
  any spurious wake-up the threads can still all return. They also do: an execution that goes on
  forever has infinitely many spurious wake-ups, so that under any scheduler all threads return
  once these stop.
\<close>

theorem barrier_live:
  assumes "N < 2 ^ 64" and "(enter_step N)\<^sup>*\<^sup>* (barrier_new (of_nat N)) s"
  shows "(all_left N s \<or> (\<exists>t. enter_step N s t \<and> \<not> spurious_wakeup N s t)) \<and>
    (\<exists>t. (\<lambda>s t. enter_step N s t \<and> \<not> spurious_wakeup N s t)\<^sup>*\<^sup>* s t \<and> all_left N t) \<and>
    (\<nexists>f. f 0 = s \<and> (\<forall>n. enter_step N (f n) (f (Suc n))) \<and>
         (\<exists>k. \<forall>n. k \<le> n \<longrightarrow> \<not> spurious_wakeup N (f n) (f (Suc n))))"
proof -
  have init: "bar_initial N (barrier_new (of_nat N))"
    using assms(1) by (simp add: bar_initial_def)
  have inv: "bar_inv N s" by (rule bar.reachable_inv [OF init assms(2)])
  have "\<exists>m\<ge>n. spurious_wakeup N (f m) (f (Suc m))"
    if "f 0 = s" "\<forall>n. enter_step N (f n) (f (Suc n))" for f n
    using bar.noise_recurs [of N f n] that inv by simp
  with bar.quiet_enabled [OF inv] bar.quiet.can_finish [OF inv] show ?thesis by blast
qed

theorem barrier_live_witness:
  "(1::nat) < 2 ^ 64 \<and>
   (\<exists>t. (\<lambda>s t. enter_step 1 s t \<and> \<not> spurious_wakeup 1 s t)\<^sup>*\<^sup>* (barrier_new (of_nat 1)) t \<and> all_left 1 t)"
  using barrier_live [of 1 "barrier_new (of_nat 1)"] by simp

text \<open>
  C11. The barrier implements a gate. A new barrier is a gate at which nobody has arrived; in a
  reachable state every step of a thread inside \<open>enter\<close> is an arrival, a passage of the open gate,
  or invisible; and so every execution of the mutex, the counter and the condition variable is
  an execution of the counter of arrivals that the benchmarks are modelled with.
\<close>

theorem barrier_refines_gate:
  assumes "N < 2 ^ 64" and "(enter_step N)\<^sup>*\<^sup>* (barrier_new (of_nat N)) s"
  shows "bar_abs N (barrier_new (of_nat N)) = gate_new \<and>
    (\<forall>t. enter_step N s t \<longrightarrow> bar_abs N t = bar_abs N s \<or> gate_step N (bar_abs N s) (bar_abs N t)) \<and>
    (gate_step N)\<^sup>*\<^sup>* gate_new (bar_abs N s)"
proof -
  have init: "bar_initial N (barrier_new (of_nat N))" using assms(1) by (simp add: bar_initial_def)
  have new: "bar_abs N (barrier_new (of_nat N)) = gate_new"
    by (simp add: bar_abs_def gate_new_def barrier_new_def entered_count_def entered_def)
  from assms(2) have "(gate_step N)\<^sup>*\<^sup>* gate_new (bar_abs N s)"
  proof (induction rule: rtranclp_induct)
    case base
    then show ?case by (simp add: new)
  next
    case (step s t)
    then show ?case
      using gate_simulation [OF bar.reachable_inv [OF init step(1)] step(2)]
      by (auto intro: rtranclp.rtrancl_into_rtrancl)
  qed
  with new gate_simulation [OF bar.reachable_inv [OF init assms(2)]] show ?thesis by blast
qed

theorem barrier_refines_gate_witness:
  "(gate_step 1)\<^sup>*\<^sup>* gate_new (bar_abs 1 solo_end) \<and> arrivals (bar_abs 1 solo_end) = 1 \<and>
   gate_pcs (bar_abs 1 solo_end) 0 = Passed"
  using barrier_refines_gate [OF _ solo_run]
  by (simp add: bar_abs_def solo_end_def entered_count_def entered_def)

end
