(* ===== verification/Linked_Heap.thy ===== *)
theory Linked_Heap
  imports Prelude
begin

text \<open>
  Singly linked structures in a heap, shared by the two queues and the burst buffer. A pointer
  is an address option (\<open>None\<close> for \<open>nullptr\<close>), the heap a partial map from addresses to nodes;
  \<open>lseg nxt h p as q\<close> says that following the successor field from \<open>p\<close> visits exactly the
  addresses \<open>as\<close> and ends at \<open>q\<close>. The allocator is library code: a parameter that returns an
  address or fails, and whose contract is that the address is not in use.
\<close>

type_synonym 'n heap = "addr \<rightharpoonup> 'n"

definition fresh_alloc :: "('n heap \<Rightarrow> addr option) \<Rightarrow> bool" where
  "fresh_alloc new \<longleftrightarrow> (\<forall>h a. new h = Some a \<longrightarrow> a \<notin> dom h)"

fun lseg :: "('n \<Rightarrow> addr option) \<Rightarrow> 'n heap \<Rightarrow> addr option \<Rightarrow> addr list \<Rightarrow> addr option \<Rightarrow> bool" where
  "lseg nxt h p [] q \<longleftrightarrow> p = q"
| "lseg nxt h p (a # as) q \<longleftrightarrow> p = Some a \<and> (\<exists>n. h a = Some n \<and> lseg nxt h (nxt n) as q)"

abbreviation chain :: "('n \<Rightarrow> addr option) \<Rightarrow> 'n heap \<Rightarrow> addr option \<Rightarrow> addr list \<Rightarrow> bool" where
  "chain nxt h p as \<equiv> lseg nxt h p as None"

definition contents :: "('n \<Rightarrow> 'v) \<Rightarrow> 'n heap \<Rightarrow> addr list \<Rightarrow> 'v list" where
  "contents val h as = map (\<lambda>a. val (the (h a))) as"

lemma contents_simps [simp]:
  "contents val h [] = []"
  "contents val h (a # as) = val (the (h a)) # contents val h as"
  "contents val h (as @ bs) = contents val h as @ contents val h bs"
  by (simp_all add: contents_def)

lemma contents_empty_iff [simp]: "contents val h as = [] \<longleftrightarrow> as = []"
  by (simp add: contents_def)

lemma contents_frame [simp]: "a \<notin> set as \<Longrightarrow> contents val (h(a := x)) as = contents val h as"
  by (auto simp: contents_def)

lemma lseg_append: "lseg nxt h p (as @ bs) q \<longleftrightarrow> (\<exists>r. lseg nxt h p as r \<and> lseg nxt h r bs q)"
  by (induction as arbitrary: p) auto

lemma lseg_frame [simp]: "a \<notin> set as \<Longrightarrow> lseg nxt (h(a := x)) p as q = lseg nxt h p as q"
  by (induction as arbitrary: p) auto

lemma lseg_dom: "lseg nxt h p as q \<Longrightarrow> set as \<subseteq> dom h"
  by (induction as arbitrary: p) auto

lemma chain_None [simp]: "chain nxt h None as \<longleftrightarrow> as = []"
  by (cases as) auto

lemma chain_Some:
  "chain nxt h (Some a) as \<longleftrightarrow> (\<exists>n bs. as = a # bs \<and> h a = Some n \<and> chain nxt h (nxt n) bs)"
  by (cases as) auto

lemma chain_unique: "chain nxt h p as \<Longrightarrow> chain nxt h p bs \<Longrightarrow> as = bs"
proof (induction as arbitrary: p bs)
  case (Cons a as)
  then show ?case by (cases bs) auto
qed (cases bs; simp)

lemma chain_head_fresh:
  assumes "chain nxt h p (a # as)"
  shows "a \<notin> set as"
proof
  assume "a \<in> set as"
  then obtain bs cs where split: "as = bs @ a # cs" by (meson split_list)
  from assms obtain n where n: "h a = Some n" "chain nxt h (nxt n) as" by auto
  with split have "chain nxt h (Some a) (a # cs)" by (auto simp: lseg_append)
  with assms have "a # as = a # cs" by (auto intro: chain_unique)
  with split show False by simp
qed

lemma chain_distinct: "chain nxt h p as \<Longrightarrow> distinct as"
proof (induction as arbitrary: p)
  case (Cons a as)
  from chain_head_fresh [OF Cons.prems] Cons show ?case by auto
qed simp

lemma chain_not_last:
  assumes "chain nxt h p (as @ [t])"
  shows "t \<notin> set as" and "\<exists>n. h t = Some n \<and> nxt n = None" and "lseg nxt h p as (Some t)"
  using chain_distinct [OF assms] assms by (auto simp: lseg_append)

text \<open>
  What the code does with a list: append behind the last node, drop the first one. A node type
  takes part by naming its successor field, the update of that field and its payload.
\<close>

locale linked_nodes =
  fixes nxt :: "'n \<Rightarrow> addr option" and set_nxt :: "addr option \<Rightarrow> 'n \<Rightarrow> 'n" and val :: "'n \<Rightarrow> 'v"
  assumes nxt_set: "nxt (set_nxt p n) = p" and val_set: "val (set_nxt p n) = val n"
begin

lemma chain_append:
  assumes ch: "chain nxt h p (as @ [t])" and t: "h t = Some n"
    and a: "a \<notin> dom h" and new: "nxt m = None"
  shows "chain nxt (h(a \<mapsto> m, t \<mapsto> set_nxt (Some a) n)) p (as @ [t, a])"
proof -
  have "a \<notin> set (as @ [t])" using lseg_dom [OF ch] a by auto
  then have "a \<notin> set as" "a \<noteq> t" by auto
  moreover have "t \<notin> set as" by (rule chain_not_last [OF ch])
  moreover have "lseg nxt h p as (Some t)" by (rule chain_not_last [OF ch])
  ultimately show ?thesis using new by (simp add: lseg_append nxt_set)
qed

lemma contents_append:
  assumes ch: "chain nxt h p (as @ [t])" and t: "h t = Some n" and a: "a \<notin> dom h"
  shows "contents val (h(a \<mapsto> m, t \<mapsto> set_nxt (Some a) n)) (as @ [t, a]) =
    contents val h (as @ [t]) @ [val m]"
proof -
  have "a \<notin> set (as @ [t])" using lseg_dom [OF ch] a by auto
  then have "a \<notin> set as" "a \<noteq> t" by auto
  moreover have "t \<notin> set as" by (rule chain_not_last [OF ch])
  ultimately show ?thesis using t by (simp add: val_set)
qed

lemma contents_set_nxt:
  "h t = Some n \<Longrightarrow> contents val (h(t \<mapsto> set_nxt p n)) as = contents val h as"
  by (auto simp: contents_def val_set)

lemma chain_drop_head:
  assumes "chain nxt h (Some a) (a # as)" and "h a = Some n"
  shows "chain nxt (h(a := None)) (nxt n) as \<and> contents val (h(a := None)) as = contents val h as"
  using assms chain_head_fresh [OF assms(1)] by auto

end

end
