(* ===== verification/Fifo.thy ===== *)
theory Fifo
  imports Linked_Heap
begin

text \<open>
  The contract of a first-in first-out queue with failing operations, as an interface: what a
  trace of observable events has to look like, and that every implementation of the four laws
  only produces such traces.
\<close>

datatype 'v qop = Push 'v | Pop

datatype 'v qevent = Pushed 'v | Popped 'v | WasEmpty | Failed exn

definition no_elements :: exn where
  "no_elements = OutOfRange ''no elements''"

fun push_event :: "'v \<Rightarrow> unit res \<Rightarrow> 'v qevent" where
  "push_event v (Inr _) = Pushed v"
| "push_event v (Inl e) = Failed e"

fun pop_event :: "'v res \<Rightarrow> 'v qevent" where
  "pop_event (Inr v) = Popped v"
| "pop_event (Inl e) = (if e = no_elements then WasEmpty else Failed e)"

text \<open>
  A trace is legal from the contents \<open>xs\<close> if every pop returns the oldest element still present,
  \<open>no elements\<close> is reported exactly on the empty queue, a failed operation changes nothing and
  no operation runs into undefined behaviour. \<open>fifo_after\<close> is the contents a trace leaves.
\<close>

fun fifo_legal :: "'v list \<Rightarrow> 'v qevent list \<Rightarrow> bool" where
  "fifo_legal xs [] \<longleftrightarrow> True"
| "fifo_legal xs (Pushed v # tr) \<longleftrightarrow> fifo_legal (xs @ [v]) tr"
| "fifo_legal xs (Popped v # tr) \<longleftrightarrow> (\<exists>ys. xs = v # ys \<and> fifo_legal ys tr)"
| "fifo_legal xs (WasEmpty # tr) \<longleftrightarrow> xs = [] \<and> fifo_legal xs tr"
| "fifo_legal xs (Failed e # tr) \<longleftrightarrow> e \<noteq> Undefined \<and> fifo_legal xs tr"

fun fifo_after :: "'v list \<Rightarrow> 'v qevent list \<Rightarrow> 'v list" where
  "fifo_after xs [] = xs"
| "fifo_after xs (Pushed v # tr) = fifo_after (xs @ [v]) tr"
| "fifo_after xs (Popped v # tr) = fifo_after (tl xs) tr"
| "fifo_after xs (WasEmpty # tr) = fifo_after xs tr"
| "fifo_after xs (Failed e # tr) = fifo_after xs tr"

fun fifo_run ::
  "('v \<Rightarrow> 's \<Rightarrow> 's \<times> unit res) \<Rightarrow> ('s \<Rightarrow> 's \<times> 'v res) \<Rightarrow> 'v qop list \<Rightarrow> 's \<Rightarrow> 's \<times> 'v qevent list"
where
  "fifo_run push pop [] s = (s, [])"
| "fifo_run push pop (Push v # ops) s =
     (case push v s of (s', r) \<Rightarrow>
      case fifo_run push pop ops s' of (s'', tr) \<Rightarrow> (s'', push_event v r # tr))"
| "fifo_run push pop (Pop # ops) s =
     (case pop s of (s', r) \<Rightarrow>
      case fifo_run push pop ops s' of (s'', tr) \<Rightarrow> (s'', pop_event r # tr))"

locale fifo =
  fixes push :: "'v \<Rightarrow> 's \<Rightarrow> 's \<times> unit res" and pop :: "'s \<Rightarrow> 's \<times> 'v res"
    and rep :: "'s \<Rightarrow> 'v list \<Rightarrow> bool"
  assumes push_ok: "rep s xs \<Longrightarrow> push v s = (s', Inr u) \<Longrightarrow> rep s' (xs @ [v])"
    and push_err: "rep s xs \<Longrightarrow> push v s = (s', Inl e) \<Longrightarrow> rep s' xs \<and> e \<noteq> Undefined"
    and pop_ok: "rep s xs \<Longrightarrow> pop s = (s', Inr v) \<Longrightarrow> \<exists>ys. xs = v # ys \<and> rep s' ys"
    and pop_err: "rep s xs \<Longrightarrow> pop s = (s', Inl e) \<Longrightarrow>
      rep s' xs \<and> e \<noteq> Undefined \<and> (e = no_elements \<longrightarrow> xs = [])"
begin

lemma run_legal:
  "rep s xs \<Longrightarrow> fifo_run push pop ops s = (s', tr) \<Longrightarrow>
     fifo_legal xs tr \<and> rep s' (fifo_after xs tr)"
proof (induction ops arbitrary: s xs tr)
  case (Cons p ops)
  show ?case
  proof (cases p)
    case (Push v)
    obtain s1 r where step: "push v s = (s1, r)" by fastforce
    obtain s2 tr' where rest: "fifo_run push pop ops s1 = (s2, tr')" by fastforce
    show ?thesis
    proof (cases r)
      case (Inl e)
      with step Cons.prems push_err have "rep s1 xs" "e \<noteq> Undefined" by blast+
      with Inl Push step rest Cons show ?thesis by auto
    next
      case (Inr u)
      with step Cons.prems push_ok have "rep s1 (xs @ [v])" by blast
      with Inr Push step rest Cons show ?thesis by auto
    qed
  next
    case Pop
    obtain s1 r where step: "pop s = (s1, r)" by fastforce
    obtain s2 tr' where rest: "fifo_run push pop ops s1 = (s2, tr')" by fastforce
    show ?thesis
    proof (cases r)
      case (Inl e)
      with step Cons.prems pop_err
      have "rep s1 xs" "e \<noteq> Undefined" "e = no_elements \<longrightarrow> xs = []" by blast+
      with Inl Pop step rest Cons show ?thesis by auto
    next
      case (Inr v)
      with step Cons.prems pop_ok obtain ys where "xs = v # ys" "rep s1 ys" by blast
      with Inr Pop step rest Cons show ?thesis by auto
    qed
  qed
qed simp

end

end
