(* ===== verification/Volatile_Queue.thy ===== *)
theory Volatile_Queue
  imports Fifo
begin

text \<open>
  Model of \<open>ppm_ch8_6_volatile_queue/main.cpp\<close>: a linked queue in volatile memory. \<open>new\<close> is
  the allocator behind \<open>operator new\<close>, an argument. Dereferencing a null or dangling pointer is
  \<open>Undefined\<close>. The \<open>int\<close> payload is stored and printed, never computed with.
\<close>

record queue_node =
  node_value :: int
  node_next :: "addr option"

record queue =
  heap :: "queue_node heap"
  head :: "addr option"
  tail :: "addr option"

datatype show_out = ShowLine int | EndLine

definition queue_new :: queue where
  "queue_new = \<lparr>heap = Map.empty, head = None, tail = None\<rparr>"

definition vq_push :: "(queue_node heap \<Rightarrow> addr option) \<Rightarrow> int \<Rightarrow> queue \<Rightarrow> queue \<times> unit res" where
  "vq_push new v q =
     (case new (heap q) of
        None \<Rightarrow> (q, Inl BadAlloc)
      | Some node \<Rightarrow>
          let h = (heap q)(node \<mapsto> \<lparr>node_value = v, node_next = None\<rparr>) in
          if head q = None
          then (q\<lparr>heap := h, head := Some node, tail := Some node\<rparr>, Inr ())
          else (case tail q of
                  None \<Rightarrow> (q, Inl Undefined)
                | Some t \<Rightarrow>
                    (case h t of
                       None \<Rightarrow> (q, Inl Undefined)
                     | Some tn \<Rightarrow>
                         (q\<lparr>heap := h(t \<mapsto> tn\<lparr>node_next := Some node\<rparr>), tail := Some node\<rparr>, Inr ()))))"

definition vq_pop :: "queue \<Rightarrow> queue \<times> int res" where
  "vq_pop q =
     (case head q of
        None \<Rightarrow> (q, Inl (OutOfRange ''no elements''))
      | Some head_ptr \<Rightarrow>
          (case heap q head_ptr of
             None \<Rightarrow> (q, Inl Undefined)
           | Some n \<Rightarrow>
               let q1 = q\<lparr>head := node_next n, heap := (heap q)(head_ptr := None)\<rparr>;
                   q2 = (if head q1 = None then q1\<lparr>tail := None\<rparr> else q1)
               in (q2, Inr (node_value n))))"

partial_function (option) show_loop :: "queue_node heap \<Rightarrow> addr option \<Rightarrow> show_out list \<Rightarrow> show_out list res option" where
  "show_loop h node out =
     (case node of
        None \<Rightarrow> Some (Inr (out @ [EndLine]))
      | Some a \<Rightarrow>
          (case h a of
             None \<Rightarrow> Some (Inl Undefined)
           | Some n \<Rightarrow> show_loop h (node_next n) (out @ [ShowLine (node_value n)])))"

definition vq_show :: "queue \<Rightarrow> show_out list res option" where
  "vq_show q = show_loop (heap q) (head q) []"

section \<open>Representation\<close>

text \<open>
  The queue holds \<open>xs\<close>: the nodes from \<open>head\<close> carry \<open>xs\<close> in order, \<open>tail\<close> is the last of them,
  and they are all the nodes there are (nothing leaked).
\<close>

definition queue_at :: "queue \<Rightarrow> addr list \<Rightarrow> int list \<Rightarrow> bool" where
  "queue_at q as xs \<longleftrightarrow>
     chain node_next (heap q) (head q) as \<and> dom (heap q) = set as \<and>
     tail q = (if as = [] then None else Some (last as)) \<and>
     contents node_value (heap q) as = xs"

definition queue_rep :: "queue \<Rightarrow> int list \<Rightarrow> bool" where
  "queue_rep q xs \<longleftrightarrow> (\<exists>as. queue_at q as xs)"

interpretation qn: linked_nodes node_next "\<lambda>p n. n\<lparr>node_next := p\<rparr>" node_value
  by unfold_locales simp_all

lemma queue_rep_new: "queue_rep queue_new []"
  by (auto simp: queue_rep_def queue_at_def queue_new_def)

lemma queue_at_empty: "queue_at q as xs \<Longrightarrow> head q = None \<longleftrightarrow> as = []"
  by (cases as) (auto simp: queue_at_def)

lemma push_nonempty:
  assumes at: "queue_at q as xs" and ne: "as \<noteq> []" and a: "a \<notin> dom (heap q)"
  obtains tn where "heap q (last as) = Some tn"
    and "queue_at (q\<lparr>heap := (heap q)(a \<mapsto> \<lparr>node_value = v, node_next = None\<rparr>,
           last as \<mapsto> tn\<lparr>node_next := Some a\<rparr>), tail := Some a\<rparr>) (as @ [a]) (xs @ [v])"
proof -
  from ne obtain bs t where as: "as = bs @ [t]" by (metis rev_exhaust)
  with at have ch: "chain node_next (heap q) (head q) (bs @ [t])" by (simp add: queue_at_def)
  from chain_not_last(2) [OF ch] obtain tn where tn: "heap q t = Some tn" by blast
  have "queue_at (q\<lparr>heap := (heap q)(a \<mapsto> \<lparr>node_value = v, node_next = None\<rparr>,
           last as \<mapsto> tn\<lparr>node_next := Some a\<rparr>), tail := Some a\<rparr>) (as @ [a]) (xs @ [v])"
    using at as tn qn.chain_append [OF ch tn a] qn.contents_append [OF ch tn a]
    by (simp add: queue_at_def del: contents_simps) auto
  with tn as show thesis by (intro that) auto
qed

lemma vq_push_ok:
  assumes rep: "queue_rep q xs" and new: "new (heap q) = Some a" and a: "a \<notin> dom (heap q)"
  shows "\<exists>q'. vq_push new v q = (q', Inr ()) \<and> queue_rep q' (xs @ [v])"
proof -
  from rep obtain as where at: "queue_at q as xs" by (auto simp: queue_rep_def)
  show ?thesis
  proof (cases "as = []")
    case True
    with at have "xs = []" "heap q = Map.empty" "head q = None" by (auto simp: queue_at_def)
    then have "queue_at (fst (vq_push new v q)) [a] (xs @ [v])"
      and "snd (vq_push new v q) = Inr ()"
      using new by (auto simp: vq_push_def queue_at_def Let_def)
    then show ?thesis by (metis prod.collapse queue_rep_def)
  next
    case False
    from push_nonempty [OF at False a, of v] obtain tn where tn: "heap q (last as) = Some tn"
      and at': "queue_at (q\<lparr>heap := (heap q)(a \<mapsto> \<lparr>node_value = v, node_next = None\<rparr>,
           last as \<mapsto> tn\<lparr>node_next := Some a\<rparr>), tail := Some a\<rparr>) (as @ [a]) (xs @ [v])"
      by blast
    have "last as \<noteq> a" using tn a by auto
    with tn at False new queue_at_empty [OF at] have "vq_push new v q =
      (q\<lparr>heap := (heap q)(a \<mapsto> \<lparr>node_value = v, node_next = None\<rparr>,
           last as \<mapsto> tn\<lparr>node_next := Some a\<rparr>), tail := Some a\<rparr>, Inr ())"
      by (auto simp: vq_push_def queue_at_def Let_def)
    with at' show ?thesis by (auto simp: queue_rep_def)
  qed
qed

lemma vq_pop_empty: "queue_rep q [] \<Longrightarrow> vq_pop q = (q, Inl no_elements)"
  by (auto simp: queue_rep_def queue_at_def vq_pop_def no_elements_def)

lemma vq_pop_nonempty:
  assumes "queue_rep q (x # xs)"
  shows "\<exists>q'. vq_pop q = (q', Inr x) \<and> queue_rep q' xs"
proof -
  from assms obtain as where "queue_at q as (x # xs)" by (auto simp: queue_rep_def)
  then obtain a bs n where as: "as = a # bs" and at: "queue_at q (a # bs) (x # xs)"
    and n: "heap q a = Some n" and hd: "head q = Some a"
    by (cases as) (auto simp: queue_at_def)
  have "chain node_next (heap q) (Some a) (a # bs)" using at hd by (simp add: queue_at_def)
  note drop = qn.chain_drop_head [OF this n] chain_head_fresh [OF this]
  have "queue_at (fst (vq_pop q)) bs xs" "snd (vq_pop q) = Inr x"
    using at hd n drop by (cases bs; auto simp: vq_pop_def queue_at_def Let_def)+
  then show ?thesis by (metis prod.collapse queue_rep_def)
qed

lemma vq_push_fail: "new (heap q) = None \<Longrightarrow> vq_push new v q = (q, Inl BadAlloc)"
  by (simp add: vq_push_def)

lemma show_loop_chain:
  "chain node_next h p as \<Longrightarrow>
     show_loop h p out = Some (Inr (out @ map ShowLine (contents node_value h as) @ [EndLine]))"
proof (induction as arbitrary: p out)
  case Nil
  then show ?case by (simp add: show_loop.simps)
next
  case (Cons a as)
  then obtain n where "p = Some a" "h a = Some n" "chain node_next h (node_next n) as" by auto
  with Cons.IH show ?case by (subst show_loop.simps) simp
qed

definition vq_rep :: "(queue_node heap \<Rightarrow> addr option) \<Rightarrow> queue \<Rightarrow> int list \<Rightarrow> bool" where
  "vq_rep new q xs \<longleftrightarrow> fresh_alloc new \<and> queue_rep q xs"

lemma vq_push_cases:
  assumes "vq_rep new q xs"
  obtains (ok) q' where "vq_push new v q = (q', Inr ())" "queue_rep q' (xs @ [v])"
    | (full) "vq_push new v q = (q, Inl BadAlloc)"
proof (cases "new (heap q)")
  case None
  then show thesis by (simp add: vq_push_fail full)
next
  case (Some a)
  with assms have "a \<notin> dom (heap q)" by (auto simp: vq_rep_def fresh_alloc_def)
  with assms Some vq_push_ok [of q xs new a v] show thesis by (auto simp: vq_rep_def intro: ok)
qed

lemma vq_pop_cases:
  assumes "queue_rep q xs"
  obtains (empty) "xs = []" "vq_pop q = (q, Inl no_elements)"
    | (ok) x ys q' where "xs = x # ys" "vq_pop q = (q', Inr x)" "queue_rep q' ys"
  using assms vq_pop_empty vq_pop_nonempty by (cases xs) blast+

interpretation vq: fifo "vq_push new" vq_pop "vq_rep new" for new
proof unfold_locales
  fix q q' :: queue and xs v u e
  assume rep: "vq_rep new q xs"
  then have fr: "fresh_alloc new" and q: "queue_rep q xs" by (simp_all add: vq_rep_def)
  show "vq_rep new q' (xs @ [v])" if "vq_push new v q = (q', Inr u)"
    using that by (cases rule: vq_push_cases [OF rep, where v = v]) (auto simp: vq_rep_def fr)
  show "vq_rep new q' xs \<and> e \<noteq> Undefined" if "vq_push new v q = (q', Inl e)"
    using that rep by (cases rule: vq_push_cases [OF rep, where v = v]) auto
  show "\<exists>ys. xs = v # ys \<and> vq_rep new q' ys" if "vq_pop q = (q', Inr v)"
    using that by (cases rule: vq_pop_cases [OF q]) (auto simp: vq_rep_def fr)
  show "vq_rep new q' xs \<and> e \<noteq> Undefined \<and> (e = no_elements \<longrightarrow> xs = [])" if "vq_pop q = (q', Inl e)"
    using that rep by (cases rule: vq_pop_cases [OF q]) (auto simp: no_elements_def)
qed

section \<open>Properties\<close>

text \<open>
  C38. The volatile queue is a FIFO queue: whatever sequence of pushes and pops is run on a new
  queue with an allocator that never hands out an address in use, every pop returns the oldest
  element still present, \<open>out_of_range\<close> is thrown exactly on the empty queue, a failing
  allocation changes nothing, no null or dangling pointer is dereferenced, and the nodes in
  memory are exactly those of the elements left (no leak).
\<close>

theorem volatile_queue_fifo:
  assumes "fresh_alloc new" and "fifo_run (vq_push new) vq_pop ops queue_new = (q, tr)"
  shows "fifo_legal [] tr \<and> queue_rep q (fifo_after [] tr)"
proof -
  have "vq_rep new queue_new []" using assms(1) queue_rep_new by (simp add: vq_rep_def)
  from vq.run_legal [OF this assms(2)] show ?thesis by (simp add: vq_rep_def)
qed

text \<open>An allocator for concrete runs: the first free address among the first hundred.\<close>

definition first_free :: "'n heap \<Rightarrow> addr option" where
  "first_free h = find (\<lambda>a. h a = None) [0..<100]"

lemma first_free_fresh [simp]: "fresh_alloc first_free"
  by (auto simp: fresh_alloc_def first_free_def find_Some_iff)

theorem volatile_queue_fifo_witness:
  "fresh_alloc (first_free :: queue_node heap \<Rightarrow> addr option) \<and>
   fifo_legal [] (snd (fifo_run (vq_push first_free) vq_pop [Push 1, Push 2, Pop, Pop, Pop] queue_new)) \<and>
   snd (fifo_run (vq_push first_free) vq_pop [Push 1, Push 2, Pop, Pop, Pop] queue_new) =
     [Pushed 1, Pushed 2, Popped 1, Popped 2, WasEmpty]"
proof (intro conjI)
  let ?ops = "[Push 1, Push 2, Pop, Pop, Pop]"
  show "fresh_alloc (first_free :: queue_node heap \<Rightarrow> addr option)" by simp
  then show "fifo_legal [] (snd (fifo_run (vq_push first_free) vq_pop ?ops queue_new))"
    using volatile_queue_fifo [of first_free ?ops] by (metis prod.collapse)
  show "snd (fifo_run (vq_push first_free) vq_pop ?ops queue_new) =
     [Pushed 1, Pushed 2, Popped 1, Popped 2, WasEmpty]"
    by (simp add: vq_push_def vq_pop_def queue_new_def first_free_def upt_rec Let_def no_elements_def)
qed

text \<open>
  \<open>show\<close> terminates on every queue and prints its elements in queue order, one per line,
  followed by an empty line.
\<close>

theorem volatile_queue_show:
  assumes "queue_rep q xs"
  shows "vq_show q = Some (Inr (map ShowLine xs @ [EndLine]))"
  using assms by (auto simp: queue_rep_def queue_at_def vq_show_def show_loop_chain)

theorem volatile_queue_show_witness:
  "queue_rep queue_new [] \<and> vq_show queue_new = Some (Inr [EndLine])"
  using volatile_queue_show [OF queue_rep_new] queue_rep_new by simp

end
