(* ===== verification/Console.thy ===== *)
theory Console
  imports Prelude
begin

text \<open>
  What the programs use of the standard input stream and of \<open>std::stoi\<close>: formatted extraction of
  a word and of an \<open>int\<close> from \<open>std::cin\<close>, with the stream's failure state, and conversion of a
  string to \<open>int\<close> with its two exceptions. Characters are bytes; white space is the ``C'' locale's.
\<close>

definition is_space :: "char \<Rightarrow> bool" where
  "is_space c \<longleftrightarrow> of_char c \<in> set [32, 9, 10, 11, 12, 13 :: nat]"

definition is_dec_digit :: "char \<Rightarrow> bool" where
  "is_dec_digit c \<longleftrightarrow> 48 \<le> (of_char c :: nat) \<and> (of_char c :: nat) \<le> 57"

definition dec_val :: "string \<Rightarrow> int" where
  "dec_val ds = foldl (\<lambda>n c. 10 * n + (int (of_char c) - 48)) 0 ds"

definition int_min :: int where "int_min = - (2 ^ 31)"
definition int_max :: int where "int_max = 2 ^ 31 - 1"

text \<open>An input stream: the characters not yet read, and whether an extraction has failed.\<close>

record istream =
  rest :: string
  failed :: bool

definition istream_of :: "string \<Rightarrow> istream" where
  "istream_of s = \<lparr>rest = s, failed = False\<rparr>"

text \<open>
  \<open>in >> word\<close>: skips white space and takes the characters up to the next; an extraction that
  finds none fails and leaves the empty string, and every later extraction fails too.
\<close>

definition read_word :: "istream \<Rightarrow> string \<times> istream" where
  "read_word i =
     (if failed i then ('''', i)
      else let s = dropWhile is_space (rest i); w = takeWhile (\<lambda>c. \<not> is_space c) s in
           (w, \<lparr>rest = dropWhile (\<lambda>c. \<not> is_space c) s, failed = (w = [])\<rparr>))"

text \<open>The sign and the digits an integer conversion consumes, and what follows them.\<close>

definition split_int :: "string \<Rightarrow> bool \<times> string \<times> string" where
  "split_int s =
     (let (neg, t) = (case s of
        c # cs \<Rightarrow> if c = CHR ''-'' then (True, cs) else if c = CHR ''+'' then (False, cs) else (False, s)
      | [] \<Rightarrow> (False, s)) in
      (neg, takeWhile is_dec_digit t, dropWhile is_dec_digit t))"

text \<open>
  \<open>in >> value\<close> for an \<open>int\<close>: without digits the extraction fails and stores 0, out of range it
  fails and stores the nearest limit.
\<close>

definition read_int :: "istream \<Rightarrow> int \<times> istream" where
  "read_int i =
     (if failed i then (0, i)
      else case split_int (dropWhile is_space (rest i)) of
        (neg, ds, r) \<Rightarrow>
          let v = (if neg then - dec_val ds else dec_val ds) in
          if ds = [] then (0, \<lparr>rest = r, failed = True\<rparr>)
          else if v > int_max then (int_max, \<lparr>rest = r, failed = True\<rparr>)
          else if v < int_min then (int_min, \<lparr>rest = r, failed = True\<rparr>)
          else (v, \<lparr>rest = r, failed = False\<rparr>))"

text \<open>\<open>std::stoi\<close>: trailing characters are ignored.\<close>

definition stoi :: "string \<Rightarrow> int res" where
  "stoi s =
     (case split_int (dropWhile is_space s) of
        (neg, ds, _) \<Rightarrow>
          let v = (if neg then - dec_val ds else dec_val ds) in
          if ds = [] then Inl (InvalidArgument ''stoi'')
          else if v > int_max \<or> v < int_min then Inl (OutOfRange ''stoi'')
          else Inr v)"

lemma read_word_shrinks: "\<not> failed (snd (read_word i)) \<Longrightarrow> length (rest (snd (read_word i))) < length (rest i)"
proof -
  assume ok: "\<not> failed (snd (read_word i))"
  let ?s = "dropWhile is_space (rest i)"
  from ok have nf: "\<not> failed i" and ne: "takeWhile (\<lambda>c. \<not> is_space c) ?s \<noteq> []"
    by (auto simp: read_word_def Let_def split: if_splits)
  have "length (takeWhile (\<lambda>c. \<not> is_space c) ?s) + length (dropWhile (\<lambda>c. \<not> is_space c) ?s) = length ?s"
    by (metis length_append takeWhile_dropWhile_id)
  moreover have "length ?s \<le> length (rest i)" by (rule length_dropWhile_le)
  moreover have "0 < length (takeWhile (\<lambda>c. \<not> is_space c) ?s)" using ne by (auto simp del: takeWhile_eq_Nil_iff)
  ultimately have "length (dropWhile (\<lambda>c. \<not> is_space c) ?s) < length (rest i)" by linarith
  with nf show ?thesis by (simp add: read_word_def Let_def)
qed

lemma read_int_rest: "length (rest (snd (read_int i))) \<le> length (rest i)"
proof -
  let ?s = "dropWhile is_space (rest i)"
  have "length (snd (snd (split_int t))) \<le> length t" for t
    by (cases t) (auto simp: split_int_def Let_def intro: order_trans [OF length_dropWhile_le])
  from order_trans [OF this length_dropWhile_le] have "length (snd (snd (split_int ?s))) \<le> length (rest i)" .
  then show ?thesis
    by (cases "split_int ?s") (auto simp: read_int_def Let_def)
qed

lemma read_word_failed: "failed i \<Longrightarrow> read_word i = ('''', i)"
  by (simp add: read_word_def)

lemma read_word_empty_iff: "fst (read_word i) = [] \<longleftrightarrow> failed (snd (read_word i))"
  by (auto simp: read_word_def Let_def)

lemma stoi_range: "stoi s = Inr v \<Longrightarrow> int_min \<le> v \<and> v \<le> int_max"
  by (auto simp: stoi_def Let_def split: prod.splits if_splits)

end
