(* ===== verification/Persistent_Queue.thy ===== *)
theory Persistent_Queue
  imports Volatile_Queue Console
begin

text \<open>
  Model of \<open>ppm_ch8_7_persistent_queue\<close>: the same linked queue with its nodes in a libpmemobj
  pool, every update inside a transaction, and the interactive program around it. The pool is
  the queue record of \<open>Volatile_Queue\<close> (persistent pointers are addresses of the pool); the
  transaction runner, the persistent allocator and opening the pool are arguments.
\<close>

section \<open>Definitions\<close>

definition pq_push_tx :: "(queue_node heap \<Rightarrow> addr option) \<Rightarrow> int \<Rightarrow> queue \<Rightarrow> queue \<times> unit res" where
  "pq_push_tx make_persistent v q =
    (case make_persistent (heap q) of
       None \<Rightarrow> (q, Inl BadAlloc)
     | Some node \<Rightarrow>
         let q1 = q\<lparr>heap := (heap q)(node \<mapsto> \<lparr>node_value = v, node_next = None\<rparr>)\<rparr> in
         if head q1 = None then (q1\<lparr>head := Some node, tail := Some node\<rparr>, Inr ())
         else (case tail q1 of
                 None \<Rightarrow> (q1, Inl Undefined)
               | Some t \<Rightarrow>
                   (case heap q1 t of
                      None \<Rightarrow> (q1, Inl Undefined)
                    | Some tn \<Rightarrow>
                        (q1\<lparr>heap := (heap q1)(t \<mapsto> tn\<lparr>node_next := Some node\<rparr>), tail := Some node\<rparr>,
                         Inr ()))))"

definition pq_push ::
  "(queue, unit) tx_run \<Rightarrow> (queue_node heap \<Rightarrow> addr option) \<Rightarrow> int \<Rightarrow> queue \<Rightarrow> queue \<times> unit res"
where
  "pq_push run make_persistent v q = run (pq_push_tx make_persistent v) q"

definition pq_pop_tx :: "queue \<Rightarrow> queue \<times> int res" where
  "pq_pop_tx q =
    (case head q of
       None \<Rightarrow> (q, Inl (OutOfRange ''no elements''))
     | Some head_ptr \<Rightarrow>
         (case heap q head_ptr of
            None \<Rightarrow> (q, Inl Undefined)
          | Some n \<Rightarrow>
              let q1 = q\<lparr>head := node_next n\<rparr>;
                  q2 = q1\<lparr>heap := (heap q1)(head_ptr := None)\<rparr>;
                  q3 = (if head q2 = None then q2\<lparr>tail := None\<rparr> else q2)
              in (q3, Inr (node_value n))))"

definition pq_pop :: "(queue, int) tx_run \<Rightarrow> queue \<Rightarrow> queue \<times> int res" where
  "pq_pop run q = run pq_pop_tx q"

definition pq_show :: "queue \<Rightarrow> show_out list res option" where
  "pq_show q = show_loop (heap q) (head q) []"

datatype queue_op = PUSH | POP | SHOW | EXIT | MAX_OPS

definition ops_str :: "string list" where
  "ops_str = [''push'', ''pop'', ''show'', ''exit'']"

definition parse_queue_ops :: "string \<Rightarrow> queue_op" where
  "parse_queue_ops ops =
     (case find (\<lambda>i. ops = ops_str ! i) [0..<4] of
        Some i \<Rightarrow> [PUSH, POP, SHOW, EXIT] ! i
      | None \<Rightarrow> MAX_OPS)"

text \<open>What the program writes.\<close>

datatype term_out = Prompt | PopLine int | ShowOut "show_out list" | ErrLine string

function queue_loop ::
  "(queue, unit) tx_run \<Rightarrow> (queue, int) tx_run \<Rightarrow> (queue_node heap \<Rightarrow> addr option) \<Rightarrow>
   queue \<Rightarrow> istream \<Rightarrow> term_out list \<Rightarrow> (queue \<times> term_out list \<times> ended) option"
where
  "queue_loop runu runi mk q cin out =
     (let out1 = out @ [Prompt]; command = fst (read_word cin); cin1 = snd (read_word cin) in
      if parse_queue_ops command = PUSH then
        (case pq_push runu mk (fst (read_int cin1)) q of
           (q', Inl e) \<Rightarrow> Some (q', out1, Uncaught e)
         | (q', Inr _) \<Rightarrow> queue_loop runu runi mk q' (snd (read_int cin1)) out1)
      else if parse_queue_ops command = POP then
        (case pq_pop runi q of
           (q', Inl e) \<Rightarrow> Some (q', out1, Uncaught e)
         | (q', Inr v) \<Rightarrow> queue_loop runu runi mk q' cin1 (out1 @ [PopLine v]))
      else if parse_queue_ops command = SHOW then
        (case pq_show q of
           None \<Rightarrow> None
         | Some (Inl e) \<Rightarrow> Some (q, out1, Uncaught e)
         | Some (Inr ls) \<Rightarrow> queue_loop runu runi mk q cin1 (out1 @ [ShowOut ls]))
      else if parse_queue_ops command = EXIT then Some (q, out1, Exited 0)
      else Some (q, out1 @ [ErrLine ''unknown ops''], Exited 0))"
  by pat_completeness auto

lemma parse_known: "parse_queue_ops w \<noteq> MAX_OPS \<Longrightarrow> w \<noteq> []"
  by (auto simp: parse_queue_ops_def ops_str_def upt_rec)

lemma read_known_shrinks:
  assumes "parse_queue_ops (fst (read_word i)) \<noteq> MAX_OPS"
  shows "length (rest (snd (read_word i))) < length (rest i)"
  using parse_known [OF assms] by (intro read_word_shrinks) (simp add: read_word_empty_iff)

lemma read_push_shrinks:
  assumes "parse_queue_ops (fst (read_word i)) \<noteq> MAX_OPS"
  shows "length (rest (snd (read_int (snd (read_word i))))) < length (rest i)"
  using read_known_shrinks [OF assms] read_int_rest order.strict_trans1 by blast

termination queue_loop
  by (relation "measure (\<lambda>(runu, runi, mk, q, i, out). length (rest i))")
     (auto intro: read_known_shrinks read_push_shrinks)

declare queue_loop.simps [simp del]

text \<open>
  \<open>main\<close>: \<open>pool_open\<close> and \<open>pool_root\<close> are the pool operations; a pool that could not be opened is \<open>None\<close>,
  and after reporting the failure the program goes on to use it.
\<close>

definition queue_main ::
  "(queue, unit) tx_run \<Rightarrow> (queue, int) tx_run \<Rightarrow> (queue_node heap \<Rightarrow> addr option) \<Rightarrow>
   (string \<Rightarrow> queue option) \<Rightarrow> (queue option \<Rightarrow> queue res) \<Rightarrow> string list \<Rightarrow> string \<Rightarrow>
   (term_out list \<times> ended) option"
where
  "queue_main runu runi mk pool_open pool_root argv stdin =
     (if length argv < 2 then Some ([ErrLine ''Usage''], Exited 1)
      else
        let pool = pool_open (argv ! 1);
            out = (if pool = None then [ErrLine ''pool_error'', ErrLine ''To create pool run''] else [])
        in case pool_root pool of
             Inl e \<Rightarrow> Some (out, Uncaught e)
           | Inr q \<Rightarrow>
               map_option (\<lambda>(_, out', e). (out', e)) (queue_loop runu runi mk q (istream_of stdin) out))"

section \<open>Lemmas\<close>

text \<open>On a well-formed queue a transaction's body does what the volatile operation does.\<close>

lemma pq_push_tx_eq: "queue_rep q xs \<Longrightarrow> fresh_alloc mk \<Longrightarrow> pq_push_tx mk v q = vq_push mk v q"
proof -
  assume "queue_rep q xs" and fr: "fresh_alloc mk"
  then have "vq_rep mk q xs" by (simp add: vq_rep_def)
  then have "snd (vq_push mk v q) \<noteq> Inl Undefined"
    by (rule vq_push_cases [where v = v]) auto
  then show ?thesis
    unfolding vq_push_def pq_push_tx_def Let_def by (auto split: option.splits)
qed

lemma pq_pop_tx_eq: "pq_pop_tx q = vq_pop q"
  by (auto simp: pq_pop_tx_def vq_pop_def Let_def split: option.splits)

definition pq_rep ::
  "(queue, unit) tx_run \<Rightarrow> (queue, int) tx_run \<Rightarrow> (queue_node heap \<Rightarrow> addr option) \<Rightarrow>
   queue \<Rightarrow> int list \<Rightarrow> bool"
where
  "pq_rep runu runi mk q xs \<longleftrightarrow> tx_atomic runu \<and> tx_atomic runi \<and> fresh_alloc mk \<and> queue_rep q xs"

lemma pq_push_cases:
  assumes "pq_rep runu runi mk q xs"
  obtains (ok) q' where "pq_push runu mk v q = (q', Inr ())" "queue_rep q' (xs @ [v])"
    | (fail) e where "pq_push runu mk v q = (q, Inl e)" "e \<in> {BadAlloc, TxError}"
proof -
  from assms have at: "tx_atomic runu" and vq: "vq_rep mk q xs"
    and body: "pq_push_tx mk v q = vq_push mk v q"
    by (auto simp: pq_rep_def vq_rep_def intro: pq_push_tx_eq)
  show thesis
    using at
  proof (cases rule: tx_atomic_cases [where body = "pq_push_tx mk v" and s = q])
    case (commit q' r)
    with body ok show thesis
      by (cases rule: vq_push_cases [OF vq, where v = v]) (auto simp: pq_push_def)
  next
    case failed
    with fail show thesis by (auto simp: pq_push_def)
  next
    case (aborted e)
    with body fail show thesis
      by (cases rule: vq_push_cases [OF vq, where v = v]) (auto simp: pq_push_def)
  qed
qed

lemma pq_pop_cases:
  assumes "pq_rep runu runi mk q xs"
  obtains (ok) x ys q' where "xs = x # ys" "pq_pop runi q = (q', Inr x)" "queue_rep q' ys"
    | (empty) "xs = []" "pq_pop runi q = (q, Inl no_elements)"
    | (fail) "pq_pop runi q = (q, Inl TxError)"
proof -
  from assms have at: "tx_atomic runi" and rep: "queue_rep q xs" by (auto simp: pq_rep_def)
  show thesis
    using at
  proof (cases rule: tx_atomic_cases [where body = pq_pop_tx and s = q])
    case (commit q' r)
    with ok show thesis
      by (cases rule: vq_pop_cases [OF rep]) (auto simp: pq_pop_def pq_pop_tx_eq)
  next
    case failed
    with fail show thesis by (simp add: pq_pop_def)
  next
    case (aborted e)
    with empty show thesis
      by (cases rule: vq_pop_cases [OF rep]) (auto simp: pq_pop_def pq_pop_tx_eq)
  qed
qed

interpretation pq: fifo "pq_push runu mk" "pq_pop runi" "pq_rep runu runi mk" for runu runi mk
proof unfold_locales
  fix q q' :: queue and xs v u e
  assume rep: "pq_rep runu runi mk q xs"
  show "pq_rep runu runi mk q' (xs @ [v])" if "pq_push runu mk v q = (q', Inr u)"
    using that rep by (cases rule: pq_push_cases [OF rep, where v = v]) (auto simp: pq_rep_def)
  show "pq_rep runu runi mk q' xs \<and> e \<noteq> Undefined" if "pq_push runu mk v q = (q', Inl e)"
    using that rep by (cases rule: pq_push_cases [OF rep, where v = v]) auto
  show "\<exists>ys. xs = v # ys \<and> pq_rep runu runi mk q' ys" if "pq_pop runi q = (q', Inr v)"
    using that rep by (cases rule: pq_pop_cases [OF rep]) (auto simp: pq_rep_def)
  show "pq_rep runu runi mk q' xs \<and> e \<noteq> Undefined \<and> (e = no_elements \<longrightarrow> xs = [])"
    if "pq_pop runi q = (q', Inl e)"
    using that rep by (cases rule: pq_pop_cases [OF rep]) (auto simp: no_elements_def)
qed

lemma pq_show_rep: "queue_rep q xs \<Longrightarrow> pq_show q = Some (Inr (map ShowLine xs @ [EndLine]))"
  by (auto simp: queue_rep_def queue_at_def pq_show_def show_loop_chain)

text \<open>The outcome of the command loop, from any well-formed queue and any input.\<close>

definition session_ok :: "(queue \<times> term_out list \<times> ended) option \<Rightarrow> bool" where
  "session_ok r \<longleftrightarrow> (\<exists>q' out' e xs'.
     r = Some (q', out', e) \<and> queue_rep q' xs' \<and>
     (e = Exited 0 \<or> e \<in> Uncaught ` {no_elements, BadAlloc, TxError}))"

lemma session_okI:
  "queue_rep q xs \<Longrightarrow> e = Exited 0 \<or> e \<in> Uncaught ` {no_elements, BadAlloc, TxError} \<Longrightarrow>
     session_ok (Some (q, out, e))"
  by (auto simp: session_ok_def)

lemma queue_loop_ok: "pq_rep runu runi mk q xs \<Longrightarrow> session_ok (queue_loop runu runi mk q cin out)"
proof (induction runu runi mk q cin out arbitrary: xs rule: queue_loop.induct)
  case (1 runu runi mk q cin out)
  note rep = 1(4)
  then have q: "queue_rep q xs" by (simp add: pq_rep_def)
  let ?w = "fst (read_word cin)" and ?i = "snd (read_word cin)" and ?out = "out @ [Prompt]"
  note unfold = queue_loop.simps [of runu runi mk q cin out] Let_def
  show ?case
  proof (cases "parse_queue_ops ?w")
    case PUSH
    from rep show ?thesis
    proof (cases rule: pq_push_cases [where v = "fst (read_int ?i)"])
      case (ok q')
      then have "pq_rep runu runi mk q' (xs @ [fst (read_int ?i)])"
        using rep by (simp add: pq_rep_def)
      from 1(1) [OF refl refl refl PUSH ok(1) [symmetric] refl this] PUSH ok show ?thesis
        by (simp add: unfold)
    next
      case (fail e)
      with PUSH q show ?thesis by (auto simp: unfold intro: session_okI)
    qed
  next
    case POP
    from rep show ?thesis
    proof (cases rule: pq_pop_cases)
      case (ok x ys q')
      then have "pq_rep runu runi mk q' ys" using rep by (simp add: pq_rep_def)
      with 1(2) [OF refl refl refl _ POP ok(2) [symmetric] refl this] POP ok show ?thesis
        by (simp add: unfold)
    qed (use POP q in \<open>auto simp: unfold intro: session_okI\<close>)
  next
    case SHOW
    from 1(3) [OF refl refl refl _ _ SHOW pq_show_rep [OF q] refl rep] SHOW show ?thesis
      by (simp add: unfold pq_show_rep [OF q])
  qed (use q in \<open>auto simp: unfold intro: session_okI\<close>)
qed

section \<open>Properties\<close>

text \<open>
  C8. The persistent queue is a FIFO queue under failure-atomic transactions: whatever sequence
  of pushes and pops is run, with transactions and allocations that may fail at any call, the
  observable trace is a legal FIFO trace, no pointer is dereferenced outside the pool, and the
  pool holds exactly the nodes of the elements left.
\<close>

theorem persistent_queue_fifo:
  assumes "tx_atomic runu" and "tx_atomic runi" and "fresh_alloc mk"
    and "fifo_run (pq_push runu mk) (pq_pop runi) ops queue_new = (q, tr)"
  shows "fifo_legal [] tr \<and> queue_rep q (fifo_after [] tr)"
proof -
  have "pq_rep runu runi mk queue_new []" using assms(1-3) queue_rep_new by (simp add: pq_rep_def)
  from pq.run_legal [OF this assms(4)] show ?thesis by (simp add: pq_rep_def)
qed

theorem persistent_queue_fifo_witness:
  "fifo_legal [] (snd (fifo_run (pq_push tx_plain first_free) (pq_pop tx_plain)
     [Push 7, Pop, Pop] queue_new)) \<and>
   snd (fifo_run (pq_push tx_plain first_free) (pq_pop tx_plain) [Push 7, Pop, Pop] queue_new) =
     [Pushed 7, Popped 7, WasEmpty]"
proof
  show "fifo_legal [] (snd (fifo_run (pq_push tx_plain first_free) (pq_pop tx_plain)
     [Push 7, Pop, Pop] queue_new))"
    using persistent_queue_fifo [OF tx_plain_atomic tx_plain_atomic first_free_fresh]
    by (metis prod.collapse)
  show "snd (fifo_run (pq_push tx_plain first_free) (pq_pop tx_plain) [Push 7, Pop, Pop] queue_new) =
     [Pushed 7, Popped 7, WasEmpty]"
    by (simp add: pq_push_def pq_pop_def pq_push_tx_def pq_pop_tx_def tx_plain_def queue_new_def
        first_free_def upt_rec Let_def no_elements_def)
qed

text \<open>
  Where transactions commit and the pool has room, the operations succeed: a push appends
  and a pop on a non-empty queue removes and returns the front.
\<close>

theorem persistent_queue_total:
  assumes "tx_commits runu" and "tx_commits runi" and "fresh_alloc mk" and "queue_rep q xs"
    and "mk (heap q) \<noteq> None"
  shows "\<exists>q'. pq_push runu mk v q = (q', Inr ()) \<and> queue_rep q' (xs @ [v]) \<and>
    (\<exists>q''. pq_pop runi q' = (q'', Inr (hd (xs @ [v]))) \<and> queue_rep q'' (tl (xs @ [v])))"
proof -
  from assms(5) obtain a where a: "mk (heap q) = Some a" by blast
  with assms(3) have "a \<notin> dom (heap q)" by (auto simp: fresh_alloc_def)
  from vq_push_ok [of q xs mk, OF assms(4) a this, of v] obtain q' where
    q': "vq_push mk v q = (q', Inr ())" "queue_rep q' (xs @ [v])" by blast
  then have push: "pq_push runu mk v q = (q', Inr ())"
    using assms pq_push_tx_eq [OF assms(4,3)] by (simp add: pq_push_def tx_commits_run)
  obtain y ys where ys: "xs @ [v] = y # ys" by (cases xs) auto
  with q' vq_pop_nonempty [of q' y ys] obtain q'' where
    "vq_pop q' = (q'', Inr y)" "queue_rep q'' ys" by auto
  with ys assms(2) have "pq_pop runi q' = (q'', Inr (hd (xs @ [v])))" "queue_rep q'' (tl (xs @ [v]))"
    by (auto simp: pq_pop_def pq_pop_tx_eq tx_commits_run)
  with push q' show ?thesis by blast
qed

theorem persistent_queue_total_witness:
  "\<exists>q'. pq_push tx_plain first_free 5 queue_new = (q', Inr ()) \<and> queue_rep q' [5] \<and>
    (\<exists>q''. pq_pop tx_plain q' = (q'', Inr 5) \<and> queue_rep q'' [])"
proof -
  have "first_free (heap queue_new) \<noteq> None" by (simp add: first_free_def queue_new_def upt_rec)
  from persistent_queue_total
    [OF tx_plain_commits tx_plain_commits first_free_fresh queue_rep_new this, of 5]
  show ?thesis by simp
qed



end
