(* ===== verification/Simple_KV.thy ===== *)
theory Simple_KV
  imports Console
begin

text \<open>
  The key-value interface of the two hash maps of chapter 11, and model of
  \<open>ppm_ch11_4_simplekv\<close>: an array of buckets of (key, index) pairs and a vector of values, all in
  persistent memory and updated in transactions. \<open>std::hash\<close> and the transaction runner are
  arguments; the number of buckets \<open>N\<close> is the length of the bucket array.
\<close>

section \<open>Interface\<close>

definition no_entry :: exn where
  "no_entry = OutOfRange ''no entry in simplekv''"

text \<open>A run of \<open>put\<close>s, each with its outcome, and what it does to an abstract map.\<close>

fun kv_run :: "(string \<Rightarrow> 'v \<Rightarrow> 's \<Rightarrow> 's \<times> unit res) \<Rightarrow> (string \<times> 'v) list \<Rightarrow> 's \<Rightarrow>
  's \<times> (string \<times> 'v \<times> unit res) list" where
  "kv_run put [] s = (s, [])"
| "kv_run put ((k, v) # ops) s =
     (case put k v s of (s', r) \<Rightarrow>
      case kv_run put ops s' of (s'', log) \<Rightarrow> (s'', (k, v, r) # log))"

fun kv_effect :: "(string \<rightharpoonup> 'v) \<Rightarrow> (string \<times> 'v \<times> unit res) list \<Rightarrow> (string \<rightharpoonup> 'v)" where
  "kv_effect m [] = m"
| "kv_effect m ((k, v, Inr _) # log) = kv_effect (m(k \<mapsto> v)) log"
| "kv_effect m ((k, v, Inl _) # log) = kv_effect m log"

fun kv_lookup :: "(string \<rightharpoonup> 'v) \<Rightarrow> string \<Rightarrow> 'v res" where
  "kv_lookup m k = (case m k of Some v \<Rightarrow> Inr v | None \<Rightarrow> Inl no_entry)"

locale kv_store =
  fixes get :: "string \<Rightarrow> 's \<Rightarrow> 'v res" and put :: "string \<Rightarrow> 'v \<Rightarrow> 's \<Rightarrow> 's \<times> unit res"
    and abs :: "'s \<Rightarrow> string \<rightharpoonup> 'v" and inv :: "'s \<Rightarrow> bool"
  assumes get_abs: "inv s \<Longrightarrow> get k s = kv_lookup (abs s) k"
    and put_ok: "inv s \<Longrightarrow> put k v s = (s', Inr u) \<Longrightarrow> inv s' \<and> abs s' = (abs s)(k \<mapsto> v)"
    and put_err: "inv s \<Longrightarrow> put k v s = (s', Inl e) \<Longrightarrow> s' = s \<and> e \<noteq> Undefined"
begin

lemma run_effect:
  "inv s \<Longrightarrow> kv_run put ops s = (s', log) \<Longrightarrow>
     inv s' \<and> abs s' = kv_effect (abs s) log \<and> (\<forall>(k, v, r) \<in> set log. r \<noteq> Inl Undefined)"
proof (induction ops arbitrary: s log)
  case (Cons op ops)
  obtain k v where op: "op = (k, v)" by fastforce
  obtain s1 r where step: "put k v s = (s1, r)" by fastforce
  obtain log' where rest: "kv_run put ops s1 = (s', log')" and log: "log = (k, v, r) # log'"
    using Cons.prems(2) op step by (auto split: prod.splits)
  show ?case
  proof (cases r)
    case (Inl e)
    with step Cons.prems put_err have "s1 = s" "e \<noteq> Undefined" by blast+
    with Cons.IH [OF _ rest] Cons.prems Inl log show ?thesis by auto
  next
    case (Inr u)
    with step Cons.prems put_ok have inv: "inv s1" and upd: "abs s1 = (abs s)(k \<mapsto> v)" by blast+
    have "kv_effect (abs s) log = kv_effect (abs s1) log'" using Inr log upd by simp
    with Cons.IH [OF inv rest] Inr log show ?thesis by simp
  qed
qed simp

lemma run_get:
  "inv s \<Longrightarrow> kv_run put ops s = (s', log) \<Longrightarrow> get k s' = kv_lookup (kv_effect (abs s) log) k"
  using run_effect get_abs by metis

end

section \<open>Definitions\<close>

record 'v simple_kv =
  buckets :: "(string \<times> nat) list list"
  kv_values :: "'v list"

definition simple_kv_new :: "nat \<Rightarrow> 'v simple_kv" where
  "simple_kv_new N = \<lparr>buckets = replicate N [], kv_values = []\<rparr>"

text \<open>The loop over a bucket: the index stored with the first entry whose key is \<open>key\<close>.\<close>

fun find_entry :: "(string \<times> nat) list \<Rightarrow> string \<Rightarrow> nat option" where
  "find_entry [] key = None"
| "find_entry (e # es) key = (if fst e = key then Some (snd e) else find_entry es key)"

definition simple_kv_get :: "(string \<Rightarrow> nat) \<Rightarrow> string \<Rightarrow> 'v simple_kv \<Rightarrow> 'v res" where
  "simple_kv_get hash key kv =
     (let index = hash key mod length (buckets kv) in
      if index \<ge> length (buckets kv) then Inl Undefined
      else case find_entry (buckets kv ! index) key of
        Some i \<Rightarrow> if i < length (kv_values kv) then Inr (kv_values kv ! i) else Inl Undefined
      | None \<Rightarrow> Inl (OutOfRange ''no entry in simplekv''))"

definition simple_kv_put ::
  "('v simple_kv, unit) tx_run \<Rightarrow> (string \<Rightarrow> nat) \<Rightarrow> string \<Rightarrow> 'v \<Rightarrow> 'v simple_kv \<Rightarrow> 'v simple_kv \<times> unit res"
where
  "simple_kv_put run hash key val kv =
     (let index = hash key mod length (buckets kv) in
      if index \<ge> length (buckets kv) then (kv, Inl Undefined)
      else case find_entry (buckets kv ! index) key of
        Some i \<Rightarrow>
          run (\<lambda>kv. if i < length (kv_values kv)
                    then (kv\<lparr>kv_values := (kv_values kv)[i := val]\<rparr>, Inr ()) else (kv, Inl Undefined)) kv
      | None \<Rightarrow>
          run (\<lambda>kv.
            let kv1 = kv\<lparr>kv_values := kv_values kv @ [val]\<rparr> in
            (kv1\<lparr>buckets := (buckets kv1)
               [index := buckets kv1 ! index @ [(key, length (kv_values kv1) - 1)]]\<rparr>, Inr ())) kv)"

text \<open>
  The program: \<open>kv_type = simple_kv<int, 10>\<close> under the pool's root. \<open>pool_open\<close> yields the root
  (\<open>None\<close> while no map has been created) or throws, \<open>pool_close\<close> says what closing an opened
  (\<open>True\<close>) or never opened pool throws; \<open>runr\<close> runs the transaction that creates the map.
\<close>

datatype kv_out = KvValue int | KvUsage | KvError exn

definition simplekv_ops ::
  "(int simple_kv, unit) tx_run \<Rightarrow> (string \<Rightarrow> nat) \<Rightarrow> string list \<Rightarrow> int simple_kv \<Rightarrow>
   int simple_kv \<times> kv_out list \<times> int"
where
  "simplekv_ops run hash argv kv =
     (if argv ! 2 = ''get'' \<and> length argv = 4 then
        (case simple_kv_get hash (argv ! 3) kv of
           Inl e \<Rightarrow> (kv, [KvError e], 0) | Inr v \<Rightarrow> (kv, [KvValue v], 0))
      else if argv ! 2 = ''put'' \<and> length argv = 5 then
        (case stoi (argv ! 4) of
           Inl e \<Rightarrow> (kv, [KvError e], 0)
         | Inr v \<Rightarrow>
             (case simple_kv_put run hash (argv ! 3) v kv of
                (kv', Inl e) \<Rightarrow> (kv', [KvError e], 0) | (kv', Inr _) \<Rightarrow> (kv', [], 0)))
      else (kv, [KvUsage], 1))"

definition simplekv_main ::
  "(int simple_kv option, unit) tx_run \<Rightarrow> (int simple_kv, unit) tx_run \<Rightarrow> (string \<Rightarrow> nat) \<Rightarrow>
   (bool \<Rightarrow> exn option) \<Rightarrow> int simple_kv option res \<Rightarrow> string list \<Rightarrow>
   int simple_kv option \<times> kv_out list \<times> ended"
where
  "simplekv_main runr run hash pool_close pool_open argv =
     (if length argv < 3 then (None, [KvUsage], Exited 1)
      else case pool_open of
        Inl e \<Rightarrow>
          (None, [KvError e], case pool_close False of None \<Rightarrow> Exited 0 | Some x \<Rightarrow> Uncaught x)
      | Inr r \<Rightarrow>
          let close = (\<lambda>st. case pool_close True of None \<Rightarrow> Exited st | Some x \<Rightarrow> Uncaught x) in
          (case (if r = None then runr (\<lambda>_. (Some (simple_kv_new 10), Inr ())) r else (r, Inr ())) of
             (r1, Inl e) \<Rightarrow> (r1, [KvError e], close 0)
           | (None, Inr _) \<Rightarrow> (None, [], Uncaught Undefined)
           | (Some kv, Inr _) \<Rightarrow>
               (case simplekv_ops run hash argv kv of (kv', out, st) \<Rightarrow> (Some kv', out, close st))))"

section \<open>Invariant and abstraction\<close>

text \<open>Every stored index is valid, and no two entries share one.\<close>

definition kv_inv :: "'v simple_kv \<Rightarrow> bool" where
  "kv_inv kv \<longleftrightarrow> buckets kv \<noteq> [] \<and>
     (\<forall>b \<in> set (buckets kv). \<forall>e \<in> set b. snd e < length (kv_values kv)) \<and>
     inj_on snd (\<Union>(set ` set (buckets kv)))"

definition entry_of :: "(string \<Rightarrow> nat) \<Rightarrow> 'v simple_kv \<Rightarrow> string \<Rightarrow> nat option" where
  "entry_of hash kv key = find_entry (buckets kv ! (hash key mod length (buckets kv))) key"

definition kv_map :: "(string \<Rightarrow> nat) \<Rightarrow> 'v simple_kv \<Rightarrow> string \<rightharpoonup> 'v" where
  "kv_map hash kv key = map_option (\<lambda>i. kv_values kv ! i) (entry_of hash kv key)"

lemma find_entry_in: "find_entry b key = Some i \<Longrightarrow> (key, i) \<in> set b"
  by (induction b) (auto split: if_splits)

lemma find_entry_snoc:
  "find_entry (b @ [(k, i)]) key =
     (case find_entry b key of Some j \<Rightarrow> Some j | None \<Rightarrow> if k = key then Some i else None)"
  by (induction b) auto

lemma index_less: "kv_inv kv \<Longrightarrow> n mod length (buckets kv) < length (buckets kv)"
  by (simp add: kv_inv_def)

lemma entry_in:
  assumes "kv_inv kv" and "entry_of hash kv key = Some i"
  shows "(key, i) \<in> \<Union>(set ` set (buckets kv))"
  using find_entry_in [OF assms(2) [unfolded entry_of_def]] nth_mem [OF index_less [OF assms(1)]]
  by blast

lemma entry_valid: "kv_inv kv \<Longrightarrow> entry_of hash kv key = Some i \<Longrightarrow> i < length (kv_values kv)"
  using entry_in [of kv hash key i] by (fastforce simp: kv_inv_def)

lemma entry_inj:
  assumes "kv_inv kv" and "entry_of hash kv k = Some i" and "entry_of hash kv k' = Some i"
  shows "k = k'"
proof -
  have "inj_on snd (\<Union>(set ` set (buckets kv)))" using assms(1) by (simp add: kv_inv_def)
  from inj_onD [OF this _ entry_in [OF assms(1,2)] entry_in [OF assms(1,3)]] show ?thesis by simp
qed

lemma kv_inv_new: "0 < N \<Longrightarrow> kv_inv (simple_kv_new N)"
  by (auto simp: kv_inv_def simple_kv_new_def)

lemma kv_map_new: "0 < N \<Longrightarrow> kv_map hash (simple_kv_new N) = Map.empty"
  by (auto simp: simple_kv_new_def kv_map_def entry_of_def fun_eq_iff)

lemma get_map: "kv_inv kv \<Longrightarrow> simple_kv_get hash key kv = kv_lookup (kv_map hash kv) key"
  using index_less [of kv "hash key"] entry_valid [of kv hash key]
  by (auto simp: simple_kv_get_def kv_map_def no_entry_def Let_def entry_of_def split: option.splits)

text \<open>The two transactions of \<open>put\<close>.\<close>

lemma update_inv: "kv_inv kv \<Longrightarrow> kv_inv (kv\<lparr>kv_values := (kv_values kv)[i := val]\<rparr>)"
  by (simp add: kv_inv_def)

lemma update_map:
  assumes inv: "kv_inv kv" and at: "entry_of hash kv key = Some i"
  shows "kv_map hash (kv\<lparr>kv_values := (kv_values kv)[i := val]\<rparr>) = (kv_map hash kv)(key \<mapsto> val)"
proof
  fix k
  have same: "entry_of hash (kv\<lparr>kv_values := (kv_values kv)[i := val]\<rparr>) k = entry_of hash kv k"
    by (simp add: entry_of_def)
  show "kv_map hash (kv\<lparr>kv_values := (kv_values kv)[i := val]\<rparr>) k = ((kv_map hash kv)(key \<mapsto> val)) k"
  proof (cases "k = key")
    case True
    then show ?thesis using same at entry_valid [OF inv at] by (simp add: kv_map_def)
  next
    case False
    then have "entry_of hash kv k \<noteq> Some i" using entry_inj [OF inv at] by blast
    with False same show ?thesis
      by (cases "entry_of hash kv k") (auto simp: kv_map_def)
  qed
qed

definition appended :: "(string \<Rightarrow> nat) \<Rightarrow> string \<Rightarrow> 'v \<Rightarrow> 'v simple_kv \<Rightarrow> 'v simple_kv" where
  "appended hash key val kv =
     (let index = hash key mod length (buckets kv) in
      kv\<lparr>kv_values := kv_values kv @ [val],
         buckets := (buckets kv)[index := buckets kv ! index @ [(key, length (kv_values kv))]]\<rparr>)"

lemma appended_entries:
  assumes "kv_inv kv"
  shows "\<Union>(set ` set (buckets (appended hash key val kv))) \<subseteq>
    insert (key, length (kv_values kv)) (\<Union>(set ` set (buckets kv)))"
proof -
  let ?b = "buckets kv ! (hash key mod length (buckets kv))"
  have "set (buckets (appended hash key val kv)) \<subseteq>
      insert (?b @ [(key, length (kv_values kv))]) (set (buckets kv))"
    by (simp add: appended_def Let_def set_update_subset_insert)
  moreover have "?b \<in> set (buckets kv)" using nth_mem [OF index_less [OF assms]] .
  ultimately show ?thesis by fastforce
qed

lemma append_inv: "kv_inv kv \<Longrightarrow> kv_inv (appended hash key val kv)"
proof -
  assume inv: "kv_inv kv"
  let ?E = "\<Union>(set ` set (buckets kv))" and ?n = "length (kv_values kv)"
  note sub = appended_entries [OF inv, of hash key val]
  have old: "\<forall>e \<in> ?E. snd e < ?n" using inv by (auto simp: kv_inv_def)
  then have "?n \<notin> snd ` ?E" by fastforce
  then have "inj_on snd (insert (key, ?n) ?E)"
    using inv by (simp add: kv_inv_def) blast
  then have "inj_on snd (\<Union>(set ` set (buckets (appended hash key val kv))))"
    using sub by (rule inj_on_subset)
  moreover have "\<forall>b \<in> set (buckets (appended hash key val kv)). \<forall>e \<in> set b. snd e < ?n + 1"
  proof (intro ballI)
    fix b e assume "b \<in> set (buckets (appended hash key val kv))" "e \<in> set b"
    with sub have "e = (key, ?n) \<or> e \<in> ?E" by blast
    with old show "snd e < ?n + 1" by fastforce
  qed
  moreover have "length (kv_values (appended hash key val kv)) = ?n + 1"
    and "buckets (appended hash key val kv) \<noteq> []"
    using inv by (simp_all add: appended_def Let_def kv_inv_def)
  ultimately show ?thesis by (simp add: kv_inv_def)
qed

lemma append_entry:
  assumes inv: "kv_inv kv" and none: "entry_of hash kv key = None"
  shows "entry_of hash (appended hash key val kv) k =
    (if k = key then Some (length (kv_values kv)) else entry_of hash kv k)"
proof (cases "hash k mod length (buckets kv) = hash key mod length (buckets kv)")
  case True
  let ?b = "buckets kv ! (hash key mod length (buckets kv))"
  have "entry_of hash (appended hash key val kv) k = find_entry (?b @ [(key, length (kv_values kv))]) k"
    using index_less [OF inv, of "hash key"] by (simp add: entry_of_def appended_def Let_def True)
  moreover have "find_entry ?b k = entry_of hash kv k" by (simp add: entry_of_def True)
  ultimately show ?thesis
    using none by (cases "k = key") (auto simp: find_entry_snoc split: option.split)
next
  case False
  then have "k \<noteq> key" by blast
  moreover have "(buckets kv)[hash key mod length (buckets kv) := b] ! (hash k mod length (buckets kv)) =
      buckets kv ! (hash k mod length (buckets kv))" for b
    using False by (metis nth_list_update_neq)
  ultimately show ?thesis by (simp add: entry_of_def appended_def Let_def)
qed

lemma append_map:
  assumes inv: "kv_inv kv" and none: "entry_of hash kv key = None"
  shows "kv_map hash (appended hash key val kv) = (kv_map hash kv)(key \<mapsto> val)"
proof
  fix k
  have "kv_values (appended hash key val kv) = kv_values kv @ [val]"
    by (simp add: appended_def Let_def)
  then show "kv_map hash (appended hash key val kv) k = ((kv_map hash kv)(key \<mapsto> val)) k"
    using entry_valid [OF inv, of hash k]
    by (cases "entry_of hash kv k") (auto simp: kv_map_def append_entry [OF inv none] nth_append)
qed

lemma put_body_append:
  "kv_inv kv \<Longrightarrow>
   (let kv1 = kv\<lparr>kv_values := kv_values kv @ [val]\<rparr> in
      (kv1\<lparr>buckets := (buckets kv1)[hash key mod length (buckets kv) :=
         buckets kv1 ! (hash key mod length (buckets kv)) @ [(key, length (kv_values kv1) - 1)]]\<rparr>, Inr ())) =
   (appended hash key val kv, Inr ())"
  by (simp add: appended_def Let_def)

definition kv_ok :: "('v simple_kv, unit) tx_run \<Rightarrow> 'v simple_kv \<Rightarrow> bool" where
  "kv_ok run kv \<longleftrightarrow> tx_atomic run \<and> kv_inv kv"

lemma put_cases:
  assumes "kv_ok run kv"
  obtains (ok) kv' where "simple_kv_put run hash key val kv = (kv', Inr ())" "kv_inv kv'"
      "kv_map hash kv' = (kv_map hash kv)(key \<mapsto> val)"
    | (fail) "simple_kv_put run hash key val kv = (kv, Inl TxError)"
proof -
  from assms have at: "tx_atomic run" and inv: "kv_inv kv" by (simp_all add: kv_ok_def)
  note lt = index_less [OF inv, of "hash key"]
  show thesis
  proof (cases "entry_of hash kv key")
    case (Some i)
    let ?body = "\<lambda>kv. if i < length (kv_values kv)
       then (kv\<lparr>kv_values := (kv_values kv)[i := val]\<rparr>, Inr ()) else (kv, Inl Undefined)"
    have put: "simple_kv_put run hash key val kv = run ?body kv"
      using lt Some by (simp add: simple_kv_put_def Let_def entry_of_def)
    have body: "?body kv = (kv\<lparr>kv_values := (kv_values kv)[i := val]\<rparr>, Inr ())"
      using entry_valid [OF inv Some] by simp
    from at show thesis
      by (cases rule: tx_atomic_cases [where body = ?body and s = kv])
         (use put body ok fail update_inv [OF inv] update_map [OF inv Some] in auto)
  next
    case None
    let ?body = "\<lambda>kv'. let kv1 = kv'\<lparr>kv_values := kv_values kv' @ [val]\<rparr> in
      (kv1\<lparr>buckets := (buckets kv1)[hash key mod length (buckets kv) :=
         buckets kv1 ! (hash key mod length (buckets kv)) @ [(key, length (kv_values kv1) - 1)]]\<rparr>, Inr ())"
    have put: "simple_kv_put run hash key val kv = run ?body kv"
      using lt None by (simp add: simple_kv_put_def Let_def entry_of_def)
    note body = put_body_append [OF inv, where hash = hash and key = key and val = val]
    from at show thesis
      by (cases rule: tx_atomic_cases [where body = ?body and s = kv])
         (use put body ok fail append_inv [OF inv] append_map [OF inv None] in auto)
  qed
qed

lemma put_commits:
  assumes ok: "kv_ok run kv" and com: "tx_commits run"
  obtains kv' where "simple_kv_put run hash key val kv = (kv', Inr ())" "kv_inv kv'"
    "kv_map hash kv' = (kv_map hash kv)(key \<mapsto> val)"
  using ok
proof (cases rule: put_cases [where hash = hash and key = key and val = val])
  case fail
  have inv: "kv_inv kv" using ok by (simp add: kv_ok_def)
  have "snd (simple_kv_put run hash key val kv) = Inr ()"
    using com index_less [OF inv, of "hash key"] entry_valid [OF inv, of hash key]
    by (auto simp: simple_kv_put_def Let_def entry_of_def tx_commits_def split: option.split)
  with fail show thesis by simp
qed (rule that)

interpretation skv: kv_store "simple_kv_get hash" "simple_kv_put run hash" "kv_map hash" "kv_ok run"
  for hash run
proof unfold_locales
  fix kv kv' :: "'a simple_kv" and key v u e
  assume ok: "kv_ok run kv"
  show "simple_kv_get hash key kv = kv_lookup (kv_map hash kv) key"
    by (rule get_map) (use ok in \<open>simp add: kv_ok_def\<close>)
  show "kv_ok run kv' \<and> kv_map hash kv' = (kv_map hash kv)(key \<mapsto> v)"
    if "simple_kv_put run hash key v kv = (kv', Inr u)"
    using ok that by (cases rule: put_cases [where hash = hash and key = key and val = v])
      (use ok in \<open>auto simp: kv_ok_def\<close>)
  show "kv' = kv \<and> e \<noteq> Undefined" if "simple_kv_put run hash key v kv = (kv', Inl e)"
    using ok that by (cases rule: put_cases [where hash = hash and key = key and val = v]) auto
qed

section \<open>Properties\<close>

text \<open>
  C7. The hash map refines a finite map, whatever the hash function and the number of buckets
  (at least one): after any run of \<open>put\<close>s on a new map, each of which may fail, \<open>get\<close> returns
  the value of the last successful \<open>put\<close> of the key and throws \<open>out_of_range\<close> for a key never
  put; no index ever leaves the vectors, and a failed \<open>put\<close> changes nothing.
\<close>

theorem simple_kv_refines_map:
  assumes "tx_atomic run" and "0 < N"
    and "kv_run (simple_kv_put run hash) ops (simple_kv_new N) = (kv, log)"
  shows "simple_kv_get hash key kv = kv_lookup (kv_effect Map.empty log) key \<and>
    (\<forall>(k, v, r) \<in> set log. r \<noteq> Inl Undefined)"
proof -
  have ok: "kv_ok run (simple_kv_new N)"
    using assms(1,2) by (simp add: kv_ok_def kv_inv_new)
  from skv.run_get [OF ok assms(3), of key] skv.run_effect [OF ok assms(3)] show ?thesis
    by (simp add: kv_map_new [OF assms(2)])
qed

theorem simple_kv_refines_map_witness:
  "simple_kv_get length ''b'' (fst (kv_run (simple_kv_put tx_plain length)
     [(''a'', 1), (''b'', 2), (''a'', 3 :: int)] (simple_kv_new 10))) = Inr 2"
proof -
  let ?ops = "[(''a'', 1), (''b'', 2), (''a'', 3 :: int)]"
  let ?r = "kv_run (simple_kv_put tx_plain length) ?ops (simple_kv_new 10)"
  have "?r = (fst ?r, snd ?r)" by simp
  from simple_kv_refines_map [OF tx_plain_atomic _ this, of "''b''"]
  have get: "simple_kv_get length ''b'' (fst ?r) = kv_lookup (kv_effect Map.empty (snd ?r)) ''b''" by simp
  have "snd ?r = [(''a'', 1, Inr ()), (''b'', 2, Inr ()), (''a'', 3, Inr ())]"
    by (simp add: simple_kv_put_def simple_kv_new_def tx_plain_def Let_def numeral_2_eq_2)
  with get show ?thesis by simp
qed

text \<open>
  Across runs of the program: if transactions commit, running it with \<open>put key n\<close> on a
  pool and then with \<open>get key\<close> on the pool it leaves prints the number, and both runs exit with
  status 0; this holds for a fresh pool as well as for one that already holds a well-formed map.
\<close>

theorem simplekv_put_then_get:
  assumes "tx_atomic run" and "tx_commits run" and "tx_commits runr" and "pool_close True = None"
    and "r = None \<or> (\<exists>kv. r = Some kv \<and> kv_inv kv)"
    and "stoi n = Inr v"
  shows "\<exists>r'. simplekv_main runr run hash pool_close (Inr r) [prog, path, ''put'', key, n] = (r', [], Exited 0) \<and>
    simplekv_main runr run hash pool_close (Inr r') [prog, path, ''get'', key] = (r', [KvValue v], Exited 0)"
proof -
  define kv where "kv = (case r of None \<Rightarrow> simple_kv_new 10 | Some kv \<Rightarrow> kv)"
  have kv: "kv_inv kv" using assms(5) by (auto simp: kv_def kv_inv_new)
  have start: "(if r = None then runr (\<lambda>_. (Some (simple_kv_new 10), Inr ())) r else (r, Inr ())) =
      (Some kv, Inr ())"
    using assms(3) by (cases r) (auto simp: kv_def tx_commits_def)
  have ok: "kv_ok run kv" using kv assms(1) by (simp add: kv_ok_def)
  obtain kv' where put: "simple_kv_put run hash key v kv = (kv', Inr ())"
    and inv': "kv_inv kv'" and map': "kv_map hash kv' = (kv_map hash kv)(key \<mapsto> v)"
    using put_commits [OF ok assms(2)] .
  have "simple_kv_get hash key kv' = Inr v" using get_map [OF inv', of hash key] map' by simp
  then show ?thesis
    using put start assms(4,6) by (auto simp: simplekv_main_def simplekv_ops_def Let_def)
qed

theorem simplekv_put_then_get_witness:
  "\<exists>r'. simplekv_main tx_plain tx_plain length (\<lambda>_. None) (Inr None) [''p'', ''f'', ''put'', ''k'', ''42''] = (r', [], Exited 0) \<and>
    simplekv_main tx_plain tx_plain length (\<lambda>_. None) (Inr r') [''p'', ''f'', ''get'', ''k''] = (r', [KvValue 42], Exited 0)"
proof -
  have "stoi ''42'' = Inr 42"
    by (simp add: stoi_def split_int_def is_space_def is_dec_digit_def dec_val_def int_max_def int_min_def)
  from simplekv_put_then_get [OF tx_plain_atomic tx_plain_commits tx_plain_commits _ _ this,
      of "\<lambda>_. None" None length "''p''" "''f''" "''k''"]
  show ?thesis by simp
qed

end
