(* ===== verification/Simple_KV_Rebuild.thy ===== *)
theory Simple_KV_Rebuild
  imports Simple_KV
begin

text \<open>
  Model of \<open>ppm_ch11_5_simplekv_rebuild\<close>: keys and values in two persistent vectors, the buckets
  in volatile memory and rebuilt when the program starts. The runtime object and the data it
  points to form one state; its transactions run on the data alone. Allocation of the volatile
  vectors is taken to succeed.
\<close>

section \<open>Definitions\<close>

record 'v kv_persistent =
  pvalues :: "'v list"
  pkeys :: "string list"

record 'v kv_runtime =
  rbuckets :: "(string \<times> nat) list list"
  kv_data :: "'v kv_persistent"

definition kv_persistent_new :: "'v kv_persistent" where
  "kv_persistent_new = \<lparr>pvalues = [], pkeys = []\<rparr>"

text \<open>The constructor's loop: \<open>i\<close> runs from 0 over the values, the key is read at the same index.\<close>

definition bucket_add :: "(string \<Rightarrow> nat) \<Rightarrow> string \<Rightarrow> nat \<Rightarrow> (string \<times> nat) list list \<Rightarrow> (string \<times> nat) list list" where
  "bucket_add hash key i bs =
     (let index = hash key mod length bs in bs[index := bs ! index @ [(key, i)]])"

function rebuild_loop ::
  "(string \<Rightarrow> nat) \<Rightarrow> 'v kv_persistent \<Rightarrow> nat \<Rightarrow> (string \<times> nat) list list \<Rightarrow> (string \<times> nat) list list res"
where
  "rebuild_loop hash d i bs =
     (if i < length (pvalues d) then
        if i < length (pkeys d) then rebuild_loop hash d (i + 1) (bucket_add hash (pkeys d ! i) i bs)
        else Inl Undefined
      else Inr bs)"
  by pat_completeness auto
termination
  by (relation "measure (\<lambda>(hash, d, i, bs). length (pvalues d) - i)") auto

declare rebuild_loop.simps [simp del]

definition kv_runtime_new :: "(string \<Rightarrow> nat) \<Rightarrow> nat \<Rightarrow> 'v kv_persistent \<Rightarrow> 'v kv_runtime res" where
  "kv_runtime_new hash N d =
     (case rebuild_loop hash d 0 (replicate N []) of
        Inl e \<Rightarrow> Inl e
      | Inr bs \<Rightarrow> Inr \<lparr>rbuckets = bs, kv_data = d\<rparr>)"

definition kv_runtime_get :: "(string \<Rightarrow> nat) \<Rightarrow> string \<Rightarrow> 'v kv_runtime \<Rightarrow> 'v res" where
  "kv_runtime_get hash key rt =
     (let index = hash key mod length (rbuckets rt) in
      if index \<ge> length (rbuckets rt) then Inl Undefined
      else case find_entry (rbuckets rt ! index) key of
        Some i \<Rightarrow>
          if i < length (pvalues (kv_data rt)) then Inr (pvalues (kv_data rt) ! i) else Inl Undefined
      | None \<Rightarrow> Inl (OutOfRange ''no entry in simplekv''))"

definition kv_runtime_put ::
  "('v kv_persistent, unit) tx_run \<Rightarrow> (string \<Rightarrow> nat) \<Rightarrow> string \<Rightarrow> 'v \<Rightarrow> 'v kv_runtime \<Rightarrow> 'v kv_runtime \<times> unit res"
where
  "kv_runtime_put run hash key val rt =
     (let index = hash key mod length (rbuckets rt) in
      if index \<ge> length (rbuckets rt) then (rt, Inl Undefined)
      else case find_entry (rbuckets rt ! index) key of
        Some i \<Rightarrow>
          (case run (\<lambda>d. if i < length (pvalues d) then (d\<lparr>pvalues := (pvalues d)[i := val]\<rparr>, Inr ())
                         else (d, Inl Undefined)) (kv_data rt) of
             (d, r) \<Rightarrow> (rt\<lparr>kv_data := d\<rparr>, r))
      | None \<Rightarrow>
          (case run (\<lambda>d. (d\<lparr>pvalues := pvalues d @ [val], pkeys := pkeys d @ [key]\<rparr>, Inr ())) (kv_data rt) of
             (d, Inl e) \<Rightarrow> (rt\<lparr>kv_data := d\<rparr>, Inl e)
           | (d, Inr _) \<Rightarrow>
               (rt\<lparr>kv_data := d, rbuckets := (rbuckets rt)[index := rbuckets rt ! index @
                  [(key, length (pvalues d) - 1)]]\<rparr>, Inr ())))"

text \<open>The command loop over standard input.\<close>

datatype rb_out = RbValue int | RbUsage

function rebuild_cmds ::
  "(int kv_persistent, unit) tx_run \<Rightarrow> (string \<Rightarrow> nat) \<Rightarrow> int kv_runtime \<Rightarrow> istream \<Rightarrow> rb_out list \<Rightarrow>
   int kv_runtime \<times> rb_out list \<times> exn option"
where
  "rebuild_cmds run hash rt cin out =
     (let op = fst (read_word cin); c1 = snd (read_word cin);
          key = fst (read_word c1); c2 = snd (read_word c1);
          v = fst (read_int c2); c3 = snd (read_int c2) in
      if failed c1 then (rt, out, None)
      else if op = ''get'' \<and> \<not> failed c2 then
        (case kv_runtime_get hash key rt of
           Inl e \<Rightarrow> (rt, out, Some e)
         | Inr x \<Rightarrow> rebuild_cmds run hash rt c2 (out @ [RbValue x]))
      else if op = ''put'' \<and> \<not> failed c2 \<and> \<not> failed c3 then
        (case kv_runtime_put run hash key v rt of
           (rt', Inl e) \<Rightarrow> (rt', out, Some e)
         | (rt', Inr _) \<Rightarrow> rebuild_cmds run hash rt' c3 out)
      else if op = ''exit'' then (rt, out, None)
      else rebuild_cmds run hash rt
        (if op = ''get'' then c2 else if op = ''put'' then if failed c2 then c2 else c3 else c1)
        (out @ [RbUsage]))"
  by pat_completeness auto

lemma read_word_rest: "length (rest (snd (read_word i))) \<le> length (rest i)"
  by (auto simp: read_word_def Let_def intro: order_trans [OF length_dropWhile_le] length_dropWhile_le)

termination rebuild_cmds
proof (relation "measure (\<lambda>(run, hash, rt, i, out). length (rest i))", goal_cases)
  case (2 run hash rt cin out op c1 key c2 v c3 x)
  then show ?case
    using read_word_shrinks [of cin] read_word_rest [of c1] by simp
next
  case (3 run hash rt cin out op c1 key c2 v c3 rt' u)
  then show ?case
    using read_word_shrinks [of cin] read_word_rest [of c1] read_int_rest [of c2] by simp
next
  case (4 run hash rt cin out op c1 key c2 v c3)
  then show ?case
    using read_word_shrinks [of cin] read_word_rest [of c1] read_int_rest [of c2] by simp
qed simp

declare rebuild_cmds.simps [simp del]

text \<open>
  The program. \<open>pool_open\<close> yields the root (\<open>None\<close> while no data object has been created) or
  throws, \<open>pool_close\<close> says what closing an opened (\<open>True\<close>) or never opened pool throws; \<open>runr\<close>
  runs the transaction that creates the data object. The result is the root left in the pool,
  the output (the banner first), the exception caught, and how the program ended.
\<close>

definition rebuild_main ::
  "(int kv_persistent option, unit) tx_run \<Rightarrow> (int kv_persistent, unit) tx_run \<Rightarrow> (string \<Rightarrow> nat) \<Rightarrow>
   (bool \<Rightarrow> exn option) \<Rightarrow> int kv_persistent option res \<Rightarrow> string list \<Rightarrow> istream \<Rightarrow>
   int kv_persistent option \<times> rb_out list \<times> exn option \<times> ended"
where
  "rebuild_main runr run hash pool_close pool_open argv cin =
     (if length argv < 2 then (None, [RbUsage], None, Exited 1)
      else case pool_open of
        Inl e \<Rightarrow>
          (None, [], Some e, case pool_close False of None \<Rightarrow> Exited 0 | Some x \<Rightarrow> Uncaught x)
      | Inr r \<Rightarrow>
          let close = (case pool_close True of None \<Rightarrow> Exited 0 | Some x \<Rightarrow> Uncaught x) in
          (case (if r = None then runr (\<lambda>_. (Some kv_persistent_new, Inr ())) r else (r, Inr ())) of
             (r1, Inl e) \<Rightarrow> (r1, [], Some e, close)
           | (None, Inr _) \<Rightarrow> (None, [], None, Uncaught Undefined)
           | (Some d, Inr _) \<Rightarrow>
               (case kv_runtime_new hash 10 d of
                  Inl e \<Rightarrow> (Some d, [], None, Uncaught e)
                | Inr rt \<Rightarrow>
                    (case rebuild_cmds run hash rt cin [RbUsage] of
                       (rt', out, e) \<Rightarrow> (Some (kv_data rt'), out, e, close)))))"

section \<open>Rebuilding\<close>

text \<open>The loop of the constructor as a fold over the indices.\<close>

lemma rebuild_fold:
  "length (pkeys d) = length (pvalues d) \<Longrightarrow>
   rebuild_loop hash d i bs = Inr (fold (\<lambda>j. bucket_add hash (pkeys d ! j) j) [i..<length (pvalues d)] bs)"
proof (induction hash d i bs rule: rebuild_loop.induct)
  case (1 hash d i bs)
  then show ?case
    by (subst rebuild_loop.simps) (auto simp: upt_conv_Cons)
qed

definition rebuilt :: "(string \<Rightarrow> nat) \<Rightarrow> nat \<Rightarrow> string list \<Rightarrow> (string \<times> nat) list list" where
  "rebuilt hash N ks = fold (\<lambda>j. bucket_add hash (ks ! j) j) [0..<length ks] (replicate N [])"

lemma bucket_add_length [simp]: "length (bucket_add hash k i bs) = length bs"
  by (simp add: bucket_add_def Let_def)

lemma rebuilt_length [simp]: "length (rebuilt hash N ks) = N"
proof -
  have "length (fold (\<lambda>j. bucket_add hash (ks ! j) j) js bs) = length bs" for js bs
    by (induction js arbitrary: bs) auto
  then show ?thesis by (simp add: rebuilt_def)
qed

lemma rebuilt_snoc: "rebuilt hash N (ks @ [k]) = bucket_add hash k (length ks) (rebuilt hash N ks)"
proof -
  have "fold (\<lambda>j. bucket_add hash ((ks @ [k]) ! j) j) [0..<length ks] bs =
      fold (\<lambda>j. bucket_add hash (ks ! j) j) [0..<length ks] bs" for bs
    by (rule fold_cong) (auto simp: nth_append)
  then show ?thesis by (simp add: rebuilt_def)
qed

lemma kv_runtime_new_rebuilt:
  "length (pkeys d) = length (pvalues d) \<Longrightarrow>
   kv_runtime_new hash N d = Inr \<lparr>rbuckets = rebuilt hash N (pkeys d), kv_data = d\<rparr>"
  by (simp add: kv_runtime_new_def rebuild_fold rebuilt_def)

section \<open>Refinement of the persistent hash map\<close>

text \<open>
  The volatile buckets and the persistent values together are a \<open>simple_kv\<close>; \<open>put\<close> and \<open>get\<close>
  act on it as the operations of that class do, and the buckets always are what the constructor
  would rebuild from the keys.
\<close>

definition as_kv :: "'v kv_runtime \<Rightarrow> 'v simple_kv" where
  "as_kv rt = \<lparr>buckets = rbuckets rt, kv_values = pvalues (kv_data rt)\<rparr>"

definition rt_inv :: "(string \<Rightarrow> nat) \<Rightarrow> nat \<Rightarrow> 'v kv_runtime \<Rightarrow> bool" where
  "rt_inv hash N rt \<longleftrightarrow> length (pkeys (kv_data rt)) = length (pvalues (kv_data rt)) \<and>
     rbuckets rt = rebuilt hash N (pkeys (kv_data rt)) \<and> kv_inv (as_kv rt)"

lemma get_as_kv: "kv_runtime_get hash key rt = simple_kv_get hash key (as_kv rt)"
  by (simp add: kv_runtime_get_def simple_kv_get_def as_kv_def Let_def split: option.split)

lemma rt_inv_restart: "rt_inv hash N rt \<Longrightarrow> kv_runtime_new hash N (kv_data rt) = Inr rt"
  by (simp add: rt_inv_def kv_runtime_new_rebuilt)

lemma rt_inv_new:
  "0 < N \<Longrightarrow> rt_inv hash N \<lparr>rbuckets = replicate N [], kv_data = kv_persistent_new\<rparr>"
  by (auto simp: rt_inv_def rebuilt_def kv_persistent_new_def as_kv_def kv_inv_def)

lemma kv_runtime_new_empty:
  "kv_runtime_new hash N kv_persistent_new = Inr \<lparr>rbuckets = replicate N [], kv_data = kv_persistent_new\<rparr>"
  by (simp add: kv_runtime_new_rebuilt kv_persistent_new_def rebuilt_def)

text \<open>What the two transactions of \<open>put\<close>, with the update of the buckets, leave behind.\<close>

definition rt_updated :: "nat \<Rightarrow> 'v \<Rightarrow> 'v kv_runtime \<Rightarrow> 'v kv_runtime" where
  "rt_updated i val rt = rt\<lparr>kv_data := (kv_data rt)\<lparr>pvalues := (pvalues (kv_data rt))[i := val]\<rparr>\<rparr>"

definition rt_appended :: "(string \<Rightarrow> nat) \<Rightarrow> string \<Rightarrow> 'v \<Rightarrow> 'v kv_runtime \<Rightarrow> 'v kv_runtime" where
  "rt_appended hash key val rt =
     \<lparr>rbuckets = bucket_add hash key (length (pvalues (kv_data rt))) (rbuckets rt),
      kv_data = \<lparr>pvalues = pvalues (kv_data rt) @ [val], pkeys = pkeys (kv_data rt) @ [key]\<rparr>\<rparr>"

lemma rt_updated_kv:
  "as_kv (rt_updated i val rt) = (as_kv rt)\<lparr>kv_values := (kv_values (as_kv rt))[i := val]\<rparr>"
  by (simp add: as_kv_def rt_updated_def)

lemma rt_appended_kv: "as_kv (rt_appended hash key val rt) = appended hash key val (as_kv rt)"
  by (simp add: as_kv_def rt_appended_def appended_def bucket_add_def Let_def)

lemma rt_updated_inv: "rt_inv hash N rt \<Longrightarrow> rt_inv hash N (rt_updated i val rt)"
  using update_inv [of "as_kv rt" i val] by (simp add: rt_inv_def rt_updated_kv) (simp add: rt_updated_def)

lemma rt_appended_inv: "rt_inv hash N rt \<Longrightarrow> rt_inv hash N (rt_appended hash key val rt)"
  using append_inv [of "as_kv rt" hash key val]
  by (simp add: rt_inv_def rt_appended_kv) (simp add: rt_appended_def rebuilt_snoc)

definition rt_map :: "(string \<Rightarrow> nat) \<Rightarrow> 'v kv_runtime \<Rightarrow> string \<rightharpoonup> 'v" where
  "rt_map hash rt = kv_map hash (as_kv rt)"

definition rt_ok :: "('v kv_persistent, unit) tx_run \<Rightarrow> (string \<Rightarrow> nat) \<Rightarrow> nat \<Rightarrow> 'v kv_runtime \<Rightarrow> bool" where
  "rt_ok run hash N rt \<longleftrightarrow> tx_atomic run \<and> rt_inv hash N rt"

lemma rt_put_cases:
  assumes "rt_ok run hash N rt"
  obtains (ok) rt' where "kv_runtime_put run hash key val rt = (rt', Inr ())" "rt_inv hash N rt'"
      "rt_map hash rt' = (rt_map hash rt)(key \<mapsto> val)"
    | (fail) "kv_runtime_put run hash key val rt = (rt, Inl TxError)"
proof -
  from assms have at: "tx_atomic run" and ri: "rt_inv hash N rt" and inv: "kv_inv (as_kv rt)"
    by (simp_all add: rt_ok_def rt_inv_def)
  have lt: "hash key mod length (rbuckets rt) < length (rbuckets rt)"
    using index_less [OF inv] by (simp add: as_kv_def)
  have find: "find_entry (rbuckets rt ! (hash key mod length (rbuckets rt))) key = entry_of hash (as_kv rt) key"
    by (simp add: entry_of_def as_kv_def)
  show thesis
  proof (cases "entry_of hash (as_kv rt) key")
    case (Some i)
    let ?body = "\<lambda>d. if i < length (pvalues d) then (d\<lparr>pvalues := (pvalues d)[i := val]\<rparr>, Inr ())
       else (d, Inl Undefined)"
    have put: "kv_runtime_put run hash key val rt =
        (case run ?body (kv_data rt) of (d, r) \<Rightarrow> (rt\<lparr>kv_data := d\<rparr>, r))"
      using lt Some find by (simp add: kv_runtime_put_def Let_def)
    have body: "?body (kv_data rt) = (kv_data (rt_updated i val rt), Inr ())"
      using entry_valid [OF inv Some] by (simp add: as_kv_def rt_updated_def)
    have upd: "rt\<lparr>kv_data := kv_data (rt_updated i val rt)\<rparr> = rt_updated i val rt"
      by (simp add: rt_updated_def)
    from at show thesis
      by (cases rule: tx_atomic_cases [where body = ?body and s = "kv_data rt"])
         (use put body upd ok fail rt_updated_inv [OF ri] update_map [OF inv Some] in
           \<open>auto simp: rt_map_def rt_updated_kv\<close>)
  next
    case None
    let ?body = "\<lambda>d. (d\<lparr>pvalues := pvalues d @ [val], pkeys := pkeys d @ [key]\<rparr>, Inr ())"
    have put: "kv_runtime_put run hash key val rt =
        (case run ?body (kv_data rt) of
           (d, Inl e) \<Rightarrow> (rt\<lparr>kv_data := d\<rparr>, Inl e)
         | (d, Inr _) \<Rightarrow> (rt\<lparr>kv_data := d, rbuckets := bucket_add hash key (length (pvalues d) - 1) (rbuckets rt)\<rparr>, Inr ()))"
      using lt None find by (simp add: kv_runtime_put_def bucket_add_def Let_def split: prod.split sum.split)
    have body: "?body (kv_data rt) = (kv_data (rt_appended hash key val rt), Inr ())"
      by (simp add: rt_appended_def)
    have app: "rt\<lparr>kv_data := kv_data (rt_appended hash key val rt),
        rbuckets := bucket_add hash key (length (pvalues (kv_data (rt_appended hash key val rt))) - 1) (rbuckets rt)\<rparr> =
        rt_appended hash key val rt"
      by (simp add: rt_appended_def)
    from at show thesis
      by (cases rule: tx_atomic_cases [where body = ?body and s = "kv_data rt"])
         (use put body app ok fail rt_appended_inv [OF ri] append_map [OF inv None] in
           \<open>auto simp: rt_map_def rt_appended_kv\<close>)
  qed
qed

interpretation rkv: kv_store "kv_runtime_get hash" "kv_runtime_put run hash" "rt_map hash" "rt_ok run hash N"
  for hash run N
proof unfold_locales
  fix rt rt' :: "'a kv_runtime" and key v u e
  assume ok: "rt_ok run hash N rt"
  show "kv_runtime_get hash key rt = kv_lookup (rt_map hash rt) key"
    unfolding get_as_kv rt_map_def by (rule get_map) (use ok in \<open>simp add: rt_ok_def rt_inv_def\<close>)
  show "rt_ok run hash N rt' \<and> rt_map hash rt' = (rt_map hash rt)(key \<mapsto> v)"
    if "kv_runtime_put run hash key v rt = (rt', Inr u)"
    using ok that by (cases rule: rt_put_cases [where key = key and val = v])
      (use ok in \<open>auto simp: rt_ok_def\<close>)
  show "rt' = rt \<and> e \<noteq> Undefined" if "kv_runtime_put run hash key v rt = (rt', Inl e)"
    using ok that by (cases rule: rt_put_cases [where key = key and val = v]) auto
qed

section \<open>Properties\<close>

text \<open>
  C6. Recovery: after any run of \<open>put\<close>s on a map constructed over empty data, each of which may
  fail, constructing a new runtime object from the persistent data alone (which is all that
  survives a crash) gives exactly the object the crashed program had, buckets included; so \<open>get\<close>
  on the recovered object returns the value of the last successful \<open>put\<close> of the key, or throws
  \<open>out_of_range\<close> for a key never put.
\<close>

theorem kv_rebuild_recovers:
  assumes "tx_atomic run" and "0 < N"
    and "kv_runtime_new hash N kv_persistent_new = Inr rt0"
    and "kv_run (kv_runtime_put run hash) ops rt0 = (rt, log)"
  shows "kv_runtime_new hash N (kv_data rt) = Inr rt \<and>
    kv_runtime_get hash key rt = kv_lookup (kv_effect Map.empty log) key \<and>
    (\<forall>(k, v, r) \<in> set log. r \<noteq> Inl Undefined)"
proof -
  have rt0: "rt0 = \<lparr>rbuckets = replicate N [], kv_data = kv_persistent_new\<rparr>"
    using assms(3) by (simp add: kv_runtime_new_empty)
  then have ok: "rt_ok run hash N rt0" using assms(1,2) by (simp add: rt_ok_def rt_inv_new)
  have "as_kv rt0 = simple_kv_new N"
    by (simp add: rt0 as_kv_def simple_kv_new_def kv_persistent_new_def)
  then have "rt_map hash rt0 = Map.empty" by (simp add: rt_map_def kv_map_new [OF assms(2)])
  with rkv.run_get [OF ok assms(4), of key] rkv.run_effect [OF ok assms(4)] show ?thesis
    by (auto simp: rt_ok_def rt_inv_restart)
qed

theorem kv_rebuild_recovers_witness:
  "\<exists>rt. kv_run (kv_runtime_put tx_plain length) [(''a'', 1), (''bb'', 2), (''a'', 3 :: int)]
       \<lparr>rbuckets = replicate 2 [], kv_data = kv_persistent_new\<rparr> =
     (rt, [(''a'', 1, Inr ()), (''bb'', 2, Inr ()), (''a'', 3, Inr ())]) \<and>
   kv_data rt = \<lparr>pvalues = [3, 2], pkeys = [''a'', ''bb'']\<rparr> \<and>
   kv_runtime_new length 2 (kv_data rt) = Inr rt \<and> kv_runtime_get length ''a'' rt = Inr 3"
proof -
  let ?init = "\<lparr>rbuckets = replicate 2 [], kv_data = kv_persistent_new\<rparr> :: int kv_runtime"
  let ?fin = "\<lparr>rbuckets = [[(''bb'', 1)], [(''a'', 0)]],
    kv_data = \<lparr>pvalues = [3, 2], pkeys = [''a'', ''bb'']\<rparr>\<rparr> :: int kv_runtime"
  have run: "kv_run (kv_runtime_put tx_plain length) [(''a'', 1), (''bb'', 2), (''a'', 3)] ?init =
     (?fin, [(''a'', 1, Inr ()), (''bb'', 2, Inr ()), (''a'', 3, Inr ())])"
    by (simp add: kv_runtime_put_def kv_persistent_new_def tx_plain_def Let_def numeral_2_eq_2)
  have "kv_runtime_new length 2 kv_persistent_new = Inr ?init" by (rule kv_runtime_new_empty)
  from kv_rebuild_recovers [OF tx_plain_atomic _ this run, of "''a''"] run show ?thesis by auto
qed

text \<open>The command loop keeps the invariant and never runs into undefined behaviour.\<close>

definition kv_exn :: "exn \<Rightarrow> bool" where
  "kv_exn e \<longleftrightarrow> e = no_entry \<or> e = TxError"

lemma get_exn: "rt_ok run hash N rt \<Longrightarrow> kv_runtime_get hash key rt = Inl e \<Longrightarrow> kv_exn e"
  by (simp add: rkv.get_abs kv_exn_def split: option.splits)

lemma put_exn: "rt_ok run hash N rt \<Longrightarrow> kv_runtime_put run hash key v rt = (rt', Inl e) \<Longrightarrow> rt' = rt \<and> kv_exn e"
  by (erule rt_put_cases [where key = key and val = v]) (auto simp: kv_exn_def)

lemma rebuild_cmds_safe:
  "rt_ok run hash N rt \<Longrightarrow> rebuild_cmds run hash rt cin out = (rt', out', e) \<Longrightarrow>
   rt_ok run hash N rt' \<and> (\<forall>x. e = Some x \<longrightarrow> kv_exn x) \<and> (\<exists>new. out' = out @ new)"
proof (induction run hash rt cin out rule: rebuild_cmds.induct)
  case (1 run hash rt cin out)
  let ?op = "fst (read_word cin)" and ?c1 = "snd (read_word cin)"
  let ?key = "fst (read_word ?c1)" and ?c2 = "snd (read_word ?c1)"
  let ?v = "fst (read_int ?c2)" and ?c3 = "snd (read_int ?c2)"
  note ok = "1.prems"(1) and run = trans [OF rebuild_cmds.simps [symmetric] "1.prems"(2), unfolded Let_def]
  note IH = "1.IH" [OF refl refl refl refl refl refl]
  consider (eof) "failed ?c1" | (get) "\<not> failed ?c1" "?op = ''get'' \<and> \<not> failed ?c2"
    | (put) "\<not> failed ?c1" "\<not> (?op = ''get'' \<and> \<not> failed ?c2)" "?op = ''put'' \<and> \<not> failed ?c2 \<and> \<not> failed ?c3"
    | (exit) "\<not> failed ?c1" "\<not> (?op = ''get'' \<and> \<not> failed ?c2)" "\<not> (?op = ''put'' \<and> \<not> failed ?c2 \<and> \<not> failed ?c3)"
        "?op = ''exit''"
    | (usage) "\<not> failed ?c1" "\<not> (?op = ''get'' \<and> \<not> failed ?c2)" "\<not> (?op = ''put'' \<and> \<not> failed ?c2 \<and> \<not> failed ?c3)"
        "?op \<noteq> ''exit''"
    by blast
  then show ?case
  proof cases
    case get
    show ?thesis
    proof (cases "kv_runtime_get hash ?key rt")
      case (Inl x)
      with get run ok get_exn [OF ok Inl] show ?thesis by auto
    next
      case (Inr x)
      from run get Inr have "rebuild_cmds run hash rt ?c2 (out @ [RbValue x]) = (rt', out', e)" by simp
      from IH(1) [OF get Inr ok this] show ?thesis by auto
    qed
  next
    case put
    obtain rt1 r where step: "kv_runtime_put run hash ?key ?v rt = (rt1, r)" by fastforce
    show ?thesis
    proof (cases r)
      case (Inl x)
      with put step run ok put_exn [OF ok, of ?key ?v rt1 x] show ?thesis by auto
    next
      case (Inr u)
      with step rkv.put_ok [OF ok, of ?key ?v rt1 u] have ok1: "rt_ok run hash N rt1" by blast
      from run put step Inr have "rebuild_cmds run hash rt1 ?c3 out = (rt', out', e)" by auto
      from IH(2) [OF put step [symmetric] Inr ok1 this] show ?thesis .
    qed
  next
    case usage
    from run usage have "rebuild_cmds run hash rt
        (if ?op = ''get'' then ?c2 else if ?op = ''put'' then if failed ?c2 then ?c2 else ?c3 else ?c1)
        (out @ [RbUsage]) = (rt', out', e)" by auto
    from IH(3) [OF usage ok this] show ?thesis by auto
  qed (use run ok in auto)
qed

lemma rt_inv_rebuilt:
  "0 < N \<Longrightarrow> length ks = length vs \<Longrightarrow>
   rt_inv hash N \<lparr>rbuckets = rebuilt hash N ks, kv_data = \<lparr>pvalues = vs, pkeys = ks\<rparr>\<rparr>"
proof (induction ks arbitrary: vs rule: rev_induct)
  case Nil
  then show ?case using rt_inv_new [of N hash] by (simp add: rebuilt_def kv_persistent_new_def)
next
  case (snoc k ks)
  then obtain ws v where vs: "vs = ws @ [v]" by (cases vs rule: rev_cases) auto
  with snoc have "rt_inv hash N \<lparr>rbuckets = rebuilt hash N ks, kv_data = \<lparr>pvalues = ws, pkeys = ks\<rparr>\<rparr>" by simp
  from rt_appended_inv [OF this, of k v] snoc.prems vs show ?case
    by (simp add: rt_appended_def rebuilt_snoc)
qed

text \<open>
  C40. A session of the interactive program on a fresh pool or on one whose two vectors have the
  same length, for every input, every hash function and any failing transactions: the program
  exits with status 0, leaves vectors of the same length in the pool (so the next session starts
  from such a pool again), and the only exceptions it can catch on the way are the
  \<open>out_of_range\<close> of a \<open>get\<close> of an absent key and a transaction error.
\<close>

theorem rebuild_session_safe:
  assumes "tx_atomic run" and "tx_atomic runr" and "pool_close True = None"
    and "\<forall>d. r = Some d \<longrightarrow> length (pkeys d) = length (pvalues d)"
    and "rebuild_main runr run hash pool_close (Inr r) [prog, path] cin = (r', out, e, fin)"
  shows "fin = Exited 0 \<and> (\<forall>x. e = Some x \<longrightarrow> x = no_entry \<or> x = TxError) \<and>
    (\<forall>d. r' = Some d \<longrightarrow> length (pkeys d) = length (pvalues d))"
proof -
  let ?start = "if r = None then runr (\<lambda>_. (Some kv_persistent_new, Inr ())) r else (r, Inr ())"
  have "?start = (None, Inl TxError) \<or>
      (\<exists>d. ?start = (Some d, Inr ()) \<and> length (pkeys d) = length (pvalues d))"
  proof (cases r)
    case None
    from assms(2) show ?thesis
      by (cases rule: tx_atomic_cases [where body = "\<lambda>_. (Some kv_persistent_new, Inr ())" and s = r])
         (auto simp: None kv_persistent_new_def)
  qed (use assms(4) in auto)
  then show ?thesis
  proof (elim disjE exE conjE)
    assume "?start = (None, Inl TxError)"
    with assms(3,5) show ?thesis by (auto simp: rebuild_main_def split: if_splits)
  next
    fix d assume start: "?start = (Some d, Inr ())" and len: "length (pkeys d) = length (pvalues d)"
    define rt where "rt = \<lparr>rbuckets = rebuilt hash 10 (pkeys d), kv_data = d\<rparr>"
    have new: "kv_runtime_new hash 10 d = Inr rt" by (simp add: rt_def kv_runtime_new_rebuilt len)
    have ok: "rt_ok run hash 10 rt"
      using rt_inv_rebuilt [of 10 "pkeys d" "pvalues d" hash] assms(1) len
      by (cases d) (simp add: rt_ok_def rt_def)
    obtain rt' out' e' where loop: "rebuild_cmds run hash rt cin [RbUsage] = (rt', out', e')"
      by (cases "rebuild_cmds run hash rt cin [RbUsage]") auto
    from rebuild_cmds_safe [OF ok loop] have ok': "rt_ok run hash 10 rt'" and ex: "\<forall>x. e' = Some x \<longrightarrow> kv_exn x"
      by auto
    have "r' = Some (kv_data rt')" "e = e'" "fin = Exited 0"
      using assms(3,5) start new loop by (auto simp: rebuild_main_def Let_def split: if_splits)
    with ok' ex show ?thesis by (auto simp: rt_ok_def rt_inv_def kv_exn_def)
  qed
qed

theorem rebuild_session_safe_witness:
  "\<exists>r' out e. rebuild_main tx_plain tx_plain length (\<lambda>_. None)
       (Inr (Some \<lparr>pvalues = [7], pkeys = [''a'']\<rparr>)) [''p'', ''f''] (istream_of ''get b'') = (r', out, e, Exited 0) \<and>
     e \<in> {None, Some no_entry, Some TxError}"
proof -
  obtain r' out e fin where run: "rebuild_main tx_plain tx_plain length (\<lambda>_. None)
       (Inr (Some \<lparr>pvalues = [7], pkeys = [''a'']\<rparr>)) [''p'', ''f''] (istream_of ''get b'') = (r', out, e, fin)"
    using prod_cases4 by blast
  from rebuild_session_safe [OF tx_plain_atomic tx_plain_atomic _ _ run] run show ?thesis
    by (cases e) auto
qed

end
