(* ===== verification/Pmem.thy ===== *)
theory Pmem
  imports Prelude
begin

text \<open>
  Persistent memory under stores and explicit flushes. A store becomes visible at once; when it
  reaches the medium is open until the location is persisted, so after a power failure a location
  may hold any of the values stored to it since its last \<open>persist\<close>, or the value it had then,
  independently of every other location. This is the memory the programs that call
  \<open>pop.persist\<close> (\<open>ppm_ch11_6_versioning_insert\<close>, \<open>ppm_ch12_38_out_of_order_bug\<close>) rely on.
\<close>

section \<open>Stores, flushes, crashes\<close>

datatype ('l, 'v) instr = Store 'l 'v | Persist "'l list"

text \<open>\<open>visible\<close> is what the program reads, \<open>pending\<close> what a crash may leave at a location.\<close>

record ('l, 'v) pmem =
  visible :: "'l \<Rightarrow> 'v"
  pending :: "'l \<Rightarrow> 'v set"

definition quiescent :: "('l \<Rightarrow> 'v) \<Rightarrow> ('l, 'v) pmem" where
  "quiescent m = \<lparr>visible = m, pending = (\<lambda>l. {m l})\<rparr>"

fun exec1 :: "('l, 'v) instr \<Rightarrow> ('l, 'v) pmem \<Rightarrow> ('l, 'v) pmem" where
  "exec1 (Store l x) s =
     s\<lparr>visible := (visible s)(l := x), pending := (pending s)(l := insert x (pending s l))\<rparr>"
| "exec1 (Persist ls) s =
     s\<lparr>pending := (\<lambda>l. if l \<in> set ls then {visible s l} else pending s l)\<rparr>"

definition exec :: "('l, 'v) instr list \<Rightarrow> ('l, 'v) pmem \<Rightarrow> ('l, 'v) pmem" where
  "exec is s = fold exec1 is s"

definition crash_image :: "('l, 'v) pmem \<Rightarrow> ('l \<Rightarrow> 'v) \<Rightarrow> bool" where
  "crash_image s m \<longleftrightarrow> (\<forall>l. m l \<in> pending s l)"

text \<open>The images a power failure during \<open>is\<close> can leave: one of some prefix of it.\<close>

definition crashes_in :: "('l, 'v) instr list \<Rightarrow> ('l, 'v) pmem \<Rightarrow> ('l \<Rightarrow> 'v) \<Rightarrow> bool" where
  "crashes_in is s m \<longleftrightarrow> (\<exists>n \<le> length is. crash_image (exec (take n is) s) m)"

section \<open>Laws\<close>

lemma exec_Nil [simp]: "exec [] s = s"
  by (simp add: exec_def)

lemma exec_Cons [simp]: "exec (i # is) s = exec is (exec1 i s)"
  by (simp add: exec_def)

lemma exec_append [simp]: "exec (is @ js) s = exec js (exec is s)"
  by (simp add: exec_def)

lemma quiescent_simps [simp]:
  "visible (quiescent m) = m" "pending (quiescent m) = (\<lambda>l. {m l})"
  by (simp_all add: quiescent_def)

lemma quiescent_crash [simp]: "crash_image (quiescent m) m' \<longleftrightarrow> m' = m"
  by (auto simp: crash_image_def)

lemma crashes_in_Nil [simp]: "crashes_in [] s m \<longleftrightarrow> crash_image s m"
  by (simp add: crashes_in_def)

lemma crashes_in_Cons: "crashes_in (i # is) s m \<longleftrightarrow> crash_image s m \<or> crashes_in is (exec1 i s) m"
proof
  assume "crashes_in (i # is) s m"
  then obtain n where n: "n \<le> Suc (length is)" "crash_image (exec (take n (i # is)) s) m"
    by (auto simp: crashes_in_def)
  then show "crash_image s m \<or> crashes_in is (exec1 i s) m"
    by (cases n) (auto simp: crashes_in_def)
next
  assume "crash_image s m \<or> crashes_in is (exec1 i s) m"
  then show "crashes_in (i # is) s m"
  proof
    assume "crash_image s m"
    then show ?thesis by (auto simp: crashes_in_def intro: exI [of _ 0])
  next
    assume "crashes_in is (exec1 i s) m"
    then obtain n where "n \<le> length is" "crash_image (exec (take n is) (exec1 i s)) m"
      by (auto simp: crashes_in_def)
    then show ?thesis by (auto simp: crashes_in_def intro: exI [of _ "Suc n"])
  qed
qed

lemma crashes_in_now: "crash_image s m \<Longrightarrow> crashes_in is s m"
  by (auto simp: crashes_in_def intro: exI [of _ 0])

lemma crashes_in_append:
  "crashes_in (is @ js) s m \<longleftrightarrow> crashes_in is s m \<or> crashes_in js (exec is s) m"
  by (induction "is" arbitrary: s) (auto simp: crashes_in_Cons dest: crashes_in_now)

text \<open>
  A block of stores that stays within a region leaves every other location alone, visibly and on
  the medium, at every moment; persisting the region makes what is visible there final.
\<close>

definition stores_in :: "'l set \<Rightarrow> ('l, 'v) instr list \<Rightarrow> bool" where
  "stores_in R is \<longleftrightarrow> (\<forall>i \<in> set is. \<exists>l x. i = Store l x \<and> l \<in> R)"

lemma stores_in_simps [simp]:
  "stores_in R []"
  "stores_in R (Store l x # is) \<longleftrightarrow> l \<in> R \<and> stores_in R is"
  "stores_in R (is @ js) \<longleftrightarrow> stores_in R is \<and> stores_in R js"
  by (auto simp: stores_in_def)

lemma stores_in_exec:
  assumes "stores_in R is" and "l \<notin> R"
  shows "visible (exec is s) l = visible s l" "pending (exec is s) l = pending s l"
  using assms by (induction "is" arbitrary: s) (auto simp: stores_in_def split: if_splits)

lemma visible_stores:
  "distinct (map f js) \<Longrightarrow> j \<in> set js \<Longrightarrow> visible (exec (map (\<lambda>i. Store (f i) (g i)) js) s) (f j) = g j"
proof (induction js arbitrary: s)
  case (Cons i js)
  show ?case
  proof (cases "j = i")
    case True
    have "stores_in (f ` set js) (map (\<lambda>i. Store (f i) (g i)) js)" by (auto simp: stores_in_def)
    from stores_in_exec(1) [OF this, of "f i"] True Cons.prems show ?thesis by simp
  qed (use Cons in auto)
qed simp

lemma stores_in_take: "stores_in R is \<Longrightarrow> stores_in R (take n is)"
  by (auto simp: stores_in_def dest: in_set_takeD)

lemma stores_in_crash:
  assumes "stores_in R is" and "crashes_in is (quiescent m) m'" and "l \<notin> R"
  shows "m' l = m l"
proof -
  from assms(2) obtain n where "crash_image (exec (take n is) (quiescent m)) m'"
    by (auto simp: crashes_in_def)
  then have "m' l \<in> pending (exec (take n is) (quiescent m)) l" by (simp add: crash_image_def)
  then show ?thesis using stores_in_exec(2) [OF stores_in_take [OF assms(1)] assms(3)] by simp
qed

lemma persist_quiescent:
  assumes "stores_in (set ls) is"
  shows "exec (is @ [Persist ls]) (quiescent m) = quiescent (visible (exec is (quiescent m)))"
proof -
  let ?s = "exec is (quiescent m)"
  have "pending ?s l = {visible ?s l}" if "l \<notin> set ls" for l
    using stores_in_exec [OF assms that] by simp
  then show ?thesis by (intro pmem.equality) (auto simp: fun_eq_iff)
qed

text \<open>What is visible may be on the medium, and what may be there stays possible until a flush.\<close>

lemma visible_pending: "(\<forall>l. visible s l \<in> pending s l) \<Longrightarrow> visible (exec is s) l \<in> pending (exec is s) l"
proof (induction "is" arbitrary: s)
  case (Cons i "is")
  have "\<forall>l. visible (exec1 i s) l \<in> pending (exec1 i s) l" using Cons.prems by (cases i) auto
  with Cons.IH show ?case by simp
qed simp

lemma pending_unflushed:
  "\<forall>ls. Persist ls \<in> set is \<longrightarrow> l \<notin> set ls \<Longrightarrow> x \<in> pending s l \<Longrightarrow> x \<in> pending (exec is s) l"
proof (induction "is" arbitrary: s)
  case (Cons i "is")
  then have "x \<in> pending (exec1 i s) l" by (cases i) auto
  with Cons show ?case by simp
qed simp

text \<open>Whatever is executed, a location holds an old value or one that was stored to it.\<close>

lemma exec_values:
  "pending (exec is s) l \<union> {visible (exec is s) l} \<subseteq>
   pending s l \<union> {visible s l} \<union> {x. Store l x \<in> set is}"
proof (induction "is" arbitrary: s)
  case (Cons i "is")
  show ?case
  proof (cases i)
    case (Store l' x)
    with Cons.IH [of "exec1 i s"] show ?thesis by (auto split: if_splits)
  next
    case (Persist ls)
    with Cons.IH [of "exec1 i s"] show ?thesis by (auto split: if_splits)
  qed
qed simp

lemma crash_values:
  assumes "crashes_in is (quiescent m) m'"
  shows "m' l = m l \<or> Store l (m' l) \<in> set is"
proof -
  from assms obtain n where "crash_image (exec (take n is) (quiescent m)) m'"
    by (auto simp: crashes_in_def)
  then have "m' l \<in> pending (exec (take n is) (quiescent m)) l" by (simp add: crash_image_def)
  then show ?thesis
    using exec_values [of "take n is" "quiescent m" l] by (auto dest: in_set_takeD)
qed

text \<open>
  A flushed block: from quiescent memory, either the crash happens among the stores, and only the
  region differs from before, or the block completes and memory is quiescent again.
\<close>

lemma flushed_block_crash:
  assumes "stores_in (set ls) is"
  shows "crashes_in (is @ Persist ls # js) (quiescent m) m' \<longleftrightarrow>
    crashes_in is (quiescent m) m' \<or> crashes_in js (quiescent (visible (exec is (quiescent m)))) m'"
proof -
  have fin: "exec1 (Persist ls) (exec is (quiescent m)) = quiescent (visible (exec is (quiescent m)))"
    using persist_quiescent [OF assms, of m] by simp
  have "crashes_in is (quiescent m) m'" if "crash_image (exec is (quiescent m)) m'"
    using that by (auto simp: crashes_in_def intro: exI [of _ "length is"])
  then show ?thesis by (auto simp: crashes_in_append crashes_in_Cons fin simp del: exec1.simps)
qed

end
