(* ===== verification/Versioned_Array.thy ===== *)
theory Versioned_Array
  imports Pmem
begin

text \<open>
  Model of \<open>ppm_ch11_6_versioning_insert\<close>: a sorted array kept in two copies, of which the field
  \<open>current\<close> names the consistent one. An insertion builds the new contents in the other copy,
  persists it and then switches \<open>current\<close>. The model emits the stores and flushes in program
  order, so that a power failure can strike between any two of them.
\<close>

section \<open>Definitions\<close>

text \<open>
  The object \<open>array<int, slots>\<close> as memory locations; \<open>size\<close> and \<open>current\<close> are kept in the same
  memory of integers.
\<close>

datatype aloc = EntryAt nat nat | SizeOf nat | Current

type_synonym amem = "aloc \<Rightarrow> int"

definition current :: "amem \<Rightarrow> nat" where
  "current m = nat (m Current)"

definition size_at :: "amem \<Rightarrow> nat \<Rightarrow> nat" where
  "size_at m c = nat (m (SizeOf c))"

definition entries_at :: "amem \<Rightarrow> nat \<Rightarrow> int list" where
  "entries_at m c = map (\<lambda>i. m (EntryAt c i)) [0..<size_at m c]"

text \<open>\<open>std::lower_bound\<close>: bisection of the range \<open>[first, first + len)\<close>.\<close>

function lower_bound :: "int list \<Rightarrow> int \<Rightarrow> nat \<Rightarrow> nat \<Rightarrow> nat" where
  "lower_bound xs x first len =
     (if len = 0 then first
      else let half = len div 2 in
        if xs ! (first + half) < x then lower_bound xs x (first + half + 1) (len - half - 1)
        else lower_bound xs x first half)"
  by pat_completeness auto
termination
  by (relation "measure (\<lambda>(xs, x, first, len). len)") auto

declare lower_bound.simps [simp del]

text \<open>
  \<open>insert_element\<close>. The last store of the copy goes to index \<open>size\<close> of the other copy, which must
  be one of its \<open>slots\<close>; \<open>current\<close> must be 0 or 1.
\<close>

definition insert_element :: "nat \<Rightarrow> int \<Rightarrow> amem \<Rightarrow> (aloc, int) instr list res" where
  "insert_element slots entry m =
     (let c = current m; w = 1 - c; n = size_at m c;
          pos = lower_bound (entries_at m c) entry 0 n in
      if c > 1 \<or> n \<ge> slots then Inl Undefined
      else Inr (map (\<lambda>i. Store (EntryAt w i) (m (EntryAt c i))) [0..<pos] @
                [Store (EntryAt w pos) entry] @
                map (\<lambda>i. Store (EntryAt w (Suc i)) (m (EntryAt c i))) [pos..<n] @
                [Store (SizeOf w) (int (n + 1))]))"

definition copy_locs :: "nat \<Rightarrow> nat \<Rightarrow> aloc list" where
  "copy_locs slots w = map (EntryAt w) [0..<slots] @ [SizeOf w]"

definition array_insert :: "nat \<Rightarrow> int \<Rightarrow> amem \<Rightarrow> (aloc, int) instr list res" where
  "array_insert slots entry m =
     (case insert_element slots entry m of
        Inl e \<Rightarrow> Inl e
      | Inr is \<Rightarrow>
          Inr (is @ [Persist (copy_locs slots (1 - current m)),
                     Store Current (int (1 - current m)), Persist [Current]]))"

text \<open>The insertions of \<open>main\<close>, one after the other, and its output loop.\<close>

fun insert_all :: "nat \<Rightarrow> int list \<Rightarrow> (aloc, int) pmem \<Rightarrow> (aloc, int) pmem res" where
  "insert_all slots [] s = Inr s"
| "insert_all slots (x # xs) s =
     (case array_insert slots x (visible s) of
        Inl e \<Rightarrow> Inl e
      | Inr is \<Rightarrow> insert_all slots xs (exec is s))"

definition versioning_main :: "int list res" where
  "versioning_main =
     (case insert_all 10 [0, 5, 3, 1, 2] (quiescent (\<lambda>_. 0)) of
        Inl e \<Rightarrow> Inl e
      | Inr s \<Rightarrow> Inr (entries_at (visible s) (current (visible s))))"

section \<open>The consistent copy\<close>

definition array_contents :: "amem \<Rightarrow> int list" where
  "array_contents m = entries_at m (current m)"

definition array_ok :: "nat \<Rightarrow> amem \<Rightarrow> bool" where
  "array_ok slots m \<longleftrightarrow> current m \<le> 1 \<and> 0 \<le> m Current \<and> length (array_contents m) \<le> slots \<and> sorted (array_contents m)"

lemma length_contents: "length (array_contents m) = size_at m (current m)"
  by (simp add: array_contents_def entries_at_def)

text \<open>On a sorted range the bisection finds the first position not less than the entry.\<close>

lemma lower_bound_split:
  "sorted xs \<Longrightarrow> first + len \<le> length xs \<Longrightarrow>
   (\<forall>i < first. xs ! i < x) \<Longrightarrow> (\<forall>i. first + len \<le> i \<and> i < length xs \<longrightarrow> x \<le> xs ! i) \<Longrightarrow>
   lower_bound xs x first len \<le> length xs \<and> (\<forall>i < lower_bound xs x first len. xs ! i < x) \<and>
   (\<forall>i. lower_bound xs x first len \<le> i \<and> i < length xs \<longrightarrow> x \<le> xs ! i)"
proof (induction xs x first len rule: lower_bound.induct)
  case (1 xs x first len)
  show ?case
  proof (cases "len = 0")
    case True
    with "1.prems" show ?thesis by (subst (1 2 3) lower_bound.simps) simp
  next
    case False
    let ?m = "first + len div 2"
    have m: "?m < length xs" using False "1.prems"(2) by simp
    show ?thesis
    proof (cases "xs ! ?m < x")
      case True
      have "xs ! i < x" if "i < ?m + 1" for i
        using True sorted_nth_mono [OF "1.prems"(1), of i ?m] m that by simp
      moreover have "lower_bound xs x first len = lower_bound xs x (?m + 1) (len - len div 2 - 1)"
        using False True by (subst lower_bound.simps) (simp add: Let_def)
      ultimately show ?thesis using "1.IH"(1) [OF False refl True "1.prems"(1)] "1.prems" False by simp
    next
      case low: False
      have "x \<le> xs ! i" if "?m \<le> i" "i < length xs" for i
        using low sorted_nth_mono [OF "1.prems"(1), of ?m i] that by simp
      then have up: "\<forall>i. first + len div 2 \<le> i \<and> i < length xs \<longrightarrow> x \<le> xs ! i" by blast
      have eq: "lower_bound xs x first len = lower_bound xs x first (len div 2)"
        using False low by (subst lower_bound.simps) (simp add: Let_def)
      show ?thesis unfolding eq
        using "1.IH"(2) [OF False refl low "1.prems"(1) _ "1.prems"(3) up] m by simp
    qed
  qed
qed

lemma insort_split:
  assumes "sorted xs" and "\<forall>i < p. xs ! i < x" and "\<forall>i. p \<le> i \<and> i < length xs \<longrightarrow> x \<le> xs ! i"
    and "p \<le> length xs"
  shows "insort x xs = take p xs @ x # drop p xs"
  using assms
proof (induction xs arbitrary: p)
  case (Cons y ys)
  show ?case
  proof (cases p)
    case 0
    with Cons.prems(3) have "x \<le> y" by force
    with 0 show ?thesis by simp
  next
    case (Suc q)
    with Cons.prems(2) have "y < x" by force
    moreover have "insort x ys = take q ys @ x # drop q ys"
      by (rule Cons.IH) (use Cons.prems Suc in force)+
    ultimately show ?thesis using Suc by auto
  qed
qed simp

text \<open>Where the entry goes, in terms of the contents.\<close>

definition ins_pos :: "int \<Rightarrow> amem \<Rightarrow> nat" where
  "ins_pos entry m = lower_bound (entries_at m (current m)) entry 0 (size_at m (current m))"

lemma ins_pos_insort:
  assumes "sorted (array_contents m)"
  shows "ins_pos entry m \<le> length (array_contents m)"
    and "insort entry (array_contents m) = take (ins_pos entry m) (array_contents m) @ entry # drop (ins_pos entry m) (array_contents m)"
proof -
  note b = lower_bound_split [OF assms, of 0 "length (array_contents m)" entry]
  show le: "ins_pos entry m \<le> length (array_contents m)"
    using b by (simp add: ins_pos_def length_contents array_contents_def [symmetric])
  show "insort entry (array_contents m) = take (ins_pos entry m) (array_contents m) @ entry # drop (ins_pos entry m) (array_contents m)"
    by (rule insort_split [OF assms _ _ le])
       (use b in \<open>simp_all add: ins_pos_def length_contents array_contents_def [symmetric]\<close>)
qed

section \<open>What the stores of an insertion do\<close>

text \<open>The stores of an insertion: the entries below the position, the new one, those above, the size.\<close>

definition shift_low :: "nat \<Rightarrow> nat \<Rightarrow> (aloc \<Rightarrow> int) \<Rightarrow> (aloc, int) instr list" where
  "shift_low p w m = map (\<lambda>i. Store (EntryAt w i) (m (EntryAt (current m) i))) [0..<p]"

definition shift_high :: "nat \<Rightarrow> nat \<Rightarrow> (aloc \<Rightarrow> int) \<Rightarrow> (aloc, int) instr list" where
  "shift_high p w m = map (\<lambda>i. Store (EntryAt w (Suc i)) (m (EntryAt (current m) i))) [p..<length (array_contents m)]"

lemma insert_element_stores:
  assumes "insert_element slots entry m = Inr is"
  shows "is = shift_low (ins_pos entry m) (1 - current m) m @ [Store (EntryAt (1 - current m) (ins_pos entry m)) entry] @
    shift_high (ins_pos entry m) (1 - current m) m @ [Store (SizeOf (1 - current m)) (int (length (array_contents m) + 1))]"
  using assms by (simp add: insert_element_def Let_def shift_low_def shift_high_def ins_pos_def length_contents split: if_splits)

lemma inserted_values:
  assumes m': "m' = visible (exec (shift_low p w m @ [Store (EntryAt w p) entry] @ shift_high p w m @
      [Store (SizeOf w) (int (n + 1))]) (quiescent m))" and n: "n = length (array_contents m)"
  shows "i < p \<Longrightarrow> m' (EntryAt w i) = m (EntryAt (current m) i)" and "m' (EntryAt w p) = entry"
    and "p \<le> i \<Longrightarrow> i < n \<Longrightarrow> m' (EntryAt w (Suc i)) = m (EntryAt (current m) i)" and "size_at m' w = Suc n"
proof -
  have high_in: "stores_in (EntryAt w ` {p<..}) (shift_high p w m)" by (auto simp: shift_high_def stores_in_def)
  show "m' (EntryAt w i) = m (EntryAt (current m) i)" if "i < p"
  proof -
    have "m' (EntryAt w i) = visible (exec (shift_low p w m) (quiescent m)) (EntryAt w i)"
      using that stores_in_exec(1) [OF high_in, of "EntryAt w i"] by (simp add: m' image_iff)
    also have "\<dots> = m (EntryAt (current m) i)"
      unfolding shift_low_def using that by (subst visible_stores) (auto simp: distinct_map inj_on_def)
    finally show ?thesis .
  qed
  show "m' (EntryAt w p) = entry"
    using stores_in_exec(1) [OF high_in, of "EntryAt w p"] by (simp add: m' image_iff)
  show "m' (EntryAt w (Suc i)) = m (EntryAt (current m) i)" if "p \<le> i" "i < n"
    using visible_stores [of "\<lambda>i. EntryAt w (Suc i)" "[p..<n]" i "\<lambda>i. m (EntryAt (current m) i)"] that
    by (simp add: m' n shift_high_def distinct_map inj_on_def)
  show "size_at m' w = Suc n" by (simp add: size_at_def m')
qed

lemma working_copy:
  assumes inv: "array_ok slots m" and room: "length (array_contents m) < slots"
    and ins: "insert_element slots entry m = Inr is"
  shows "stores_in (set (copy_locs slots (1 - current m))) is \<and>
    entries_at (visible (exec is (quiescent m))) (1 - current m) = insort entry (array_contents m)"
proof -
  define w where "w = 1 - current m"
  let ?n = "length (array_contents m)" and ?p = "ins_pos entry m"
  have p: "?p \<le> ?n" and split: "insort entry (array_contents m) = take ?p (array_contents m) @ entry # drop ?p (array_contents m)"
    using ins_pos_insort [of m entry] inv by (simp_all add: array_ok_def)
  note eq = insert_element_stores [OF ins, folded w_def]
  have region: "stores_in (set (copy_locs slots w)) is"
    using p room by (auto simp: eq shift_low_def shift_high_def copy_locs_def stores_in_def)
  define m' where "m' = visible (exec is (quiescent m))"
  note vals = inserted_values [OF m'_def [unfolded eq] refl]
  have at: "array_contents m ! i = m (EntryAt (current m) i)" if "i < ?n" for i
    using that by (simp add: array_contents_def entries_at_def)
  have "entries_at m' w = insort entry (array_contents m)"
  proof (rule nth_equalityI)
    show "length (entries_at m' w) = length (insort entry (array_contents m))" by (simp add: entries_at_def vals(4))
  next
    fix i assume "i < length (entries_at m' w)"
    then have i: "i < Suc ?n" by (simp add: entries_at_def vals(4))
    have lhs: "entries_at m' w ! i = m' (EntryAt w i)"
      using i nth_upt [of 0 i "Suc ?n"] by (simp add: entries_at_def vals(4) del: upt_Suc)
    consider "i < ?p" | "i = ?p" | j where "i = Suc j" "?p \<le> j" "j < ?n" using i by (cases i) force+
    then show "entries_at m' w ! i = insort entry (array_contents m) ! i"
    proof cases
      case 3
      then have "insort entry (array_contents m) ! i = array_contents m ! j" using p by (simp add: split nth_append)
      with 3 lhs show ?thesis by (simp add: vals(3) at)
    qed (use p lhs in \<open>simp_all add: split nth_append vals(1,2) at\<close>)
  qed
  with region show ?thesis by (simp add: w_def m'_def)
qed

lemma insert_element_total:
  "array_ok slots m \<Longrightarrow> length (array_contents m) < slots \<Longrightarrow> \<exists>is. insert_element slots entry m = Inr is"
  by (simp add: insert_element_def array_ok_def length_contents Let_def)

lemma other_copy_same:
  assumes "\<And>l. l \<notin> set (copy_locs slots (1 - current m)) \<Longrightarrow> m' l = m l" and "array_ok slots m"
  shows "array_contents m' = array_contents m" "current m' = current m" "m' Current = m Current"
proof -
  have ne: "current m \<noteq> 1 - current m" using assms(2) by (simp add: array_ok_def) presburger
  show cur: "m' Current = m Current" by (rule assms(1)) (auto simp: copy_locs_def)
  then show curr: "current m' = current m" by (simp add: current_def)
  have "m' (SizeOf (current m)) = m (SizeOf (current m))"
    and "m' (EntryAt (current m) i) = m (EntryAt (current m) i)" for i
    using ne by (auto intro!: assms(1) simp: copy_locs_def)
  then show "array_contents m' = array_contents m" by (simp add: array_contents_def entries_at_def size_at_def curr)
qed

text \<open>A complete insertion, and the images a crash during it can leave.\<close>

lemma array_insert_cases:
  assumes inv: "array_ok slots m" and room: "length (array_contents m) < slots"
    and ins: "array_insert slots entry m = Inr is"
  obtains m1 where "exec is (quiescent m) = quiescent m1" "array_ok slots m1"
      "array_contents m1 = insort entry (array_contents m)"
      "\<And>m'. crashes_in is (quiescent m) m' \<Longrightarrow>
         (array_ok slots m' \<and> array_contents m' = array_contents m) \<or> m' = m1"
proof -
  let ?w = "1 - current m"
  obtain st where st: "insert_element slots entry m = Inr st"
    using insert_element_total [OF inv room] by blast
  let ?rest = "[Store Current (int ?w), Persist [Current]]"
  have eq: "is = st @ Persist (copy_locs slots ?w) # ?rest"
    using ins st by (simp add: array_insert_def)
  note region = conjunct1 [OF working_copy [OF inv room st]]
    and built = conjunct2 [OF working_copy [OF inv room st]]
  define m0 where "m0 = visible (exec st (quiescent m))"
  have same0: "m0 l = m l" if "l \<notin> set (copy_locs slots ?w)" for l
    using stores_in_exec(1) [OF region that] by (simp add: m0_def)
  have sub: "array_ok slots m'" if "array_contents m' = array_contents m" "current m' = current m" "m' Current = m Current" for m'
    using inv that by (simp add: array_ok_def)
  define m1 where "m1 = m0(Current := int ?w)"
  have c1: "current m1 = ?w" by (simp add: current_def m1_def)
  have con1: "array_contents m1 = insort entry (array_contents m)"
    using built by (simp add: array_contents_def c1) (simp add: entries_at_def size_at_def m1_def m0_def)
  have ok1: "array_ok slots m1"
    using inv room by (simp add: array_ok_def c1 con1 sorted_insort) (simp add: m1_def)
  have fin: "exec ?rest (quiescent m0) = quiescent m1"
    by (intro pmem.equality) (auto simp: m1_def fun_eq_iff)
  have "exec is (quiescent m) = quiescent m1"
    using persist_quiescent [OF region, of m] fin by (simp add: eq m0_def [symmetric])
  moreover have "(array_ok slots m' \<and> array_contents m' = array_contents m) \<or> m' = m1"
    if crash: "crashes_in is (quiescent m) m'" for m'
  proof -
    from crash consider "crashes_in st (quiescent m) m'" | "crashes_in ?rest (quiescent m0) m'"
      unfolding eq flushed_block_crash [OF region] m0_def by blast
    then show ?thesis
    proof cases
      case 1
      then have "m' l = m l" if "l \<notin> set (copy_locs slots ?w)" for l
        using stores_in_crash [OF region _ that] by blast
      from other_copy_same [OF this inv] show ?thesis using sub by blast
    next
      case 2
      then have "m' = m0 \<or> m' = m1"
        by (auto simp: crashes_in_Cons crash_image_def m1_def fun_eq_iff split: if_splits)
      then show ?thesis
        using sub [OF other_copy_same [OF same0 inv]] other_copy_same [OF same0 inv] by blast
    qed
  qed
  ultimately show thesis using that ok1 con1 by blast
qed

section \<open>Properties\<close>

text \<open>
  C5. Crash consistency of an insertion. Let the array be well formed (\<open>current\<close> is 0 or 1, the
  consistent copy sorted and within its slots) with a free slot, and let power fail at any moment
  of \<open>insert\<close>, with the unflushed stores reaching the medium in any order or not at all. What
  the next start finds is well formed, and its contents are those before the insertion or those
  before with the entry inserted in order. If there is no crash they are the latter, and
  everything is flushed.
\<close>

theorem insert_crash_consistent:
  assumes "array_ok slots m" and "length (array_contents m) < slots"
    and "array_insert slots entry m = Inr is"
  shows "(\<forall>m'. crashes_in is (quiescent m) m' \<longrightarrow> array_ok slots m' \<and>
       (array_contents m' = array_contents m \<or> array_contents m' = insort entry (array_contents m))) \<and>
    (\<exists>m1. exec is (quiescent m) = quiescent m1 \<and> array_ok slots m1 \<and>
       array_contents m1 = insort entry (array_contents m))"
  using array_insert_cases [OF assms] by metis

lemma array_ok_zero: "array_ok slots (\<lambda>_. 0)" and contents_zero: "array_contents (\<lambda>_. 0) = []"
  by (simp_all add: array_ok_def array_contents_def entries_at_def size_at_def current_def)

theorem insert_crash_consistent_witness:
  "\<exists>is. array_insert 10 7 (\<lambda>_. 0) = Inr is \<and>
    {m'. crashes_in is (quiescent (\<lambda>_. 0)) m'} \<subseteq> {m'. array_ok 10 m' \<and> array_contents m' \<in> {[], [7]}} \<and>
    (\<exists>m1. exec is (quiescent (\<lambda>_. 0)) = quiescent m1 \<and> array_ok 10 m1 \<and> array_contents m1 = [7])"
proof -
  obtain "is" where ins: "array_insert 10 7 (\<lambda>_. 0) = Inr is"
    by (simp add: array_insert_def insert_element_def Let_def current_def size_at_def)
  from insert_crash_consistent [OF array_ok_zero _ ins] ins show ?thesis
    by (auto simp: contents_zero)
qed

lemma insert_all_sorted:
  "array_ok slots m \<Longrightarrow> length (array_contents m) + length xs \<le> slots \<Longrightarrow>
   \<exists>m1. insert_all slots xs (quiescent m) = Inr (quiescent m1) \<and> array_ok slots m1 \<and>
     array_contents m1 = fold insort xs (array_contents m)"
proof (induction xs arbitrary: m)
  case (Cons x xs)
  then have room: "length (array_contents m) < slots" by simp
  obtain "is" where ins: "array_insert slots x m = Inr is"
    using insert_element_total [OF Cons.prems(1) room, of x] by (auto simp: array_insert_def)
  obtain m1 where ex: "exec is (quiescent m) = quiescent m1" and ok: "array_ok slots m1"
    and con: "array_contents m1 = insort x (array_contents m)"
    using array_insert_cases [OF Cons.prems(1) room ins] by metis
  have "length (array_contents m1) + length xs \<le> slots" using Cons.prems(2) con by simp
  from Cons.IH [OF ok this] show ?case using ins ex con by simp
qed auto

lemma insert_all_append:
  "insert_all slots (xs @ ys) s = (case insert_all slots xs s of Inl e \<Rightarrow> Inl e | Inr t \<Rightarrow> insert_all slots ys t)"
  by (induction xs arbitrary: s) (auto split: sum.split)

lemma fold_insort_sort: "fold insort xs [] = sort (xs :: int list)"
proof -
  have "sorted (fold insort xs ys) \<and> mset (fold insort xs ys) = mset xs + mset ys" if "sorted ys" for ys :: "int list"
    using that by (induction xs arbitrary: ys) (auto simp: sorted_insort)
  from this [of "[]"] show ?thesis by (metis add.right_neutral mset.simps(1) properties_for_sort sorted_simps(1))
qed

text \<open>
  A run of insertions: starting from a zeroed array, every sequence of at most \<open>slots\<close>
  entries is inserted without undefined behaviour and leaves exactly the sorted sequence,
  flushed; one entry more and the insertion writes behind the array.
\<close>

theorem versioned_inserts:
  "if length xs \<le> slots
   then \<exists>m1. insert_all slots xs (quiescent (\<lambda>_. 0)) = Inr (quiescent m1) \<and>
      current m1 \<le> 1 \<and> array_contents m1 = sort xs
   else insert_all slots xs (quiescent (\<lambda>_. 0)) = Inl Undefined"
proof (cases "length xs \<le> slots")
  case True
  with insert_all_sorted [OF array_ok_zero, of xs slots] show ?thesis
    by (auto simp: contents_zero fold_insort_sort array_ok_def)
next
  case False
  then obtain x rest where xs: "xs = take slots xs @ x # rest"
    by (metis append_take_drop_id drop_eq_Nil list.exhaust)
  obtain m1 where m1: "insert_all slots (take slots xs) (quiescent (\<lambda>_. 0)) = Inr (quiescent m1)"
    "array_contents m1 = sort (take slots xs)"
    using insert_all_sorted [OF array_ok_zero, of "take slots xs" slots]
    by (auto simp: contents_zero fold_insort_sort)
  have "size_at m1 (current m1) = slots"
    using m1(2) False by (simp add: length_contents [symmetric])
  then have "array_insert slots x m1 = Inl Undefined"
    by (simp add: array_insert_def insert_element_def Let_def)
  then have "insert_all slots xs (quiescent (\<lambda>_. 0)) = Inl Undefined"
    by (subst xs) (simp add: insert_all_append m1(1))
  with False show ?thesis by simp
qed

text \<open>The program itself prints its five entries in order.\<close>

lemma versioning_main_sorted: "versioning_main = Inr [0, 1, 2, 3, 5]"
proof -
  obtain m1 where m1: "insert_all 10 [0, 5, 3, 1, 2] (quiescent (\<lambda>_. 0)) = Inr (quiescent m1)"
    "array_contents m1 = sort [0, 5, 3, 1, 2]"
    using insert_all_sorted [OF array_ok_zero, of "[0, 5, 3, 1, 2]" 10]
    by (auto simp: contents_zero fold_insort_sort)
  then show ?thesis by (simp add: versioning_main_def array_contents_def)
qed

end
