(* ===== verification/Burst_Buffer.thy ===== *)
theory Burst_Buffer
  imports Linked_Heap
begin

text \<open>
  Model of \<open>pmembb_list\<close>: a burst buffer in persistent memory. Write requests are appended to the
  list \<open>active\<close> (behind a sentinel node), moved as a whole to the list \<open>flushing\<close>, and freed after
  a flusher has seen them all. The persistent part (nodes and the two list heads) is a record of
  its own, since transactions and crashes act on it alone; \<open>tail_\<close> is volatile.
  \<open>pmemobj_xalloc\<close> is an argument: it fails with an error number or returns an address, at which
  the constructed node and the pointer to it appear in one failure-atomic step. Every loop follows
  pointers, so each is a partial function; a loop that never ends has no defined behaviour.
\<close>

section \<open>Nodes\<close>

record list_node =
  nnext :: "addr option"
  wr_offset :: int
  wr_size :: nat
  wr_data :: string

record bb_persistent =
  nodes :: "list_node heap"
  active :: "addr option"
  flushing :: "addr option"

record burst_buffer =
  persistent :: bb_persistent
  tail_node :: "addr option"

text \<open>What \<open>offset()\<close> and \<open>sv()\<close> show of a node to a callback.\<close>

type_synonym request = "int \<times> string"

definition node_request :: "list_node \<Rightarrow> request" where
  "node_request n = (wr_offset n, take (wr_size n) (wr_data n))"

definition create_node :: "string \<Rightarrow> int \<Rightarrow> list_node" where
  "create_node data offset =
     \<lparr>nnext = None, wr_offset = offset, wr_size = length data, wr_data = data\<rparr>"

text \<open>The pointer an allocation is published in.\<close>

datatype pptr = ActivePtr | NextOf addr

type_synonym xalloc = "list_node heap \<Rightarrow> nat \<Rightarrow> int + addr"

definition makePersistentAtomic ::
  "xalloc \<Rightarrow> pptr \<Rightarrow> string \<Rightarrow> int \<Rightarrow> bb_persistent \<Rightarrow> bb_persistent \<times> unit res"
where
  "makePersistentAtomic xalloc ptr data offset p =
     (case xalloc (nodes p) (32 + length data) of
        Inl errno \<Rightarrow> (p, Inl (SystemError errno))
      | Inr a \<Rightarrow>
          let h = (nodes p)(a \<mapsto> create_node data offset) in
          (case ptr of
             ActivePtr \<Rightarrow> (p\<lparr>nodes := h, active := Some a\<rparr>, Inr ())
           | NextOf t \<Rightarrow>
               (case nodes p t of
                  None \<Rightarrow> (p, Inl Undefined)
                | Some n \<Rightarrow> (p\<lparr>nodes := h(t \<mapsto> n\<lparr>nnext := Some a\<rparr>)\<rparr>, Inr ()))))"

section \<open>Writer\<close>

text \<open>\<open>bb_.tail_->next.get()\<close>.\<close>

definition next_of :: "bb_persistent \<Rightarrow> addr option \<Rightarrow> addr option res" where
  "next_of p ptr =
     (case ptr of
        None \<Rightarrow> Inl Undefined
      | Some a \<Rightarrow> (case nodes p a of None \<Rightarrow> Inl Undefined | Some n \<Rightarrow> Inr (nnext n)))"

definition tryPwrite :: "xalloc \<Rightarrow> string \<Rightarrow> int \<Rightarrow> burst_buffer \<Rightarrow> burst_buffer \<times> int res" where
  "tryPwrite xalloc data offset b =
     (case tail_node b of
        None \<Rightarrow> (b, Inl Undefined)
      | Some t \<Rightarrow>
          (case makePersistentAtomic xalloc (NextOf t) data offset (persistent b) of
             (p, Inl (SystemError e)) \<Rightarrow> (b\<lparr>persistent := p\<rparr>, Inr (- e))
           | (p, Inl e) \<Rightarrow> (b\<lparr>persistent := p\<rparr>, Inl e)
           | (p, Inr _) \<Rightarrow>
               (case next_of p (Some t) of
                  Inl e \<Rightarrow> (b\<lparr>persistent := p\<rparr>, Inl e)
                | Inr a \<Rightarrow> (b\<lparr>persistent := p, tail_node := a\<rparr>, Inr 0))))"

definition pwrite :: "xalloc \<Rightarrow> string \<Rightarrow> int \<Rightarrow> burst_buffer \<Rightarrow> burst_buffer \<times> int res" where
  "pwrite xalloc data offset b = tryPwrite xalloc data offset b"

text \<open>
  Callbacks are code of the caller: they see a request, may keep state of their own, may throw,
  and return true to stop the traversal.
\<close>

type_synonym 'c callback = "request \<Rightarrow> 'c \<Rightarrow> 'c \<times> bool res"

partial_function (option) for_each_loop ::
  "'c callback \<Rightarrow> list_node heap \<Rightarrow> addr option \<Rightarrow> 'c \<Rightarrow> ('c \<times> unit res) option"
where
  "for_each_loop cb h cur c =
     (case cur of
        None \<Rightarrow> Some (c, Inl Undefined)
      | Some a \<Rightarrow>
          (case h a of
             None \<Rightarrow> Some (c, Inl Undefined)
           | Some n \<Rightarrow>
               if nnext n = None then Some (c, Inr ())
               else (case h (the (nnext n)) of
                       None \<Rightarrow> Some (c, Inl Undefined)
                     | Some m \<Rightarrow>
                         (case cb (node_request m) c of
                            (c', Inl e) \<Rightarrow> Some (c', Inl e)
                          | (c', Inr stop) \<Rightarrow>
                              if stop then Some (c', Inr ()) else for_each_loop cb h (nnext n) c'))))"

definition forEach :: "'c callback \<Rightarrow> burst_buffer \<Rightarrow> 'c \<Rightarrow> ('c \<times> unit res) option" where
  "forEach cb b c = for_each_loop cb (nodes (persistent b)) (active (persistent b)) c"

text \<open>The transaction of \<open>tryEnqueueFlush\<close>, and the operation.\<close>

definition enqueue_tx :: "bb_persistent \<Rightarrow> bb_persistent \<times> unit res" where
  "enqueue_tx p =
     (case active p of
        None \<Rightarrow> (p, Inl Undefined)
      | Some a \<Rightarrow>
          (case nodes p a of
             None \<Rightarrow> (p, Inl Undefined)
           | Some n \<Rightarrow>
               (p\<lparr>flushing := nnext n, nodes := (nodes p)(a \<mapsto> n\<lparr>nnext := None\<rparr>)\<rparr>, Inr ())))"

definition tryEnqueueFlush ::
  "(bb_persistent, unit) tx_run \<Rightarrow> burst_buffer \<Rightarrow> burst_buffer \<times> bool res"
where
  "tryEnqueueFlush run b =
     (if flushing (persistent b) \<noteq> None then (b, Inr False)
      else case run enqueue_tx (persistent b) of
        (p, Inl e) \<Rightarrow> (b\<lparr>persistent := p\<rparr>, Inl e)
      | (p, Inr _) \<Rightarrow> (b\<lparr>persistent := p, tail_node := active p\<rparr>, Inr True))"

section \<open>Flusher\<close>

text \<open>The traversal; its value tells whether the callback stopped it.\<close>

partial_function (option) flush_loop ::
  "'c callback \<Rightarrow> list_node heap \<Rightarrow> addr option \<Rightarrow> 'c \<Rightarrow> ('c \<times> bool res) option"
where
  "flush_loop cb h cur c =
     (case cur of
        None \<Rightarrow> Some (c, Inr False)
      | Some a \<Rightarrow>
          (case h a of
             None \<Rightarrow> Some (c, Inl Undefined)
           | Some n \<Rightarrow>
               (case cb (node_request n) c of
                  (c', Inl e) \<Rightarrow> Some (c', Inl e)
                | (c', Inr stop) \<Rightarrow>
                    if stop then Some (c', Inr True) else flush_loop cb h (nnext n) c')))"

partial_function (option) delete_loop ::
  "list_node heap \<Rightarrow> addr option \<Rightarrow> list_node heap res option"
where
  "delete_loop h cur =
     (case cur of
        None \<Rightarrow> Some (Inr h)
      | Some a \<Rightarrow>
          (case h a of
             None \<Rightarrow> Some (Inl Undefined)
           | Some n \<Rightarrow> delete_loop (h(a := None)) (nnext n)))"

definition flush_tx :: "bb_persistent \<Rightarrow> bb_persistent \<times> unit res" where
  "flush_tx p =
     (case delete_loop (nodes p) (flushing p) of
        None \<Rightarrow> (p, Inl Undefined)
      | Some (Inl e) \<Rightarrow> (p, Inl e)
      | Some (Inr h) \<Rightarrow> (p\<lparr>nodes := h, flushing := None\<rparr>, Inr ()))"

definition flushAll ::
  "(bb_persistent, unit) tx_run \<Rightarrow> 'c callback \<Rightarrow> burst_buffer \<Rightarrow> 'c \<Rightarrow> burst_buffer \<times> 'c \<times> unit res"
where
  "flushAll run cb b c =
     (case flush_loop cb (nodes (persistent b)) (flushing (persistent b)) c of
        None \<Rightarrow> (b, c, Inl Undefined)
      | Some (c', Inl e) \<Rightarrow> (b, c', Inl e)
      | Some (c', Inr True) \<Rightarrow> (b, c', Inr ())
      | Some (c', Inr False) \<Rightarrow>
          (case run flush_tx (persistent b) of (p, r) \<Rightarrow> (b\<lparr>persistent := p\<rparr>, c', r)))"

section \<open>Start-up\<close>

partial_function (option) tail_loop :: "list_node heap \<Rightarrow> addr \<Rightarrow> addr res option" where
  "tail_loop h a =
     (case h a of
        None \<Rightarrow> Some (Inl Undefined)
      | Some n \<Rightarrow> (case nnext n of None \<Rightarrow> Some (Inr a) | Some a' \<Rightarrow> tail_loop h a'))"

definition runtimeInitialize :: "xalloc \<Rightarrow> bb_persistent \<Rightarrow> bb_persistent \<times> burst_buffer res" where
  "runtimeInitialize xalloc p =
     (case (if active p = None then makePersistentAtomic xalloc ActivePtr [] 0 p else (p, Inr ())) of
        (p1, Inl e) \<Rightarrow> (p1, Inl e)
      | (p1, Inr _) \<Rightarrow>
          (case active p1 of
             None \<Rightarrow> (p1, Inl Undefined)
           | Some a \<Rightarrow>
               (case tail_loop (nodes p1) a of
                  None \<Rightarrow> (p1, Inl Undefined)
                | Some (Inl e) \<Rightarrow> (p1, Inl e)
                | Some (Inr t) \<Rightarrow> (p1, Inr \<lparr>persistent = p1, tail_node = Some t\<rparr>))))"

definition bb_persistent_new :: bb_persistent where
  "bb_persistent_new = \<lparr>nodes = Map.empty, active = None, flushing = None\<rparr>"

section \<open>Representation\<close>

text \<open>
  The persistent part holds the requests \<open>fl\<close> waiting to be flushed and the requests \<open>ac\<close> still
  being collected: two disjoint chains, the second behind the sentinel \<open>s0\<close>, which together are
  all the nodes of the pool (nothing is leaked). The volatile tail points to the last of the
  active nodes.
\<close>

interpretation ln: linked_nodes nnext "\<lambda>p n. n\<lparr>nnext := p\<rparr>" node_request
  by unfold_locales (simp_all add: node_request_def)

definition bb_at :: "bb_persistent \<Rightarrow> addr \<Rightarrow> addr list \<Rightarrow> addr list \<Rightarrow> bool" where
  "bb_at p s0 as bs \<longleftrightarrow> active p = Some s0 \<and> chain nnext (nodes p) (Some s0) (s0 # as) \<and>
     chain nnext (nodes p) (flushing p) bs \<and> set (s0 # as) \<inter> set bs = {} \<and>
     dom (nodes p) = set (s0 # as) \<union> set bs"

definition bb_lists :: "bb_persistent \<Rightarrow> request list \<Rightarrow> request list \<Rightarrow> bool" where
  "bb_lists p fl ac \<longleftrightarrow> (\<exists>s0 as bs. bb_at p s0 as bs \<and>
     contents node_request (nodes p) as = ac \<and> contents node_request (nodes p) bs = fl)"

definition bb_rep :: "burst_buffer \<Rightarrow> request list \<Rightarrow> request list \<Rightarrow> bool" where
  "bb_rep b fl ac \<longleftrightarrow> (\<exists>s0 as bs. bb_at (persistent b) s0 as bs \<and>
     contents node_request (nodes (persistent b)) as = ac \<and>
     contents node_request (nodes (persistent b)) bs = fl \<and> tail_node b = Some (last (s0 # as)))"

lemma bb_repI:
  "bb_at (persistent b) s0 as bs \<Longrightarrow> contents node_request (nodes (persistent b)) as = ac \<Longrightarrow>
   contents node_request (nodes (persistent b)) bs = fl \<Longrightarrow> tail_node b = Some (last (s0 # as)) \<Longrightarrow> bb_rep b fl ac"
  by (auto simp: bb_rep_def)

lemma bb_rep_lists: "bb_rep b fl ac \<Longrightarrow> bb_lists (persistent b) fl ac"
  by (auto simp: bb_rep_def bb_lists_def)

lemma request_create [simp]: "node_request (create_node data offset) = (offset, data)"
  by (simp add: node_request_def create_node_def)

lemma nnext_create [simp]: "nnext (create_node data offset) = None"
  by (simp add: create_node_def)

text \<open>The contract of the allocator: an unused address, or a positive error number.\<close>

definition fresh_xalloc :: "xalloc \<Rightarrow> bool" where
  "fresh_xalloc xalloc \<longleftrightarrow> (\<forall>h n a. xalloc h n = Inr a \<longrightarrow> a \<notin> dom h) \<and>
     (\<forall>h n e. xalloc h n = Inl e \<longrightarrow> 0 < e)"

text \<open>Appending a node behind the tail.\<close>

lemma publish_at:
  assumes at: "bb_at p s0 as bs" and a: "a \<notin> dom (nodes p)"
  obtains n where "nodes p (last (s0 # as)) = Some n"
    "bb_at (p\<lparr>nodes := (nodes p)(a \<mapsto> create_node data offset, last (s0 # as) \<mapsto> n\<lparr>nnext := Some a\<rparr>)\<rparr>) s0 (as @ [a]) bs"
    "contents node_request ((nodes p)(a \<mapsto> create_node data offset, last (s0 # as) \<mapsto> n\<lparr>nnext := Some a\<rparr>)) (as @ [a]) =
       contents node_request (nodes p) as @ [(offset, data)]"
    "contents node_request ((nodes p)(a \<mapsto> create_node data offset, last (s0 # as) \<mapsto> n\<lparr>nnext := Some a\<rparr>)) bs =
       contents node_request (nodes p) bs"
proof -
  obtain cs t where cs: "s0 # as = cs @ [t]" by (metis list.distinct(1) rev_exhaust)
  have t: "last (s0 # as) = t" using cs by (metis last_snoc)
  have ch: "chain nnext (nodes p) (Some s0) (cs @ [t])" using at by (simp only: bb_at_def cs)
  obtain n where n: "nodes p t = Some n" using chain_not_last(2) [OF ch] by blast
  let ?h = "(nodes p)(a \<mapsto> create_node data offset, t \<mapsto> n\<lparr>nnext := Some a\<rparr>)"
  have split: "cs @ [t, a] = s0 # as @ [a]" using cs by (metis append.assoc append_Cons append_Nil)
  have tin: "t \<in> set (s0 # as)" using cs by (metis in_set_conv_decomp)
  then have tb: "t \<notin> set bs" using at by (auto simp: bb_at_def)
  have ab: "a \<notin> set bs" "a \<notin> set (s0 # as)" using at a by (auto simp: bb_at_def)
  have ch': "chain nnext ?h (Some s0) (s0 # as @ [a])"
    using ln.chain_append [OF ch n a, of "create_node data offset"] unfolding split by simp
  have con: "contents node_request ?h (s0 # as @ [a]) = contents node_request (nodes p) (s0 # as) @ [(offset, data)]"
    using ln.contents_append [OF ch n a, of "create_node data offset"] unfolding split cs by simp
  have fr: "chain nnext ?h (flushing p) bs" "contents node_request ?h bs = contents node_request (nodes p) bs"
    using at tb ab by (simp_all add: bb_at_def)
  have dom: "dom ?h = set (s0 # as @ [a]) \<union> set bs"
    using at tin by (auto simp: bb_at_def)
  show thesis
    by (rule that [of n]; unfold t; insert n at ch' con fr dom ab;
        simp only: bb_at_def contents_simps) auto
qed

lemma pwrite_ok:
  assumes rep: "bb_rep b fl ac" and fresh: "fresh_xalloc xalloc"
  obtains (ok) b' where "pwrite xalloc data offset b = (b', Inr 0)" "bb_rep b' fl (ac @ [(offset, data)])"
    | (fail) e where "xalloc (nodes (persistent b)) (32 + length data) = Inl e"
        "pwrite xalloc data offset b = (b, Inr (- e))"
proof -
  from rep obtain s0 as bs where at: "bb_at (persistent b) s0 as bs"
    and ac: "contents node_request (nodes (persistent b)) as = ac"
    and fl: "contents node_request (nodes (persistent b)) bs = fl"
    and tail: "tail_node b = Some (last (s0 # as))" by (auto simp: bb_rep_def)
  show thesis
  proof (cases "xalloc (nodes (persistent b)) (32 + length data)")
    case (Inl e)
    with tail show thesis
      by (intro fail [of e]) (simp_all add: pwrite_def tryPwrite_def makePersistentAtomic_def)
  next
    case (Inr a)
    with fresh have a: "a \<notin> dom (nodes (persistent b))" by (auto simp: fresh_xalloc_def)
    from publish_at [OF at a, of data offset] obtain n where n: "nodes (persistent b) (last (s0 # as)) = Some n"
      and at': "bb_at ((persistent b)\<lparr>nodes := (nodes (persistent b))(a \<mapsto> create_node data offset,
           last (s0 # as) \<mapsto> n\<lparr>nnext := Some a\<rparr>)\<rparr>) s0 (as @ [a]) bs"
      and con: "contents node_request ((nodes (persistent b))(a \<mapsto> create_node data offset,
           last (s0 # as) \<mapsto> n\<lparr>nnext := Some a\<rparr>)) (as @ [a]) = ac @ [(offset, data)]"
      and con': "contents node_request ((nodes (persistent b))(a \<mapsto> create_node data offset,
           last (s0 # as) \<mapsto> n\<lparr>nnext := Some a\<rparr>)) bs = fl"
      unfolding ac fl by blast
    let ?b = "b\<lparr>persistent := (persistent b)\<lparr>nodes := (nodes (persistent b))(a \<mapsto> create_node data offset,
           last (s0 # as) \<mapsto> n\<lparr>nnext := Some a\<rparr>)\<rparr>, tail_node := Some a\<rparr>"
    have "pwrite xalloc data offset b = (?b, Inr 0)"
      using Inr tail n by (simp add: pwrite_def tryPwrite_def makePersistentAtomic_def next_of_def Let_def)
    moreover have "bb_rep ?b fl (ac @ [(offset, data)])"
      by (rule bb_repI [of ?b s0 "as @ [a]" bs]) (use at' con con' in \<open>simp_all del: contents_simps\<close>)
    ultimately show thesis by (rule ok)
  qed
qed

text \<open>What a traversal of a list of requests comes to.\<close>

fun visit :: "'c callback \<Rightarrow> request list \<Rightarrow> 'c \<Rightarrow> 'c \<times> bool res" where
  "visit cb [] c = (c, Inr False)"
| "visit cb (r # rs) c =
     (case cb r c of
        (c', Inl e) \<Rightarrow> (c', Inl e)
      | (c', Inr stop) \<Rightarrow> if stop then (c', Inr True) else visit cb rs c')"

lemma flush_loop_visit:
  "chain nnext h cur bs \<Longrightarrow> flush_loop cb h cur c = Some (visit cb (contents node_request h bs) c)"
proof (induction bs arbitrary: cur c)
  case Nil
  then show ?case by (simp add: flush_loop.simps)
next
  case (Cons a bs)
  then show ?case by (subst flush_loop.simps) (auto split: prod.split sum.split)
qed

lemma for_each_visit:
  "chain nnext h (Some a) (a # as) \<Longrightarrow>
   for_each_loop cb h (Some a) c =
     Some (case visit cb (contents node_request h as) c of (c', r) \<Rightarrow> (c', map_sum id (\<lambda>_. ()) r))"
proof (induction as arbitrary: a c)
  case Nil
  then show ?case by (subst for_each_loop.simps) auto
next
  case (Cons a' as)
  then obtain n m where n: "h a = Some n" "nnext n = Some a'" and m: "h a' = Some m"
    and ch: "chain nnext h (Some a') (a' # as)" by auto
  from n m show ?case
    by (subst for_each_loop.simps) (auto simp: Cons.IH [OF ch] id_def split: prod.split sum.split)
qed

lemma delete_loop_chain:
  "chain nnext h cur bs \<Longrightarrow> delete_loop h cur = Some (Inr (h |` (- set bs)))"
proof (induction bs arbitrary: h cur)
  case Nil
  then show ?case by (subst delete_loop.simps) (simp add: restrict_map_def)
next
  case (Cons a bs)
  then obtain n where n: "cur = Some a" "h a = Some n" and ch: "chain nnext h (nnext n) bs" by auto
  have "a \<notin> set bs" using chain_head_fresh [OF Cons.prems] .
  then have "chain nnext (h(a := None)) (nnext n) bs" using ch by simp
  from Cons.IH [OF this]
  have "delete_loop (h(a := None)) (nnext n) = Some (Inr (h(a := None) |` (- set bs)))" .
  also have "h(a := None) |` (- set bs) = h |` (- set (a # bs))"
    by (auto simp: restrict_map_def fun_eq_iff)
  finally show ?case using n by (subst delete_loop.simps) (simp only: option.case)
qed

lemma tail_loop_chain: "chain nnext h (Some a) (a # as) \<Longrightarrow> tail_loop h a = Some (Inr (last (a # as)))"
proof (induction as arbitrary: a)
  case Nil
  then show ?case by (subst tail_loop.simps) auto
next
  case (Cons a' as)
  then show ?case by (subst tail_loop.simps) auto
qed

lemma contents_cong: "(\<And>a. a \<in> set as \<Longrightarrow> h' a = h a) \<Longrightarrow> contents v h' as = contents v h as"
  by (simp add: contents_def)

lemma lseg_cong: "(\<And>a. a \<in> set as \<Longrightarrow> h' a = h a) \<Longrightarrow> lseg f h' q as r = lseg f h q as r"
  by (induction as arbitrary: q) auto

section \<open>Each operation on the two lists\<close>

lemma forEach_rep:
  "bb_rep b fl ac \<Longrightarrow> forEach cb b c = Some (case visit cb ac c of (c', r) \<Rightarrow> (c', map_sum id (\<lambda>_. ()) r))"
  by (auto simp: bb_rep_def bb_at_def forEach_def for_each_visit simp del: lseg.simps)

lemma enqueue_tx_lists:
  assumes "bb_at p s0 as []"
  obtains p' where "enqueue_tx p = (p', Inr ())" "bb_at p' s0 [] as" "active p' = Some s0"
    "contents node_request (nodes p') as = contents node_request (nodes p) as"
proof -
  from assms obtain n where n: "active p = Some s0" "nodes p s0 = Some n" and ch: "chain nnext (nodes p) (nnext n) as"
    and ch0: "chain nnext (nodes p) (Some s0) (s0 # as)" and dom: "dom (nodes p) = set (s0 # as)"
    by (auto simp: bb_at_def)
  have s0: "s0 \<notin> set as" by (rule chain_head_fresh [OF ch0])
  let ?p = "p\<lparr>flushing := nnext n, nodes := (nodes p)(s0 \<mapsto> n\<lparr>nnext := None\<rparr>)\<rparr>"
  have "enqueue_tx p = (?p, Inr ())" using n by (simp add: enqueue_tx_def)
  moreover have "bb_at ?p s0 [] as" using n ch s0 dom by (auto simp: bb_at_def)
  moreover have "active ?p = Some s0" using n by simp
  moreover have "contents node_request (nodes ?p) as = contents node_request (nodes p) as" using s0 by simp
  ultimately show thesis by (rule that)
qed

lemma enqueue_ok:
  assumes rep: "bb_rep b fl ac" and at: "tx_atomic run"
  obtains (busy) "fl \<noteq> []" "tryEnqueueFlush run b = (b, Inr False)"
    | (moved) b' where "fl = []" "tryEnqueueFlush run b = (b', Inr True)" "bb_rep b' ac []"
    | (failed) "fl = []" "tryEnqueueFlush run b = (b, Inl TxError)"
proof -
  from rep obtain s0 as bs where a: "bb_at (persistent b) s0 as bs"
    and ac: "contents node_request (nodes (persistent b)) as = ac"
    and fl: "contents node_request (nodes (persistent b)) bs = fl" by (auto simp: bb_rep_def)
  show thesis
  proof (cases "fl = []")
    case False
    with fl have "bs \<noteq> []" by auto
    with a have "flushing (persistent b) \<noteq> None" by (auto simp: bb_at_def)
    with False show thesis by (intro busy) (auto simp: tryEnqueueFlush_def)
  next
    case True
    with fl have bs: "bs = []" by simp
    with a have none: "flushing (persistent b) = None" by (simp add: bb_at_def)
    from enqueue_tx_lists [OF a [unfolded bs]] obtain p' where tx: "enqueue_tx (persistent b) = (p', Inr ())"
      and a': "bb_at p' s0 [] as" and act: "active p' = Some s0"
      and con: "contents node_request (nodes p') as = ac" unfolding ac by blast
    let ?b = "b\<lparr>persistent := p', tail_node := Some s0\<rparr>"
    have rep': "bb_rep ?b ac []" by (rule bb_repI [of ?b s0 "[]" as]) (use a' con in auto)
    from at show thesis
      by (cases rule: tx_atomic_cases [where body = enqueue_tx and s = "persistent b"])
         (use True none tx act rep' moved failed in \<open>auto simp: tryEnqueueFlush_def\<close>)
  qed
qed

lemma flush_tx_lists:
  assumes at: "bb_at p s0 as bs"
  obtains p' where "flush_tx p = (p', Inr ())" "bb_at p' s0 as []"
    "contents node_request (nodes p') as = contents node_request (nodes p) as"
proof -
  let ?h = "nodes p |` (- set bs)" and ?p = "p\<lparr>nodes := nodes p |` (- set bs), flushing := None\<rparr>"
  have same: "?h a = nodes p a" if "a \<in> set (s0 # as)" for a
    using that at by (auto simp: bb_at_def restrict_map_def)
  have "delete_loop (nodes p) (flushing p) = Some (Inr ?h)"
    by (rule delete_loop_chain) (use at in \<open>simp add: bb_at_def\<close>)
  then have "flush_tx p = (?p, Inr ())" by (simp add: flush_tx_def)
  moreover have "bb_at ?p s0 as []"
    using at lseg_cong [where h' = ?h and h = "nodes p" and as = "s0 # as", OF same]
    by (auto simp: bb_at_def simp del: lseg.simps)
  moreover have "contents node_request ?h as = contents node_request (nodes p) as"
    by (rule contents_cong) (use same in simp)
  ultimately show thesis by (intro that [of ?p]) simp_all
qed

lemma flushAll_ok:
  assumes rep: "bb_rep b fl ac" and at: "tx_atomic run"
  obtains (stopped) "snd (visit cb fl c) = Inr True" "flushAll run cb b c = (b, fst (visit cb fl c), Inr ())"
    | (threw) e where "snd (visit cb fl c) = Inl e" "flushAll run cb b c = (b, fst (visit cb fl c), Inl e)"
    | (flushed) b' where "snd (visit cb fl c) = Inr False"
        "flushAll run cb b c = (b', fst (visit cb fl c), Inr ())" "bb_rep b' [] ac"
    | (txfail) "snd (visit cb fl c) = Inr False" "flushAll run cb b c = (b, fst (visit cb fl c), Inl TxError)"
proof -
  from rep obtain s0 as bs where a: "bb_at (persistent b) s0 as bs"
    and ac: "contents node_request (nodes (persistent b)) as = ac"
    and fl: "contents node_request (nodes (persistent b)) bs = fl"
    and tail: "tail_node b = Some (last (s0 # as))" by (auto simp: bb_rep_def)
  have loop: "flush_loop cb (nodes (persistent b)) (flushing (persistent b)) c = Some (visit cb fl c)"
    using a flush_loop_visit [of "nodes (persistent b)" "flushing (persistent b)" bs cb c] fl
    by (simp add: bb_at_def)
  obtain c' r where v: "visit cb fl c = (c', r)" by fastforce
  show thesis
  proof (cases r)
    case (Inl e)
    with v loop threw show thesis by (simp add: flushAll_def)
  next
    case (Inr stop)
    show thesis
    proof (cases stop)
      case True
      with Inr v loop stopped show thesis by (simp add: flushAll_def)
    next
      case False
      from flush_tx_lists [OF a] obtain p' where tx: "flush_tx (persistent b) = (p', Inr ())"
        and a': "bb_at p' s0 as []" and con: "contents node_request (nodes p') as = ac" unfolding ac by blast
      have rep': "bb_rep (b\<lparr>persistent := p'\<rparr>) [] ac"
        by (rule bb_repI [of _ s0 as "[]"]) (use a' con tail in auto)
      from at show thesis
        by (cases rule: tx_atomic_cases [where body = flush_tx and s = "persistent b"])
           (use False Inr v loop tx rep' flushed txfail in \<open>auto simp: flushAll_def\<close>)
    qed
  qed
qed

text \<open>Start-up restores the volatile tail from the persistent lists, or creates the sentinel.\<close>

lemma runtimeInitialize_lists:
  assumes "bb_lists p fl ac"
  obtains b where "runtimeInitialize xalloc p = (p, Inr b)" "persistent b = p" "bb_rep b fl ac"
proof -
  from assms obtain s0 as bs where a: "bb_at p s0 as bs"
    and con: "contents node_request (nodes p) as = ac" "contents node_request (nodes p) bs = fl"
    by (auto simp: bb_lists_def)
  let ?b = "\<lparr>persistent = p, tail_node = Some (last (s0 # as))\<rparr>"
  have "tail_loop (nodes p) s0 = Some (Inr (last (s0 # as)))"
    by (rule tail_loop_chain) (use a in \<open>simp add: bb_at_def\<close>)
  then have "runtimeInitialize xalloc p = (p, Inr ?b)"
    using a by (simp add: runtimeInitialize_def bb_at_def)
  moreover have "bb_rep ?b fl ac" by (rule bb_repI [of _ s0 as bs]) (use a con in auto)
  ultimately show thesis by (intro that [of ?b]) simp_all
qed

lemma runtimeInitialize_fresh:
  assumes "fresh_xalloc xalloc"
  obtains (ok) b where "runtimeInitialize xalloc bb_persistent_new = (persistent b, Inr b)" "bb_rep b [] []"
    | (fail) e where "xalloc Map.empty 32 = Inl e"
        "runtimeInitialize xalloc bb_persistent_new = (bb_persistent_new, Inl (SystemError e))"
proof (cases "xalloc Map.empty 32")
  case (Inl e)
  then show thesis
    by (intro fail) (simp_all add: runtimeInitialize_def bb_persistent_new_def makePersistentAtomic_def)
next
  case (Inr a)
  let ?p = "\<lparr>nodes = [a \<mapsto> create_node [] 0], active = Some a, flushing = None\<rparr>"
  let ?b = "\<lparr>persistent = ?p, tail_node = Some a\<rparr>"
  have "tail_loop (nodes ?p) a = Some (Inr (last [a]))" by (rule tail_loop_chain) simp
  then have "runtimeInitialize xalloc bb_persistent_new = (?p, Inr ?b)"
    using Inr by (simp add: runtimeInitialize_def bb_persistent_new_def makePersistentAtomic_def)
  moreover have "bb_rep ?b [] []" by (rule bb_repI [of _ a "[]" "[]"]) (auto simp: bb_at_def)
  ultimately show thesis by (intro ok [of ?b]) simp_all
qed

section \<open>Runs of operations\<close>

text \<open>
  An abstract burst buffer is the pair of request lists. A run interleaves writes, hand-overs to
  the flusher, flushes and crashes; a crash loses the volatile part and restarts from the
  persistent one. The log keeps what each operation returned.
\<close>

datatype 'c bb_op = Write string int | Enqueue | Flush "'c callback" | Restart

datatype 'c bb_event =
    Wrote string int "int res"
  | Enqueued "bool res"
  | Flushed "'c callback" "unit res"
  | Restarted "unit res"

fun bb_exec ::
  "xalloc \<Rightarrow> (bb_persistent, unit) tx_run \<Rightarrow> 'c bb_op \<Rightarrow> burst_buffer \<times> 'c \<Rightarrow> (burst_buffer \<times> 'c) \<times> 'c bb_event"
where
  "bb_exec xalloc run (Write data offset) (b, c) =
     (case pwrite xalloc data offset b of (b', r) \<Rightarrow> ((b', c), Wrote data offset r))"
| "bb_exec xalloc run Enqueue (b, c) =
     (case tryEnqueueFlush run b of (b', r) \<Rightarrow> ((b', c), Enqueued r))"
| "bb_exec xalloc run (Flush cb) (b, c) =
     (case flushAll run cb b c of (b', c', r) \<Rightarrow> ((b', c'), Flushed cb r))"
| "bb_exec xalloc run Restart (b, c) =
     (case runtimeInitialize xalloc (persistent b) of
        (p, Inl e) \<Rightarrow> ((b\<lparr>persistent := p\<rparr>, c), Restarted (Inl e))
      | (p, Inr b') \<Rightarrow> ((b', c), Restarted (Inr ())))"

fun bb_run ::
  "xalloc \<Rightarrow> (bb_persistent, unit) tx_run \<Rightarrow> 'c bb_op list \<Rightarrow> burst_buffer \<times> 'c \<Rightarrow>
   (burst_buffer \<times> 'c) \<times> 'c bb_event list"
where
  "bb_run xalloc run [] s = (s, [])"
| "bb_run xalloc run (op # ops) s =
     (case bb_exec xalloc run op s of (s', ev) \<Rightarrow>
      case bb_run xalloc run ops s' of (s'', evs) \<Rightarrow> (s'', ev # evs))"

text \<open>The abstract machine: which results are possible, and what they do to the two lists.\<close>

fun bb_spec :: "'c bb_event \<Rightarrow> request list \<times> request list \<times> 'c \<Rightarrow> (request list \<times> request list \<times> 'c) option" where
  "bb_spec (Wrote data offset (Inr r)) (fl, ac, c) =
     Some (if r = 0 then (fl, ac @ [(offset, data)], c) else (fl, ac, c))"
| "bb_spec (Wrote data offset (Inl e)) s = None"
| "bb_spec (Enqueued (Inr moved)) (fl, ac, c) =
     (if moved then if fl = [] then Some (ac, [], c) else None
      else if fl = [] then None else Some (fl, ac, c))"
| "bb_spec (Enqueued (Inl e)) (fl, ac, c) = (if e = TxError \<and> fl = [] then Some (fl, ac, c) else None)"
| "bb_spec (Flushed cb r) (fl, ac, c) =
     (case visit cb fl c of
        (c', Inl e) \<Rightarrow> if r = Inl e then Some (fl, ac, c') else None
      | (c', Inr True) \<Rightarrow> if r = Inr () then Some (fl, ac, c') else None
      | (c', Inr False) \<Rightarrow>
          if r = Inr () then Some ([], ac, c') else if r = Inl TxError then Some (fl, ac, c') else None)"
| "bb_spec (Restarted r) s = (if r = Inr () then Some s else None)"

fun bb_specs :: "'c bb_event list \<Rightarrow> request list \<times> request list \<times> 'c \<Rightarrow> (request list \<times> request list \<times> 'c) option" where
  "bb_specs [] s = Some s"
| "bb_specs (ev # evs) s = (case bb_spec ev s of None \<Rightarrow> None | Some s' \<Rightarrow> bb_specs evs s')"

definition bb_sim :: "burst_buffer \<times> 'c \<Rightarrow> request list \<times> request list \<times> 'c \<Rightarrow> bool" where
  "bb_sim s t \<longleftrightarrow> bb_rep (fst s) (fst t) (fst (snd t)) \<and> snd s = snd (snd t)"

lemma bb_exec_spec:
  assumes fresh: "fresh_xalloc xalloc" and at: "tx_atomic run" and sim: "bb_sim s t"
    and ex: "bb_exec xalloc run op s = (s', ev)"
  obtains t' where "bb_spec ev t = Some t'" "bb_sim s' t'"
proof -
  obtain b c where s: "s = (b, c)" by fastforce
  obtain fl ac where t: "t = (fl, ac, c)" and rep: "bb_rep b fl ac"
    using sim s by (cases t) (auto simp: bb_sim_def)
  show thesis
  proof (cases op)
    case (Write data offset)
    from rep fresh show thesis
    proof (cases rule: pwrite_ok [where data = data and offset = offset])
      case (ok b')
      with ex Write s t show thesis by (intro that [of "(fl, ac @ [(offset, data)], c)"]) (auto simp: bb_sim_def)
    next
      case (fail e)
      moreover have "e \<noteq> 0" using fail(1) fresh unfolding fresh_xalloc_def by (metis less_irrefl)
      ultimately show thesis using ex Write s t rep by (intro that [of t]) (auto simp: bb_sim_def)
    qed
  next
    case Enqueue
    from rep at show thesis
      by (cases rule: enqueue_ok) (use ex Enqueue s t rep that in \<open>auto simp: bb_sim_def\<close>)
  next
    case (Flush cb)
    obtain c' r where v: "visit cb fl c = (c', r)" by fastforce
    from rep at show thesis
      by (cases rule: flushAll_ok [where cb = cb and c = c])
         (use ex Flush s t rep v that in \<open>auto simp: bb_sim_def\<close>)
  next
    case Restart
    from bb_rep_lists [OF rep] obtain b' where
      "runtimeInitialize xalloc (persistent b) = (persistent b, Inr b')" "bb_rep b' fl ac"
      by (rule runtimeInitialize_lists)
    with ex Restart s t show thesis by (intro that [of t]) (auto simp: bb_sim_def)
  qed
qed

lemma bb_run_spec:
  assumes "fresh_xalloc xalloc" and "tx_atomic run"
  shows "bb_sim s t \<Longrightarrow> bb_run xalloc run ops s = (s', evs) \<Longrightarrow>
    \<exists>t'. bb_specs evs t = Some t' \<and> bb_sim s' t'"
proof (induction ops arbitrary: s t evs)
  case (Cons op ops)
  obtain s1 ev where ex: "bb_exec xalloc run op s = (s1, ev)" by fastforce
  obtain evs' where rest: "bb_run xalloc run ops s1 = (s', evs')" and evs: "evs = ev # evs'"
    using Cons.prems(2) ex by (auto split: prod.splits)
  from bb_exec_spec [OF assms Cons.prems(1) ex] obtain t1 where "bb_spec ev t = Some t1" "bb_sim s1 t1" .
  with Cons.IH [OF _ rest] evs show ?case by auto
qed auto

text \<open>
  C2. The burst buffer refines a pair of request lists. From an initialised buffer, any sequence
  of writes, hand-overs to the flusher, flushes with arbitrary callbacks and crashes with restart
  yields only results the abstract machine allows: a write returns 0 and appends its request, or
  a negative error number and changes nothing; a hand-over moves all collected requests if
  nothing is being flushed and otherwise returns false; a flush shows the callback the requests
  in order and frees them only if the callback saw them all; a restart changes nothing. In
  particular no pointer is ever dangling, no loop runs for ever, and the pool holds exactly the
  nodes of the two lists.
\<close>

theorem burst_buffer_refines:
  assumes "fresh_xalloc xalloc" and "tx_atomic run"
    and "runtimeInitialize xalloc bb_persistent_new = (p, Inr b)"
    and "bb_run xalloc run ops (b, c) = ((b', c'), evs)"
  shows "\<exists>fl ac. bb_specs evs ([], [], c) = Some (fl, ac, c') \<and> bb_rep b' fl ac"
proof -
  from assms(1) have "bb_rep b [] []"
    by (cases rule: runtimeInitialize_fresh) (use assms(3) in auto)
  then have "bb_sim (b, c) ([], [], c)" by (simp add: bb_sim_def)
  from bb_run_spec [OF assms(1,2) this assms(4)] show ?thesis by (auto simp: bb_sim_def)
qed

text \<open>An allocator with room for three nodes, for concrete runs (12 is \<open>ENOMEM\<close>).\<close>

definition small_xalloc :: xalloc where
  "small_xalloc h n =
     (if h 0 = None then Inr 0 else if h 1 = None then Inr 1 else if h 2 = None then Inr 2 else Inl 12)"

lemma small_xalloc_fresh: "fresh_xalloc small_xalloc"
  by (auto simp: fresh_xalloc_def small_xalloc_def split: if_splits)

theorem burst_buffer_refines_witness:
  "\<exists>p b b' c' evs fl ac. runtimeInitialize small_xalloc bb_persistent_new = (p, Inr b) \<and>
     bb_run small_xalloc tx_plain
       [Write ''ab'' 0, Enqueue, Write ''c'' 2, Restart, Flush (\<lambda>r c. (c @ [r], Inr False))] (b, []) = ((b', c'), evs) \<and>
     bb_specs evs ([], [], []) = Some (fl, ac, c') \<and> bb_rep b' fl ac"
proof -
  obtain p b where init: "runtimeInitialize small_xalloc bb_persistent_new = (p, Inr b)"
    using small_xalloc_fresh by (cases rule: runtimeInitialize_fresh) (auto simp: small_xalloc_def)
  obtain b' c' evs where run: "bb_run small_xalloc tx_plain
      [Write ''ab'' 0, Enqueue, Write ''c'' 2, Restart, Flush (\<lambda>r c. (c @ [r], Inr False))] (b, []) = ((b', c'), evs)"
    by (metis surj_pair)
  from burst_buffer_refines [OF small_xalloc_fresh tx_plain_atomic init run] init run show ?thesis by blast
qed

end
