(* ===== verification/Burst_Buffer_Threads.thy ===== *)
theory Burst_Buffer_Threads
  imports Burst_Buffer "HOL-Library.Sublist"
begin

text \<open>
  The two threads that \<open>main\<close> of \<open>pmembb_list\<close> starts on one burst buffer: a writer that repeats
  two \<open>pwrite\<close>s and a \<open>tryEnqueueFlush\<close>, and a flusher that repeats \<open>flushAll\<close> with a callback
  that never stops the traversal. Every operation is cut where another thread can run:
  publishing a node, moving the volatile tail, taking and releasing the mutex, each test, each
  callback, each transaction. \<open>pwrite\<close> takes no mutex. The steps are built from the pieces of the
  sequential operations. An exception that leaves a thread function ends the program. The last part
  follows the program over many lives on one pool, each of which may be cut off anywhere.
\<close>

section \<open>Definitions\<close>

datatype owner = WriterT | FlusherT

datatype writer_pc = WWrite nat | WTail nat | WLock | WCheck | WTx | WSetTail | WUnlock | WDone
datatype flusher_pc = FLock | FRead | FLoop | FTx | FUnlock | FDone

record bb_threads =
  buffer :: burst_buffer
  flush_mutex :: "owner option"
  wpc :: writer_pc
  wleft :: nat
  fpc :: flusher_pc
  fleft :: nat
  fcur :: "addr option"
  written :: "request list"
  seen :: "request list"
  stopped :: "exn option"

text \<open>The requests of one round of the writer, and where it goes after the \<open>i\<close>-th.\<close>

definition requests :: "request list" where
  "requests = [(0, ''hello''), (5, ''burst buffer'')]"

definition after_write :: "nat \<Rightarrow> writer_pc" where
  "after_write i = (if i + 1 < length requests then WWrite (i + 1) else WLock)"

definition stop :: "exn \<Rightarrow> bb_threads \<Rightarrow> bb_threads" where
  "stop e s = s\<lparr>stopped := Some e\<rparr>"

definition set_persistent :: "bb_persistent \<Rightarrow> bb_threads \<Rightarrow> bb_threads" where
  "set_persistent p s = s\<lparr>buffer := (buffer s)\<lparr>persistent := p\<rparr>\<rparr>"

definition set_tail :: "addr option \<Rightarrow> bb_threads \<Rightarrow> bb_threads" where
  "set_tail a s = s\<lparr>buffer := (buffer s)\<lparr>tail_node := a\<rparr>\<rparr>"

definition writer_step ::
  "xalloc \<Rightarrow> (bb_persistent, unit) tx_run \<Rightarrow> bb_threads \<Rightarrow> bb_threads option"
where
  "writer_step xalloc run s =
     (let p = persistent (buffer s) in
      case wpc s of
        WWrite i \<Rightarrow>
          Some (case tail_node (buffer s) of
                  None \<Rightarrow> stop Undefined s
                | Some t \<Rightarrow>
                    (case makePersistentAtomic xalloc (NextOf t) (snd (requests ! i)) (fst (requests ! i)) p of
                       (p', Inr _) \<Rightarrow>
                         (set_persistent p' s)\<lparr>wpc := WTail i, written := written s @ [requests ! i]\<rparr>
                     | (p', Inl (SystemError e)) \<Rightarrow> (set_persistent p' s)\<lparr>wpc := after_write i\<rparr>
                     | (p', Inl e) \<Rightarrow> stop e s))
      | WTail i \<Rightarrow>
          Some (case next_of p (tail_node (buffer s)) of
                  Inl e \<Rightarrow> stop e s
                | Inr a \<Rightarrow> (set_tail a s)\<lparr>wpc := after_write i\<rparr>)
      | WLock \<Rightarrow>
          if flush_mutex s = None then Some (s\<lparr>flush_mutex := Some WriterT, wpc := WCheck\<rparr>) else None
      | WCheck \<Rightarrow> Some (s\<lparr>wpc := if flushing p \<noteq> None then WUnlock else WTx\<rparr>)
      | WTx \<Rightarrow>
          Some (case run enqueue_tx p of
                  (p', Inl e) \<Rightarrow> stop e (set_persistent p' s)
                | (p', Inr _) \<Rightarrow> (set_persistent p' s)\<lparr>wpc := WSetTail\<rparr>)
      | WSetTail \<Rightarrow> Some ((set_tail (active p) s)\<lparr>wpc := WUnlock\<rparr>)
      | WUnlock \<Rightarrow>
          Some (s\<lparr>flush_mutex := None, wleft := wleft s - 1, wpc := if wleft s - 1 = 0 then WDone else WWrite 0\<rparr>)
      | WDone \<Rightarrow> None)"

definition flusher_step :: "(bb_persistent, unit) tx_run \<Rightarrow> bb_threads \<Rightarrow> bb_threads option" where
  "flusher_step run s =
     (let p = persistent (buffer s) in
      case fpc s of
        FLock \<Rightarrow>
          if flush_mutex s = None then Some (s\<lparr>flush_mutex := Some FlusherT, fpc := FRead\<rparr>) else None
      | FRead \<Rightarrow> Some (s\<lparr>fcur := flushing p, fpc := FLoop\<rparr>)
      | FLoop \<Rightarrow>
          Some (case fcur s of
                  None \<Rightarrow> s\<lparr>fpc := FTx\<rparr>
                | Some a \<Rightarrow>
                    (case nodes p a of
                       None \<Rightarrow> stop Undefined s
                     | Some n \<Rightarrow> s\<lparr>seen := seen s @ [node_request n], fcur := nnext n\<rparr>))
      | FTx \<Rightarrow>
          Some (case run flush_tx p of
                  (p', Inl e) \<Rightarrow> stop e (set_persistent p' s)
                | (p', Inr _) \<Rightarrow> (set_persistent p' s)\<lparr>fpc := FUnlock\<rparr>)
      | FUnlock \<Rightarrow>
          Some (s\<lparr>flush_mutex := None, fleft := fleft s - 1, fpc := if fleft s - 1 = 0 then FDone else FLock\<rparr>)
      | FDone \<Rightarrow> None)"

inductive bb_step :: "bb_threads \<Rightarrow> bb_threads \<Rightarrow> bool" where
  writer: "stopped s = None \<Longrightarrow> fresh_xalloc xalloc \<Longrightarrow> tx_atomic run \<Longrightarrow>
    writer_step xalloc run s = Some t \<Longrightarrow> bb_step s t"
| flusher: "stopped s = None \<Longrightarrow> tx_atomic run \<Longrightarrow> flusher_step run s = Some t \<Longrightarrow> bb_step s t"

text \<open>
  The threads start on an initialised buffer, with \<open>K\<close> rounds each (1000 in the program);
  \<open>old\<close> are the requests an earlier run of the program left in the pool, in order.
\<close>

definition threads_new :: "nat \<Rightarrow> burst_buffer \<Rightarrow> request list \<Rightarrow> bb_threads" where
  "threads_new K b old = \<lparr>buffer = b, flush_mutex = None, wpc = if K = 0 then WDone else WWrite 0, wleft = K,
     fpc = if K = 0 then FDone else FLock, fleft = K, fcur = None, written = old, seen = [], stopped = None\<rparr>"

text \<open>
  The program started over and over on one pool. A life initialises the buffer, runs the threads
  and ends anywhere: regularly, by an exception or by a power failure, which leaves the persistent
  part. A start may also fail for want of memory for the sentinel. The list has, for every life that got as
  far as its threads, the requests it published and those its callback saw.
\<close>

inductive bb_lives :: "nat \<Rightarrow> (request list \<times> request list) list \<Rightarrow> bb_persistent \<Rightarrow> bool" for K where
  created: "bb_lives K [] bb_persistent_new"
| failed_start: "bb_lives K ls p \<Longrightarrow> fresh_xalloc xalloc \<Longrightarrow> runtimeInitialize xalloc p = (p', Inl e) \<Longrightarrow>
    bb_lives K ls p'"
| life: "bb_lives K ls p \<Longrightarrow> fresh_xalloc xalloc \<Longrightarrow> runtimeInitialize xalloc p = (p', Inr b) \<Longrightarrow>
    bb_step\<^sup>*\<^sup>* (threads_new K b []) s \<Longrightarrow>
    bb_lives K (ls @ [(written s, seen s)]) (persistent (buffer s))"

section \<open>Invariant\<close>

definition w_critical :: "writer_pc \<Rightarrow> bool" where
  "w_critical pc \<longleftrightarrow> pc \<in> {WCheck, WTx, WSetTail, WUnlock}"

definition f_critical :: "flusher_pc \<Rightarrow> bool" where
  "f_critical pc \<longleftrightarrow> pc \<in> {FRead, FLoop, FTx, FUnlock}"

definition mutex_ok :: "bb_threads \<Rightarrow> bool" where
  "mutex_ok s \<longleftrightarrow> (flush_mutex s = Some WriterT \<longleftrightarrow> w_critical (wpc s)) \<and>
     (flush_mutex s = Some FlusherT \<longleftrightarrow> f_critical (fpc s))"

text \<open>Where the volatile tail points, seen from the writer.\<close>

fun tail_ok :: "writer_pc \<Rightarrow> addr option \<Rightarrow> addr \<Rightarrow> addr list \<Rightarrow> bool" where
  "tail_ok (WTail i) t s0 as \<longleftrightarrow> i < length requests \<and> as \<noteq> [] \<and> t = Some (last (s0 # butlast as))"
| "tail_ok WSetTail t s0 as \<longleftrightarrow> as = []"
| "tail_ok (WWrite i) t s0 as \<longleftrightarrow> i < length requests \<and> t = Some (last (s0 # as))"
| "tail_ok pc t s0 as \<longleftrightarrow> t = Some (last (s0 # as))"

text \<open>The requests in flight: freed ones, then those of the two lists, are all that were written.\<close>

definition flow_ok :: "bb_threads \<Rightarrow> request list \<Rightarrow> addr list \<Rightarrow> addr list \<Rightarrow> bool" where
  "flow_ok s freed as bs \<longleftrightarrow>
     (let h = nodes (persistent (buffer s)) in
      written s = freed @ contents node_request h bs @ contents node_request h as \<and>
      (case fpc s of
         FLoop \<Rightarrow> \<exists>cs ds. bs = cs @ ds \<and> chain nnext h (fcur s) ds \<and> seen s = freed @ contents node_request h cs
       | FTx \<Rightarrow> seen s = freed @ contents node_request h bs
       | _ \<Rightarrow> seen s = freed))"

definition bb_inv :: "bb_threads \<Rightarrow> bool" where
  "bb_inv s \<longleftrightarrow> stopped s \<noteq> Some Undefined \<and> mutex_ok s \<and>
     (\<exists>s0 as bs freed. bb_at (persistent (buffer s)) s0 as bs \<and> tail_ok (wpc s) (tail_node (buffer s)) s0 as \<and>
        (wpc s = WTx \<longrightarrow> bs = []) \<and> flow_ok s freed as bs)"

lemma bb_invI:
  "stopped s \<noteq> Some Undefined \<Longrightarrow> mutex_ok s \<Longrightarrow> bb_at (persistent (buffer s)) s0 as bs \<Longrightarrow>
   tail_ok (wpc s) (tail_node (buffer s)) s0 as \<Longrightarrow> (wpc s = WTx \<Longrightarrow> bs = []) \<Longrightarrow>
   flow_ok s freed as bs \<Longrightarrow> bb_inv s"
  by (auto simp: bb_inv_def)

lemma bb_invE:
  assumes "bb_inv s"
  obtains s0 as bs freed where "stopped s \<noteq> Some Undefined" "mutex_ok s"
    "bb_at (persistent (buffer s)) s0 as bs" "tail_ok (wpc s) (tail_node (buffer s)) s0 as"
    "wpc s = WTx \<longrightarrow> bs = []" "flow_ok s freed as bs"
  using assms by (auto simp: bb_inv_def)

lemma tail_ok_after_write: "tail_ok (after_write i) t s0 as \<longleftrightarrow> t = Some (last (s0 # as))"
  by (simp add: after_write_def)

lemma after_write_simps [simp]: "after_write i \<noteq> WTx" "\<not> w_critical (after_write i)"
  by (simp_all add: after_write_def w_critical_def)

lemma crit_simps [simp]:
  "w_critical WCheck" "w_critical WTx" "w_critical WSetTail" "w_critical WUnlock"
  "\<not> w_critical WLock" "\<not> w_critical WDone" "\<not> w_critical (WWrite i)" "\<not> w_critical (WTail i)"
  "f_critical FRead" "f_critical FLoop" "f_critical FTx" "f_critical FUnlock"
  "\<not> f_critical FLock" "\<not> f_critical FDone"
  by (simp_all add: w_critical_def f_critical_def)

lemma set_simps [simp]:
  "persistent (buffer (set_persistent p s)) = p" "tail_node (buffer (set_persistent p s)) = tail_node (buffer s)"
  "persistent (buffer (set_tail a s)) = persistent (buffer s)" "tail_node (buffer (set_tail a s)) = a"
  "wpc (set_persistent p s) = wpc s" "fpc (set_persistent p s) = fpc s" "fcur (set_persistent p s) = fcur s"
  "written (set_persistent p s) = written s" "seen (set_persistent p s) = seen s"
  "stopped (set_persistent p s) = stopped s" "flush_mutex (set_persistent p s) = flush_mutex s"
  "wpc (set_tail a s) = wpc s" "fpc (set_tail a s) = fpc s" "fcur (set_tail a s) = fcur s"
  "written (set_tail a s) = written s" "seen (set_tail a s) = seen s"
  "stopped (set_tail a s) = stopped s" "flush_mutex (set_tail a s) = flush_mutex s"
  "wleft (set_persistent p s) = wleft s" "fleft (set_persistent p s) = fleft s"
  "wleft (set_tail a s) = wleft s" "fleft (set_tail a s) = fleft s"
  "set_persistent (persistent (buffer s)) s = s"
  by (simp_all add: set_persistent_def set_tail_def)

text \<open>Changes outside the flushing list do not disturb the flusher.\<close>

lemma flow_transfer:
  assumes flow: "flow_ok s freed as bs"
    and same: "\<And>x. x \<in> set bs \<Longrightarrow> nodes (persistent (buffer s')) x = nodes (persistent (buffer s)) x"
    and "written s' = written s @ new"
    and "contents node_request (nodes (persistent (buffer s'))) as' =
      contents node_request (nodes (persistent (buffer s))) as @ new"
    and "fpc s' = fpc s" "fcur s' = fcur s" "seen s' = seen s"
  shows "flow_ok s' freed as' bs"
proof -
  have con: "contents node_request (nodes (persistent (buffer s'))) cs = contents node_request (nodes (persistent (buffer s))) cs"
    and ch: "lseg nnext (nodes (persistent (buffer s'))) q cs r = lseg nnext (nodes (persistent (buffer s))) q cs r"
    if "set cs \<subseteq> set bs" for cs q r
    using that same by (auto intro!: contents_cong lseg_cong)
  have all: "written s' = freed @ contents node_request (nodes (persistent (buffer s'))) bs @
      contents node_request (nodes (persistent (buffer s'))) as'"
    using assms con [of bs] by (simp add: flow_ok_def Let_def)
  show ?thesis
  proof (cases "fpc s = FLoop")
    case True
    with flow obtain cs ds where "bs = cs @ ds" "chain nnext (nodes (persistent (buffer s))) (fcur s) ds"
      "seen s = freed @ contents node_request (nodes (persistent (buffer s))) cs"
      by (auto simp: flow_ok_def Let_def)
    then have "\<exists>cs ds. bs = cs @ ds \<and> chain nnext (nodes (persistent (buffer s'))) (fcur s') ds \<and>
        seen s' = freed @ contents node_request (nodes (persistent (buffer s'))) cs"
      using assms(6,7) con [of cs] ch [of ds] by (intro exI [of _ cs] exI [of _ ds]) simp
    with True all assms(5) show ?thesis by (simp add: flow_ok_def Let_def)
  next
    case False
    with all flow assms(5-) con [of bs] show ?thesis by (cases "fpc s") (auto simp: flow_ok_def Let_def)
  qed
qed

lemma flow_same:
  "flow_ok s freed as bs \<Longrightarrow> persistent (buffer s') = persistent (buffer s) \<Longrightarrow> written s' = written s \<Longrightarrow>
   fpc s' = fpc s \<Longrightarrow> fcur s' = fcur s \<Longrightarrow> seen s' = seen s \<Longrightarrow> flow_ok s' freed as bs"
  by (rule flow_transfer [where new = "[]"]) simp_all

lemma stop_inv: "bb_inv s \<Longrightarrow> e \<noteq> Undefined \<Longrightarrow> bb_inv (stop e s)"
  by (erule bb_invE, rule bb_invI) (auto simp: stop_def mutex_ok_def intro: flow_same)

section \<open>Every step keeps it\<close>

lemma write_inv:
  assumes inv: "bb_inv s" and pc: "wpc s = WWrite i" and fresh: "fresh_xalloc xalloc"
    and step: "writer_step xalloc run s = Some t"
  shows "bb_inv t"
proof -
  let ?p = "persistent (buffer s)"
  from inv obtain s0 as bs freed where un: "stopped s \<noteq> Some Undefined" and mu: "mutex_ok s"
    and at: "bb_at ?p s0 as bs" and tl: "tail_ok (wpc s) (tail_node (buffer s)) s0 as"
    and flow: "flow_ok s freed as bs" by (elim bb_invE)
  have i: "i < length requests" and tail: "tail_node (buffer s) = Some (last (s0 # as))"
    using tl pc by simp_all
  obtain off data where req: "requests ! i = (off, data)" by fastforce
  show ?thesis
  proof (cases "xalloc (nodes ?p) (32 + length data)")
    case (Inl e)
    then have t: "t = s\<lparr>wpc := after_write i\<rparr>"
      using step pc tail req by (simp add: writer_step_def makePersistentAtomic_def)
    show ?thesis
      by (rule bb_invI [of t s0 as bs freed]; insert un mu at tail flow pc)
         (auto simp: t tail_ok_after_write mutex_ok_def intro: flow_same)
  next
    case (Inr a)
    with fresh have a: "a \<notin> dom (nodes ?p)" by (auto simp: fresh_xalloc_def)
    let ?h = "\<lambda>n. (nodes ?p)(a \<mapsto> create_node data off, last (s0 # as) \<mapsto> n\<lparr>nnext := Some a\<rparr>)"
    from publish_at [OF at a, of data off] obtain n where n: "nodes ?p (last (s0 # as)) = Some n"
      and at': "bb_at (?p\<lparr>nodes := ?h n\<rparr>) s0 (as @ [a]) bs"
      and con: "contents node_request (?h n) (as @ [a]) = contents node_request (nodes ?p) as @ [(off, data)]"
      by blast
    have t: "t = (set_persistent (?p\<lparr>nodes := ?h n\<rparr>) s)\<lparr>wpc := WTail i, written := written s @ [(off, data)]\<rparr>"
      using step pc tail req Inr n by (simp add: writer_step_def makePersistentAtomic_def Let_def)
    have "last (s0 # as) \<in> set (s0 # as)" by (rule last_in_set) simp
    then have "x \<noteq> a \<and> x \<noteq> last (s0 # as)" if "x \<in> set bs" for x
      using that at a by (auto simp: bb_at_def)
    then have "flow_ok t freed (as @ [a]) bs"
      by (intro flow_transfer [OF flow, of t "[(off, data)]"]) (use con in \<open>simp_all add: t del: contents_simps last.simps\<close>)
    then show ?thesis
      by (intro bb_invI [of t s0 "as @ [a]" bs freed]) (use un mu at' i pc tail in \<open>simp_all add: t mutex_ok_def\<close>)
  qed
qed

lemma chain_snoc_next:
  assumes "chain nxt h p (xs @ [y, z])"
  shows "\<exists>n. h y = Some n \<and> nxt n = Some z"
  using assms by (auto simp: lseg_append)

lemma tail_inv:
  assumes inv: "bb_inv s" and pc: "wpc s = WTail i" and step: "writer_step xalloc run s = Some t"
  shows "bb_inv t"
proof -
  let ?p = "persistent (buffer s)"
  from inv obtain s0 as bs freed where un: "stopped s \<noteq> Some Undefined" and mu: "mutex_ok s"
    and at: "bb_at ?p s0 as bs" and tl: "tail_ok (wpc s) (tail_node (buffer s)) s0 as"
    and flow: "flow_ok s freed as bs" by (elim bb_invE)
  have ne: "as \<noteq> []" and tail: "tail_node (buffer s) = Some (last (s0 # butlast as))"
    using tl pc by simp_all
  have "s0 # as = butlast (s0 # butlast as) @ [last (s0 # butlast as), last as]"
    using ne by (metis append.assoc append_Cons append_Nil append_butlast_last_id list.distinct(1))
  then have "chain nnext (nodes ?p) (Some s0) (butlast (s0 # butlast as) @ [last (s0 # butlast as), last as])"
    using at by (metis bb_at_def)
  from chain_snoc_next [OF this] have t: "t = (set_tail (Some (last as)) s)\<lparr>wpc := after_write i\<rparr>"
    using step pc tail by (auto simp: writer_step_def next_of_def)
  show ?thesis
    by (intro bb_invI [of t s0 as bs freed])
       (use un mu at ne flow pc in \<open>auto simp: t tail_ok_after_write mutex_ok_def intro: flow_same\<close>)
qed

lemma flusher_outside: "mutex_ok s \<Longrightarrow> w_critical (wpc s) \<Longrightarrow> fpc s = FLock \<or> fpc s = FDone"
  by (cases "fpc s") (auto simp: mutex_ok_def)

lemma writer_outside: "mutex_ok s \<Longrightarrow> f_critical (fpc s) \<Longrightarrow> \<not> w_critical (wpc s)"
  by (auto simp: mutex_ok_def)

lemma enqueue_tx_inv:
  assumes inv: "bb_inv s" and pc: "wpc s = WTx" and atomic: "tx_atomic run"
    and step: "writer_step xalloc run s = Some t"
  shows "bb_inv t"
proof -
  let ?p = "persistent (buffer s)"
  from inv obtain s0 as bs freed where un: "stopped s \<noteq> Some Undefined" and mu: "mutex_ok s"
    and at: "bb_at ?p s0 as bs" and bs: "wpc s = WTx \<longrightarrow> bs = []"
    and flow: "flow_ok s freed as bs" by (elim bb_invE)
  from enqueue_tx_lists [OF at [unfolded bs [rule_format, OF pc]]]
  obtain p' where tx: "enqueue_tx ?p = (p', Inr ())" and at': "bb_at p' s0 [] as"
    and con: "contents node_request (nodes p') as = contents node_request (nodes ?p) as" by metis
  from atomic show ?thesis
  proof (cases rule: tx_atomic_cases [where body = enqueue_tx and s = ?p])
    case (commit p'' u)
    then have t: "t = (set_persistent p' s)\<lparr>wpc := WSetTail\<rparr>"
      using step pc tx by (simp add: writer_step_def)
    have "flow_ok t freed [] as"
      using flow bs pc con flusher_outside [OF mu] by (auto simp: t flow_ok_def Let_def)
    then show ?thesis
      by (intro bb_invI [of t s0 "[]" as freed]) (use un mu at' pc in \<open>auto simp: t mutex_ok_def\<close>)
  next
    case failed
    then have "t = stop TxError s" using step pc by (simp add: writer_step_def)
    then show ?thesis using stop_inv [OF inv] by simp
  qed (use tx in simp)
qed

lemma writer_other_inv:
  assumes inv: "bb_inv s" and step: "writer_step xalloc run s = Some t"
    and pc: "wpc s = WLock \<or> wpc s = WCheck \<or> wpc s = WSetTail \<or> wpc s = WUnlock"
  shows "bb_inv t"
proof -
  from inv obtain s0 as bs freed where un: "stopped s \<noteq> Some Undefined" and mu: "mutex_ok s"
    and at: "bb_at (persistent (buffer s)) s0 as bs" and tl: "tail_ok (wpc s) (tail_node (buffer s)) s0 as"
    and flow: "flow_ok s freed as bs" by (elim bb_invE)
  let ?p = "persistent (buffer s)"
  have act: "active ?p = Some s0" and ch: "chain nnext (nodes ?p) (flushing ?p) bs"
    using at by (simp_all add: bb_at_def)
  have "persistent (buffer t) = ?p \<and> written t = written s \<and> fpc t = fpc s \<and> fcur t = fcur s \<and>
      seen t = seen s \<and> stopped t = stopped s \<and> mutex_ok t \<and>
      tail_ok (wpc t) (tail_node (buffer t)) s0 as \<and> (wpc t = WTx \<longrightarrow> bs = [])"
    using pc
  proof (elim disjE)
    assume "wpc s = WLock"
    with step mu tl show ?thesis by (auto simp: writer_step_def mutex_ok_def split: if_splits)
  next
    assume "wpc s = WCheck"
    with step mu tl ch show ?thesis by (auto simp: writer_step_def mutex_ok_def split: if_splits)
  next
    assume "wpc s = WSetTail"
    with step mu tl act show ?thesis by (auto simp: writer_step_def mutex_ok_def)
  next
    assume "wpc s = WUnlock"
    with step mu tl show ?thesis by (auto simp: writer_step_def mutex_ok_def requests_def split: if_splits)
  qed
  then show ?thesis
    by (intro bb_invI [of t s0 as bs freed]) (use un at flow_same [OF flow] in simp_all)
qed

lemma writer_inv:
  assumes inv: "bb_inv s" and "fresh_xalloc xalloc" and "tx_atomic run"
    and step: "writer_step xalloc run s = Some t"
  shows "bb_inv t"
proof (cases "wpc s")
  case WDone
  with step show ?thesis by (simp add: writer_step_def)
qed (use assms write_inv tail_inv enqueue_tx_inv writer_other_inv in blast)+

lemma flush_tx_inv:
  assumes inv: "bb_inv s" and pc: "fpc s = FTx" and atomic: "tx_atomic run"
    and step: "flusher_step run s = Some t"
  shows "bb_inv t"
proof -
  let ?p = "persistent (buffer s)"
  from inv obtain s0 as bs freed where un: "stopped s \<noteq> Some Undefined" and mu: "mutex_ok s"
    and at: "bb_at ?p s0 as bs" and tl: "tail_ok (wpc s) (tail_node (buffer s)) s0 as"
    and flow: "flow_ok s freed as bs" by (elim bb_invE)
  from flush_tx_lists [OF at]
  obtain p' where tx: "flush_tx ?p = (p', Inr ())" and at': "bb_at p' s0 as []"
    and con: "contents node_request (nodes p') as = contents node_request (nodes ?p) as" by metis
  from atomic show ?thesis
  proof (cases rule: tx_atomic_cases [where body = flush_tx and s = ?p])
    case (commit p'' u)
    then have t: "t = (set_persistent p' s)\<lparr>fpc := FUnlock\<rparr>"
      using step pc tx by (simp add: flusher_step_def)
    have "flow_ok t (freed @ contents node_request (nodes ?p) bs) as []"
      using flow pc con by (simp add: t flow_ok_def Let_def)
    then show ?thesis
      by (intro bb_invI [of t s0 as "[]"]) (use un mu at' tl pc in \<open>auto simp: t mutex_ok_def\<close>)
  next
    case failed
    then have "t = stop TxError s" using step pc by (simp add: flusher_step_def)
    then show ?thesis using stop_inv [OF inv] by simp
  qed (use tx in simp)
qed

lemma flush_loop_inv:
  assumes inv: "bb_inv s" and pc: "fpc s = FLoop" and step: "flusher_step run s = Some t"
  shows "bb_inv t"
proof -
  let ?h = "nodes (persistent (buffer s))"
  from inv obtain s0 as bs freed where un: "stopped s \<noteq> Some Undefined" and mu: "mutex_ok s"
    and at: "bb_at (persistent (buffer s)) s0 as bs" and tl: "tail_ok (wpc s) (tail_node (buffer s)) s0 as"
    and bs: "wpc s = WTx \<longrightarrow> bs = []" and flow: "flow_ok s freed as bs" by (elim bb_invE)
  from flow pc obtain cs ds where split: "bs = cs @ ds" and ch: "chain nnext ?h (fcur s) ds"
    and seen: "seen s = freed @ contents node_request ?h cs" by (auto simp: flow_ok_def Let_def)
  have all: "written s = freed @ contents node_request ?h bs @ contents node_request ?h as"
    using flow by (simp add: flow_ok_def Let_def)
  show ?thesis
  proof (cases ds)
    case Nil
    then have t: "t = s\<lparr>fpc := FTx\<rparr>" using ch step pc by (simp add: flusher_step_def)
    have "flow_ok t freed as bs" using seen split Nil all by (simp add: t flow_ok_def Let_def)
    then show ?thesis
      by (intro bb_invI [of t s0 as bs freed]) (use un mu at tl bs pc in \<open>auto simp: t mutex_ok_def\<close>)
  next
    case (Cons a ds')
    with ch obtain n where n: "fcur s = Some a" "?h a = Some n" "chain nnext ?h (nnext n) ds'" by auto
    then have t: "t = s\<lparr>seen := seen s @ [node_request n], fcur := nnext n\<rparr>"
      using step pc by (simp add: flusher_step_def)
    have "\<exists>cs ds. bs = cs @ ds \<and> chain nnext ?h (nnext n) ds \<and>
        seen s @ [node_request n] = freed @ contents node_request ?h cs"
      using split Cons n seen by (intro exI [of _ "cs @ [a]"] exI [of _ ds']) simp
    then have "flow_ok t freed as bs" using all pc by (simp add: t flow_ok_def Let_def)
    then show ?thesis
      by (intro bb_invI [of t s0 as bs freed]) (use un mu at tl bs pc in \<open>auto simp: t mutex_ok_def\<close>)
  qed
qed

lemma flusher_other_inv:
  assumes inv: "bb_inv s" and step: "flusher_step run s = Some t"
    and pc: "fpc s = FLock \<or> fpc s = FRead \<or> fpc s = FUnlock"
  shows "bb_inv t"
proof -
  from inv obtain s0 as bs freed where un: "stopped s \<noteq> Some Undefined" and mu: "mutex_ok s"
    and at: "bb_at (persistent (buffer s)) s0 as bs" and tl: "tail_ok (wpc s) (tail_node (buffer s)) s0 as"
    and bs: "wpc s = WTx \<longrightarrow> bs = []" and flow: "flow_ok s freed as bs" by (elim bb_invE)
  have same: "buffer t = buffer s" "wpc t = wpc s" "stopped t = stopped s" and mut: "mutex_ok t"
    using step pc mu by (auto simp: flusher_step_def mutex_ok_def split: if_splits)
  have "chain nnext (nodes (persistent (buffer s))) (flushing (persistent (buffer s))) bs"
    using at by (simp add: bb_at_def)
  then have "flow_ok t freed as bs"
    using step pc flow by (auto simp: flusher_step_def flow_ok_def Let_def split: if_splits intro: exI [of _ "[]"])
  then show ?thesis
    by (intro bb_invI [of t s0 as bs freed]) (use un mut at tl bs in \<open>auto simp: same\<close>)
qed

lemma flusher_inv:
  assumes inv: "bb_inv s" and "tx_atomic run" and step: "flusher_step run s = Some t"
  shows "bb_inv t"
proof (cases "fpc s")
  case FDone
  with step show ?thesis by (simp add: flusher_step_def)
qed (use assms flush_tx_inv flush_loop_inv flusher_other_inv in blast)+

section \<open>Rounds, and a bound on what is left to do\<close>

definition rounds_ok :: "bb_threads \<Rightarrow> bool" where
  "rounds_ok s \<longleftrightarrow> (wpc s = WDone \<longleftrightarrow> wleft s = 0) \<and> (fpc s = FDone \<longleftrightarrow> fleft s = 0)"

fun wrank :: "writer_pc \<Rightarrow> nat" where
  "wrank (WWrite i) = 9 - 2 * i" | "wrank (WTail i) = 8 - 2 * i" | "wrank WLock = 5"
| "wrank WCheck = 4" | "wrank WTx = 3" | "wrank WSetTail = 2" | "wrank WUnlock = 1" | "wrank WDone = 0"

text \<open>How many more requests the writer may still publish.\<close>

fun writes_left :: "writer_pc \<Rightarrow> nat \<Rightarrow> nat" where
  "writes_left (WWrite i) k = 2 * k - i" | "writes_left (WTail i) k = 2 * k - i - 1"
| "writes_left WDone k = 0" | "writes_left _ k = 2 * (k - 1)"

definition total_bound :: "bb_threads \<Rightarrow> nat" where
  "total_bound s = length (written s) + writes_left (wpc s) (wleft s)"

definition frank :: "bb_threads \<Rightarrow> nat" where
  "frank s = (case fpc s of
       FLock \<Rightarrow> total_bound s + 5 | FRead \<Rightarrow> total_bound s + 4
     | FLoop \<Rightarrow> total_bound s - length (seen s) + 3 | FTx \<Rightarrow> 2 | FUnlock \<Rightarrow> 1 | FDone \<Rightarrow> 0)"

definition bb_todo :: "bb_threads \<Rightarrow> nat" where
  "bb_todo s = (if stopped s \<noteq> None then 0
     else 1 + wleft s * 10 + wrank (wpc s) + fleft s * (total_bound s + 6) + frank s)"

definition bb_final :: "bb_threads \<Rightarrow> bool" where
  "bb_final s \<longleftrightarrow> stopped s \<noteq> None \<or> (wpc s = WDone \<and> fpc s = FDone)"

definition bb_threads_inv :: "bb_threads \<Rightarrow> bool" where
  "bb_threads_inv s \<longleftrightarrow> bb_inv s \<and> rounds_ok s"

lemma frank_mono:
  "total_bound t \<le> total_bound s \<Longrightarrow> fpc t = fpc s \<Longrightarrow> seen t = seen s \<Longrightarrow> frank t \<le> frank s"
  by (auto simp: frank_def split: flusher_pc.split)

lemma todo_writer:
  assumes "total_bound t \<le> total_bound s" and "fpc t = fpc s" "seen t = seen s" "fleft t = fleft s"
    and "wleft t * 10 + wrank (wpc t) < wleft s * 10 + wrank (wpc s)" and "stopped s = None"
  shows "bb_todo t < bb_todo s"
proof -
  define a where "a = fleft s * (total_bound t + 6)"
  define b where "b = fleft s * (total_bound s + 6)"
  have "a \<le> b" using assms(1) by (simp add: a_def b_def)
  with assms frank_mono [OF assms(1-3)] show ?thesis
    by (simp add: bb_todo_def a_def [symmetric] b_def [symmetric])
qed

lemma stop_todo: "stopped s = None \<Longrightarrow> bb_todo (stop e s') < bb_todo s"
  by (simp add: bb_todo_def stop_def)

lemma requests_length [simp]: "length requests = 2"
  by (simp add: requests_def)

lemma write_pc_bound: "bb_inv s \<Longrightarrow> wpc s = WWrite i \<or> wpc s = WTail i \<Longrightarrow> i < 2"
  by (auto elim!: bb_invE)

lemma write_step_cases:
  assumes "writer_step xalloc run s = Some t" and "wpc s = WWrite i"
  obtains (stop) e where "t = stop e s"
    | (publish) p' where "t = (set_persistent p' s)\<lparr>wpc := WTail i, written := written s @ [requests ! i]\<rparr>"
    | (full) p' where "t = (set_persistent p' s)\<lparr>wpc := after_write i\<rparr>"
proof (cases "tail_node (buffer s)")
  case None
  with assms have "t = stop Undefined s" by (simp add: writer_step_def)
  then show thesis by (rule stop)
next
  case (Some a)
  obtain p' r where "makePersistentAtomic xalloc (NextOf a) (snd (requests ! i)) (fst (requests ! i))
      (persistent (buffer s)) = (p', r)" by fastforce
  with Some assms have "t = (case r of Inr _ \<Rightarrow> (set_persistent p' s)\<lparr>wpc := WTail i, written := written s @ [requests ! i]\<rparr>
      | Inl (SystemError e) \<Rightarrow> (set_persistent p' s)\<lparr>wpc := after_write i\<rparr> | Inl e \<Rightarrow> stop e s)"
    by (simp add: writer_step_def)
  then show thesis using that by (cases r) (auto split: exn.splits)
qed

text \<open>What a move of the writer does to the measure; stopping the program always lowers it.\<close>

definition writer_moves :: "bb_threads \<Rightarrow> bb_threads \<Rightarrow> bool" where
  "writer_moves s t \<longleftrightarrow> fpc t = fpc s \<and> seen t = seen s \<and> fleft t = fleft s \<and> rounds_ok t \<and>
     total_bound t \<le> total_bound s \<and> wleft t * 10 + wrank (wpc t) < wleft s * 10 + wrank (wpc s)"

lemma moves_todo: "stopped s = None \<Longrightarrow> writer_moves s t \<Longrightarrow> rounds_ok t \<and> bb_todo t < bb_todo s"
  by (simp add: writer_moves_def todo_writer)

lemma stopped_todo: "stopped s = None \<Longrightarrow> rounds_ok s' \<Longrightarrow> rounds_ok (stop e s') \<and> bb_todo (stop e s') < bb_todo s"
  by (simp add: stop_todo) (simp add: rounds_ok_def stop_def)

lemmas moves_defs = writer_moves_def rounds_ok_def total_bound_def

lemma write_todo:
  assumes inv: "bb_inv s" and r: "rounds_ok s" and nst: "stopped s = None"
    and step: "writer_step xalloc run s = Some t" and pc: "wpc s = WWrite i \<or> wpc s = WTail i"
  shows "rounds_ok t \<and> bb_todo t < bb_todo s"
proof -
  have i: "i < 2" and w: "0 < wleft s" using write_pc_bound [OF inv pc] pc r by (auto simp: rounds_ok_def)
  show ?thesis
  proof (cases "wpc s = WWrite i")
    case True
    from step True show ?thesis
    proof (cases rule: write_step_cases)
      case (publish p')
      with True r i w have "writer_moves s t" by (simp add: moves_defs) linarith
      then show ?thesis by (rule moves_todo [OF nst])
    next
      case (full p')
      with True r i w have "writer_moves s t" by (simp add: moves_defs after_write_def) linarith
      then show ?thesis by (rule moves_todo [OF nst])
    qed (use stopped_todo [OF nst r] in simp)
  next
    case False
    with pc have pc: "wpc s = WTail i" by simp
    show ?thesis
    proof (cases "next_of (persistent (buffer s)) (tail_node (buffer s))")
      case (Inl e)
      with step pc have "t = stop e s" by (simp add: writer_step_def)
      then show ?thesis using stopped_todo [OF nst r] by simp
    next
      case (Inr a)
      with step pc have "t = (set_tail a s)\<lparr>wpc := after_write i\<rparr>" by (simp add: writer_step_def)
      with pc r i w have "writer_moves s t" by (simp add: moves_defs after_write_def) linarith
      then show ?thesis by (rule moves_todo [OF nst])
    qed
  qed
qed

lemma writer_todo:
  assumes inv: "bb_inv s" and r: "rounds_ok s" and nst: "stopped s = None"
    and step: "writer_step xalloc run s = Some t"
  shows "rounds_ok t \<and> bb_todo t < bb_todo s"
proof (cases "wpc s")
  case (WWrite i)
  then show ?thesis using write_todo [OF inv r nst step] by blast
next
  case (WTail i)
  then show ?thesis using write_todo [OF inv r nst step] by blast
next
  case WTx
  obtain p' res where tx: "run enqueue_tx (persistent (buffer s)) = (p', res)" by fastforce
  show ?thesis
  proof (cases res)
    case (Inl e)
    with step WTx tx have "t = stop e (set_persistent p' s)" by (simp add: writer_step_def)
    moreover have "rounds_ok (set_persistent p' s)" using r by (simp add: rounds_ok_def)
    ultimately show ?thesis using stopped_todo [OF nst] by blast
  next
    case (Inr u)
    with step WTx tx have "t = (set_persistent p' s)\<lparr>wpc := WSetTail\<rparr>" by (simp add: writer_step_def)
    with WTx r show ?thesis by (intro moves_todo [OF nst]) (simp add: moves_defs)
  qed
next
  case WUnlock
  with r have "0 < wleft s" by (auto simp: rounds_ok_def)
  with r step WUnlock show ?thesis
    by (intro moves_todo [OF nst]) (auto simp: writer_step_def moves_defs split: if_splits)
qed (rule moves_todo [OF nst], insert r step, force simp: writer_step_def moves_defs split: if_splits)+

lemma seen_written:
  assumes "bb_inv s"
  obtains fl ac freed where "bb_lists (persistent (buffer s)) fl ac" "written s = freed @ fl @ ac"
    "prefix freed (seen s)" "prefix (seen s) (freed @ fl)"
proof -
  from assms obtain s0 as bs freed where at: "bb_at (persistent (buffer s)) s0 as bs"
    and flow: "flow_ok s freed as bs" by (elim bb_invE)
  let ?c = "contents node_request (nodes (persistent (buffer s)))"
  have "prefix freed (seen s) \<and> prefix (seen s) (freed @ ?c bs)"
    using flow by (cases "fpc s") (auto simp: flow_ok_def Let_def)
  moreover have "bb_lists (persistent (buffer s)) (?c bs) (?c as)"
    using at by (auto simp: bb_lists_def)
  moreover have "written s = freed @ ?c bs @ ?c as" using flow by (simp add: flow_ok_def Let_def)
  ultimately show thesis using that by blast
qed

lemma seen_bound: "bb_inv s \<Longrightarrow> length (seen s) \<le> length (written s)"
  by (erule seen_written) (auto dest!: prefix_length_le)

lemma todo_flusher:
  assumes "total_bound t = total_bound s" "wpc t = wpc s" "wleft t = wleft s" "stopped s = None"
    and "fleft t = fleft s" and "frank t < frank s"
  shows "bb_todo t < bb_todo s"
  using assms by (simp add: bb_todo_def)

lemma todo_unlock:
  assumes "total_bound t = total_bound s" "wpc t = wpc s" "wleft t = wleft s" "stopped s = None"
    and "fleft s = Suc (fleft t)" and "frank t \<le> total_bound s + 5"
  shows "bb_todo t < bb_todo s"
  using assms by (simp add: bb_todo_def)

lemma flusher_loop_todo:
  assumes inv': "bb_inv t" and r: "rounds_ok s" and nst: "stopped s = None"
    and step: "flusher_step run s = Some t" and pc: "fpc s = FLoop"
  shows "rounds_ok t \<and> bb_todo t < bb_todo s"
proof (cases "fcur s")
  case None
  with pc step have t: "t = s\<lparr>fpc := FTx\<rparr>" by (simp add: flusher_step_def)
  then have "total_bound t = total_bound s" by (simp add: total_bound_def)
  with pc r nst show ?thesis by (intro conjI todo_flusher) (auto simp: t rounds_ok_def frank_def)
next
  case (Some a)
  show ?thesis
  proof (cases "nodes (persistent (buffer s)) a")
    case None
    with pc Some step have "t = stop Undefined s" by (simp add: flusher_step_def)
    then show ?thesis using stopped_todo [OF nst r] by simp
  next
    case (Some n)
    with \<open>fcur s = Some a\<close> pc step have t: "t = s\<lparr>seen := seen s @ [node_request n], fcur := nnext n\<rparr>"
      by (simp add: flusher_step_def)
    then have tb: "total_bound t = total_bound s" by (simp add: total_bound_def)
    have "length (seen s) < total_bound s" using seen_bound [OF inv'] by (simp add: t total_bound_def)
    then have "frank t < frank s" using pc tb by (simp add: frank_def t)
    with tb r nst show ?thesis by (intro conjI todo_flusher) (auto simp: t rounds_ok_def)
  qed
qed

lemma flusher_todo:
  assumes inv: "bb_inv s" and inv': "bb_inv t" and r: "rounds_ok s" and nst: "stopped s = None"
    and step: "flusher_step run s = Some t"
  shows "rounds_ok t \<and> bb_todo t < bb_todo s"
proof (cases "fpc s")
  case FLoop
  then show ?thesis by (rule flusher_loop_todo [OF inv' r nst step])
next
  case FTx
  obtain p' res where tx: "run flush_tx (persistent (buffer s)) = (p', res)" by fastforce
  show ?thesis
  proof (cases res)
    case (Inl e)
    with FTx tx step have "t = stop e (set_persistent p' s)" by (simp add: flusher_step_def)
    moreover have "rounds_ok (set_persistent p' s)" using r by (simp add: rounds_ok_def)
    ultimately show ?thesis using stopped_todo [OF nst] by blast
  next
    case (Inr u)
    with FTx tx step have t: "t = (set_persistent p' s)\<lparr>fpc := FUnlock\<rparr>" by (simp add: flusher_step_def)
    then have "total_bound t = total_bound s" by (simp add: total_bound_def)
    with FTx r nst show ?thesis by (intro conjI todo_flusher) (auto simp: t rounds_ok_def frank_def)
  qed
next
  case FUnlock
  then have t: "t = s\<lparr>flush_mutex := None, fleft := fleft s - 1, fpc := if fleft s - 1 = 0 then FDone else FLock\<rparr>"
    using step by (simp add: flusher_step_def)
  have tb: "total_bound t = total_bound s" by (simp add: t total_bound_def)
  have pos: "0 < fleft s" using r FUnlock by (auto simp: rounds_ok_def)
  have "bb_todo t < bb_todo s"
    by (rule todo_unlock [OF tb]) (use pos nst tb in \<open>auto simp: t frank_def\<close>)
  with r pos FUnlock show ?thesis by (auto simp: t rounds_ok_def)
qed ((insert r nst step, intro conjI todo_flusher;
  force simp: flusher_step_def total_bound_def rounds_ok_def frank_def split: if_splits)+)

text \<open>A thread that is not done and does not wait for a held mutex can move.\<close>

lemma writer_enabled:
  "wpc s \<noteq> WDone \<Longrightarrow> wpc s \<noteq> WLock \<or> flush_mutex s = None \<Longrightarrow> \<exists>t. writer_step xalloc run s = Some t"
  by (cases "wpc s") (auto simp: writer_step_def)

lemma flusher_enabled:
  "fpc s \<noteq> FDone \<Longrightarrow> fpc s \<noteq> FLock \<or> flush_mutex s = None \<Longrightarrow> \<exists>t. flusher_step run s = Some t"
  by (cases "fpc s") (auto simp: flusher_step_def)

lemma bb_enabled:
  assumes inv: "bb_inv s" and fin: "\<not> bb_final s"
  shows "\<exists>t. bb_step s t"
proof -
  have nst: "stopped s = None" and pcs: "wpc s \<noteq> WDone \<or> fpc s \<noteq> FDone" and mu: "mutex_ok s"
    using fin inv by (auto simp: bb_final_def bb_inv_def)
  note w = bb_step.writer [OF nst small_xalloc_fresh tx_plain_atomic]
  note f = bb_step.flusher [OF nst tx_plain_atomic]
  consider "w_critical (wpc s)" | "f_critical (fpc s)" | "flush_mutex s = None"
    using mu by (cases "flush_mutex s") (metis mutex_ok_def owner.exhaust)+
  then show ?thesis
  proof cases
    case 1
    then have "wpc s \<noteq> WDone" "wpc s \<noteq> WLock" by auto
    then show ?thesis using writer_enabled w by blast
  next
    case 2
    then have "fpc s \<noteq> FDone" "fpc s \<noteq> FLock" by auto
    then show ?thesis using flusher_enabled f by blast
  next
    case 3
    then show ?thesis using pcs writer_enabled flusher_enabled w f by blast
  qed
qed

definition bb_initial :: "nat \<Rightarrow> request list \<Rightarrow> bb_threads \<Rightarrow> bool" where
  "bb_initial K old s \<longleftrightarrow> (\<exists>b fl ac. bb_rep b fl ac \<and> old = fl @ ac \<and> s = threads_new K b old)"

lemma initial_inv: "bb_initial K old s \<Longrightarrow> bb_threads_inv s"
proof -
  assume "bb_initial K old s"
  then obtain b s0 as bs where at: "bb_at (persistent b) s0 as bs" and tail: "tail_node b = Some (last (s0 # as))"
    and old: "old = contents node_request (nodes (persistent b)) bs @ contents node_request (nodes (persistent b)) as"
    and s: "s = threads_new K b old" by (auto simp: bb_initial_def bb_rep_def)
  have "bb_inv s"
    by (rule bb_invI [of s s0 as bs "[]"])
       (use at tail in \<open>auto simp: s threads_new_def mutex_ok_def flow_ok_def Let_def old split: if_splits\<close>)
  then show ?thesis by (auto simp: bb_threads_inv_def rounds_ok_def s threads_new_def)
qed

interpretation bbt: terminating_system "bb_initial K old" bb_step bb_threads_inv bb_final bb_todo
  for K old
proof unfold_locales
  show "bb_threads_inv s" if "bb_initial K old s" for s
    using initial_inv [OF that] .
  show "\<exists>t. bb_step s t" if "bb_threads_inv s" "\<not> bb_final s" for s
    using that bb_enabled by (auto simp: bb_threads_inv_def)
  have "bb_threads_inv t \<and> bb_todo t < bb_todo s" if "bb_threads_inv s" "bb_step s t" for s t
    using that(2,1)
  proof cases
    case (writer xalloc run)
    with that(1) writer_inv [of s xalloc run t] writer_todo [of s xalloc run t] show ?thesis
      by (auto simp: bb_threads_inv_def)
  next
    case (flusher run)
    with that(1) flusher_inv [of s run t] flusher_todo [of s t run] show ?thesis
      by (auto simp: bb_threads_inv_def)
  qed
  then show "bb_threads_inv t" "bb_todo t < bb_todo s" if "bb_threads_inv s" "bb_step s t" for s t
    using that by blast+
qed

section \<open>Many lives\<close>

text \<open>What the threads do does not depend on what was published before.\<close>

definition after_old :: "request list \<Rightarrow> bb_threads \<Rightarrow> bb_threads" where
  "after_old old s = s\<lparr>written := old @ written s\<rparr>"

lemma writer_step_old:
  "writer_step xalloc run (after_old old s) = map_option (after_old old) (writer_step xalloc run s)"
  by (cases "wpc s")
     (auto simp: writer_step_def after_old_def Let_def stop_def set_persistent_def set_tail_def
        split: option.splits prod.splits sum.splits exn.splits)

lemma flusher_step_old:
  "flusher_step run (after_old old s) = map_option (after_old old) (flusher_step run s)"
  by (cases "fpc s")
     (auto simp: flusher_step_def after_old_def Let_def stop_def set_persistent_def
        split: option.splits prod.splits sum.splits)

lemma bb_step_old: "bb_step (after_old old s) u \<longleftrightarrow> (\<exists>t. bb_step s t \<and> u = after_old old t)"
proof -
  have "stopped (after_old old s) = stopped s" by (simp add: after_old_def)
  then show ?thesis by (simp add: bb_step.simps writer_step_old flusher_step_old) blast
qed

lemma bb_steps_old: "bb_step\<^sup>*\<^sup>* s t \<Longrightarrow> bb_step\<^sup>*\<^sup>* (after_old old s) (after_old old t)"
  by (induction rule: rtranclp_induct) (auto simp: bb_step_old elim!: rtranclp.rtrancl_into_rtrancl)

lemma bb_steps_back: "bb_step\<^sup>*\<^sup>* (after_old old s) u \<Longrightarrow> \<exists>t. bb_step\<^sup>*\<^sup>* s t \<and> u = after_old old t"
  by (induction rule: rtranclp_induct) (use bb_step_old rtranclp.rtrancl_into_rtrancl in \<open>blast, metis\<close>)

lemma threads_new_old: "after_old old (threads_new K b []) = threads_new K b old"
  by (simp add: after_old_def threads_new_def)

lemma one_life:
  assumes b: "bb_rep b fl ac" and run: "bb_step\<^sup>*\<^sup>* (threads_new K b []) s"
  obtains fl' ac' freed where "bb_lists (persistent (buffer s)) fl' ac'"
    "fl @ ac @ written s = freed @ fl' @ ac'" "prefix freed (seen s)" "prefix (seen s) (freed @ fl')"
    "stopped s \<noteq> Some Undefined"
proof -
  have run': "bb_step\<^sup>*\<^sup>* (threads_new K b (fl @ ac)) (after_old (fl @ ac) s)"
    using bb_steps_old [OF run, of "fl @ ac"] by (simp add: threads_new_old)
  have "bb_initial K (fl @ ac) (threads_new K b (fl @ ac))" using b by (auto simp: bb_initial_def)
  from bbt.reachable_inv [OF this run'] have "bb_inv (after_old (fl @ ac) s)"
    by (simp add: bb_threads_inv_def)
  moreover from this have "stopped s \<noteq> Some Undefined" by (rule bb_invE) (simp add: after_old_def)
  ultimately show thesis by (elim seen_written) (use that in \<open>simp add: after_old_def\<close>)
qed

lemma one_life_ends:
  assumes "bb_rep b fl ac"
  shows "\<exists>s. bb_step\<^sup>*\<^sup>* (threads_new K b []) s \<and> bb_final s"
proof -
  have "bb_initial K (fl @ ac) (threads_new K b (fl @ ac))" using assms by (auto simp: bb_initial_def)
  from bbt.reachable_can_finish [OF this rtranclp.rtrancl_refl] obtain u
    where u: "bb_step\<^sup>*\<^sup>* (after_old (fl @ ac) (threads_new K b [])) u" "bb_final u"
    by (auto simp: threads_new_old)
  from bb_steps_back [OF u(1)] u(2) show ?thesis by (auto simp: bb_final_def after_old_def)
qed

text \<open>Across lives: the freed requests, life by life, and the two lists are all that was published.\<close>

definition lives_hold :: "(request list \<times> request list) list \<Rightarrow> request list \<Rightarrow> request list \<Rightarrow> bool" where
  "lives_hold ls fl ac \<longleftrightarrow> (\<exists>frees. concat (map fst ls) = concat frees @ fl @ ac \<and>
     list_all2 prefix frees (map snd ls) \<and> list_all (\<lambda>l. sublist (snd l) (concat (map fst ls))) ls)"

definition lives_ok :: "(request list \<times> request list) list \<Rightarrow> bb_persistent \<Rightarrow> bool" where
  "lives_ok ls p \<longleftrightarrow> ls = [] \<and> p = bb_persistent_new \<or> (\<exists>fl ac. bb_lists p fl ac \<and> lives_hold ls fl ac)"

text \<open>Every start that succeeds finds what the lives before have left.\<close>

lemma lives_start:
  assumes ok: "lives_ok ls p" and fresh: "fresh_xalloc xalloc" and init: "runtimeInitialize xalloc p = (p', Inr b)"
  obtains fl ac where "bb_rep b fl ac" "lives_hold ls fl ac"
proof (cases "ls = [] \<and> p = bb_persistent_new")
  case True
  have "bb_rep b [] []" by (rule runtimeInitialize_fresh [OF fresh]) (use True init in auto)
  with True that show thesis by (auto simp: lives_hold_def)
next
  case False
  with ok obtain fl ac where at: "bb_lists p fl ac" and h: "lives_hold ls fl ac" by (auto simp: lives_ok_def)
  have "bb_rep b fl ac" by (rule runtimeInitialize_lists [OF at, of xalloc]) (use init in simp)
  with h that show thesis by blast
qed

lemma lives_no_start:
  assumes ok: "lives_ok ls p" and fresh: "fresh_xalloc xalloc" and init: "runtimeInitialize xalloc p = (p', Inl e)"
  shows "p' = p \<and> ls = [] \<and> p = bb_persistent_new \<and> e \<noteq> Undefined"
proof (cases "ls = [] \<and> p = bb_persistent_new")
  case True
  show ?thesis by (rule runtimeInitialize_fresh [OF fresh]) (use True init in auto)
next
  case False
  with ok obtain fl ac where at: "bb_lists p fl ac" by (auto simp: lives_ok_def)
  show ?thesis by (rule runtimeInitialize_lists [OF at, of xalloc]) (use init in simp)
qed

lemma lives_life:
  assumes b: "bb_rep b fl ac" and held: "lives_hold ls fl ac" and run: "bb_step\<^sup>*\<^sup>* (threads_new K b []) s"
  shows "lives_ok (ls @ [(written s, seen s)]) (persistent (buffer s))"
proof -
  let ?ls = "ls @ [(written s, seen s)]"
  from held obtain frees where all: "concat (map fst ls) = concat frees @ fl @ ac"
    and pre: "list_all2 prefix frees (map snd ls)" and sub: "list_all (\<lambda>l. sublist (snd l) (concat (map fst ls))) ls"
    by (auto simp: lives_hold_def)
  from b run obtain fl' ac' freed where at': "bb_lists (persistent (buffer s)) fl' ac'"
    and now: "fl @ ac @ written s = freed @ fl' @ ac'"
    and seen: "prefix freed (seen s)" "prefix (seen s) (freed @ fl')"
    by (rule one_life)
  have all': "concat (map fst ?ls) = concat (frees @ [freed]) @ fl' @ ac'" using all now by simp
  have "list_all2 prefix (frees @ [freed]) (map snd ?ls)"
    using pre seen(1) by (simp add: list_all2_appendI)
  moreover obtain zs where "freed @ fl' = seen s @ zs" using seen(2) by (auto simp: prefix_def)
  then have "concat (map fst ?ls) = concat frees @ seen s @ zs @ ac'"
    using all' by (metis append.assoc concat.simps concat_append append_Nil2)
  then have "sublist (seen s) (concat (map fst ?ls))" unfolding sublist_def by blast
  moreover have "list_all (\<lambda>l. sublist (snd l) (concat (map fst ?ls))) ls"
    using sub by (auto simp: list_all_iff intro: sublist_appendI sublist_order.order_trans)
  ultimately have "lives_hold ?ls fl' ac'"
    unfolding lives_hold_def by (intro exI [of _ "frees @ [freed]"] conjI all') simp_all
  with at' show ?thesis unfolding lives_ok_def by blast
qed

lemma bb_lives_ok: "bb_lives K ls p \<Longrightarrow> lives_ok ls p"
proof (induction rule: bb_lives.induct)
  case (failed_start ls p xalloc p' e)
  then show ?case using lives_no_start by metis
next
  case (life ls p xalloc p' b s)
  then show ?case using lives_start [OF life.IH life(2,3)] lives_life by metis
qed (simp add: lives_ok_def)

section \<open>Properties\<close>

text \<open>
  C1. The two threads, in every interleaving and with any failures of allocations and
  transactions: no step ever meets a dangling pointer, the threads are never both inside the
  mutex, the pool always holds two well-formed lists, and no request is lost, duplicated or
  reordered: the requests published so far are, in order, the freed ones, those waiting to be
  flushed and those being collected, and the flusher's callback has seen exactly the freed ones
  and a beginning of those waiting.
\<close>

theorem burst_buffer_threads_safe:
  assumes "bb_rep b fl0 ac0" and "bb_step\<^sup>*\<^sup>* (threads_new K b (fl0 @ ac0)) s"
  shows "stopped s \<noteq> Some Undefined \<and> \<not> (w_critical (wpc s) \<and> f_critical (fpc s)) \<and>
    (\<exists>fl ac freed. bb_lists (persistent (buffer s)) fl ac \<and> written s = freed @ fl @ ac \<and>
       prefix freed (seen s) \<and> prefix (seen s) (freed @ fl))"
proof -
  have "bb_initial K (fl0 @ ac0) (threads_new K b (fl0 @ ac0))" using assms(1) by (auto simp: bb_initial_def)
  from bbt.reachable_inv [OF this assms(2)] have inv: "bb_inv s" by (simp add: bb_threads_inv_def)
  then have "stopped s \<noteq> Some Undefined" "mutex_ok s" by (auto elim: bb_invE)
  moreover from inv obtain fl ac freed where "bb_lists (persistent (buffer s)) fl ac" "written s = freed @ fl @ ac"
    "prefix freed (seen s)" "prefix (seen s) (freed @ fl)" by (rule seen_written)
  ultimately show ?thesis by (auto simp: mutex_ok_def)
qed

text \<open>The buffer a first start creates, for concrete runs.\<close>

definition small_buffer :: burst_buffer where
  "small_buffer = \<lparr>persistent = \<lparr>nodes = [0 \<mapsto> create_node [] 0], active = Some 0, flushing = None\<rparr>, tail_node = Some 0\<rparr>"

lemma small_buffer_rep: "bb_rep small_buffer [] []"
  by (rule bb_repI [of _ 0 "[]" "[]"]) (auto simp: small_buffer_def bb_at_def)

theorem burst_buffer_threads_safe_witness:
  "\<exists>s. bb_step (threads_new 1 small_buffer []) s \<and> written s = [(0, ''hello'')] \<and>
    (\<exists>fl ac freed. bb_lists (persistent (buffer s)) fl ac \<and> written s = freed @ fl @ ac \<and>
       prefix freed (seen s) \<and> prefix (seen s) (freed @ fl))"
proof -
  let ?s = "threads_new 1 small_buffer []"
  obtain s where w: "writer_step small_xalloc tx_plain ?s = Some s" and wr: "written s = [(0, ''hello'')]"
    by (simp add: writer_step_def threads_new_def small_buffer_def makePersistentAtomic_def small_xalloc_def requests_def)
  have step: "bb_step ?s s"
    by (rule bb_step.writer [OF _ small_xalloc_fresh tx_plain_atomic w]) (simp add: threads_new_def)
  then have "bb_step\<^sup>*\<^sup>* (threads_new 1 small_buffer ([] @ [])) s" by simp
  from burst_buffer_threads_safe [OF small_buffer_rep this] step wr show ?thesis by blast
qed

text \<open>
  C13. The program's threads always come to an end: there is no infinite execution, whatever the
  scheduler does, and no deadlock: an execution that cannot continue has both threads finished,
  or was ended by the exception of a failed transaction.
\<close>

theorem burst_buffer_threads_terminate:
  assumes "bb_rep b fl ac"
  shows "(\<nexists>f. f 0 = threads_new K b (fl @ ac) \<and> (\<forall>i. bb_step (f i) (f (Suc i)))) \<and>
    (\<forall>s. bb_step\<^sup>*\<^sup>* (threads_new K b (fl @ ac)) s \<and> (\<nexists>t. bb_step s t) \<longrightarrow>
       (wpc s = WDone \<and> fpc s = FDone) \<or> (\<exists>e. stopped s = Some e \<and> e \<noteq> Undefined))"
proof -
  have init: "bb_initial K (fl @ ac) (threads_new K b (fl @ ac))" using assms by (auto simp: bb_initial_def)
  have "\<exists>i. \<not> bb_step (f i) (f (Suc i))" if "f 0 = threads_new K b (fl @ ac)" for f
    using bbt.no_infinite_run [of K "fl @ ac" f] init that by simp
  moreover have "(wpc s = WDone \<and> fpc s = FDone) \<or> (\<exists>e. stopped s = Some e \<and> e \<noteq> Undefined)"
    if reach: "bb_step\<^sup>*\<^sup>* (threads_new K b (fl @ ac)) s" and stuck: "\<nexists>t. bb_step s t" for s
  proof -
    have "bb_inv s" using bbt.reachable_inv [OF init reach] by (simp add: bb_threads_inv_def)
    then have "stopped s \<noteq> Some Undefined" by (rule bb_invE)
    with bbt.stuck_final [OF init reach stuck] show ?thesis by (auto simp: bb_final_def)
  qed
  ultimately show ?thesis by blast
qed

theorem burst_buffer_threads_terminate_witness:
  "(\<nexists>f. f 0 = threads_new 1000 small_buffer [] \<and> (\<forall>i. bb_step (f i) (f (Suc i)))) \<and>
    {s. bb_step\<^sup>*\<^sup>* (threads_new 1000 small_buffer []) s \<and> (\<nexists>t. bb_step s t)} \<subseteq>
    {s. (wpc s = WDone \<and> fpc s = FDone) \<or> (\<exists>e. stopped s = Some e \<and> e \<noteq> Undefined)}"
  using burst_buffer_threads_terminate [OF small_buffer_rep, of 1000] by auto

text \<open>
  C3. The burst buffer delivers every request at least once, across any number of crashes. Start the
  program again and again on one pool, and let every life of it end anywhere. As long as no start
  has succeeded the pool is empty. Afterwards every further start succeeds, and the requests published in all lives are, in order and
  none twice, those already freed, those waiting to be flushed and those being collected; the
  requests freed in a life are a beginning of those its callback saw, so that none is gone unseen;
  and every callback has seen consecutive published requests in their order.
\<close>

theorem burst_buffer_lives:
  assumes "bb_lives K ls p"
  shows "ls = [] \<and> p = bb_persistent_new \<or>
    (\<forall>xalloc. \<exists>b. runtimeInitialize xalloc p = (p, Inr b)) \<and>
    (\<exists>fl ac frees. bb_lists p fl ac \<and> concat (map fst ls) = concat frees @ fl @ ac \<and>
       list_all2 prefix frees (map snd ls) \<and>
       list_all (\<lambda>l. sublist (snd l) (concat (map fst ls))) ls)"
proof (cases "ls = [] \<and> p = bb_persistent_new")
  case False
  with bb_lives_ok [OF assms] obtain fl ac where at: "bb_lists p fl ac" and h: "lives_hold ls fl ac"
    by (auto simp: lives_ok_def)
  have "\<exists>b. runtimeInitialize xalloc p = (p, Inr b)" for xalloc
    by (rule runtimeInitialize_lists [OF at, of xalloc]) blast
  with at h show ?thesis by (auto simp: lives_hold_def)
qed blast

theorem burst_buffer_lives_witness:
  "\<exists>p fl ac frees. bb_lives 1 [([(0, ''hello'')], [])] p \<and> bb_lists p fl ac \<and>
     [(0, ''hello'')] = concat frees @ fl @ ac \<and> list_all2 prefix frees [[]]"
proof -
  let ?s = "threads_new 1 small_buffer []"
  have init: "runtimeInitialize small_xalloc bb_persistent_new = (persistent small_buffer, Inr small_buffer)"
    by (simp add: runtimeInitialize_def bb_persistent_new_def makePersistentAtomic_def small_xalloc_def
        small_buffer_def tail_loop.simps create_node_def)
  obtain s where w: "writer_step small_xalloc tx_plain ?s = Some s" and wr: "written s = [(0, ''hello'')]" "seen s = []"
    by (simp add: writer_step_def threads_new_def small_buffer_def makePersistentAtomic_def small_xalloc_def
        requests_def set_persistent_def)
  have "bb_step\<^sup>*\<^sup>* ?s s"
    by (rule r_into_rtranclp, rule bb_step.writer [OF _ small_xalloc_fresh tx_plain_atomic w])
       (simp add: threads_new_def)
  from bb_lives.life [OF bb_lives.created small_xalloc_fresh init this] wr
  have "bb_lives 1 [([(0, ''hello'')], [])] (persistent (buffer s))" by simp
  with burst_buffer_lives [OF this] show ?thesis by auto
qed

end
