(* ===== verification/Striping.thy ===== *)
theory Striping
  imports Pretty_Bytes
begin

text \<open>
  How the three block benchmarks (\<open>pmem2bench\<close>, \<open>pmemblkbench\<close>, \<open>pmemobjbench\<close>) distribute the
  blocks of a file over their threads: a stripe is cut into one strip unit per thread, and a
  thread visits the blocks of its unit in each stripe, in the order of a permutation they share.
  The three programs compute this with the same expressions on 64-bit integers; the locale below
  states what those have to satisfy and proves the consequences once.
\<close>

section \<open>Options\<close>

text \<open>
  The option parser is library code; what it hands out are the text of an option and how often a
  flag was given.
\<close>

record parsed =
  opt_text :: "string \<Rightarrow> string"
  opt_count :: "string \<Rightarrow> nat"

text \<open>The command line given by a list of options with their texts, over a table of defaults.\<close>

definition command_line :: "(string \<times> string) list \<Rightarrow> (string \<times> string) list \<Rightarrow> string list \<Rightarrow> parsed" where
  "command_line defaults given flags =
     \<lparr>opt_text = (\<lambda>k. case map_of given k of Some v \<Rightarrow> v | None \<Rightarrow> (case map_of defaults k of Some v \<Rightarrow> v | None \<Rightarrow> [])),
      opt_count = (\<lambda>k. count_list flags k)\<rparr>"

record bench_args =
  file_size :: u64
  block_size :: u64
  stripe_size :: u64
  nthreads_arg :: u64
  total_size :: u64
  op_read :: bool
  op_write :: bool
  op_random :: bool

section \<open>The blocks a thread visits, over the naturals\<close>

definition unit_blocks :: "nat \<Rightarrow> nat \<Rightarrow> nat \<Rightarrow> nat" where
  "unit_blocks s b n = s div n div b"

definition block_at :: "nat \<Rightarrow> nat \<Rightarrow> nat \<Rightarrow> nat \<Rightarrow> nat \<Rightarrow> nat \<Rightarrow> nat" where
  "block_at s b n i st p = p + (st * (s div b) + i * unit_blocks s b n)"

definition thread_blocks :: "nat \<Rightarrow> nat \<Rightarrow> nat \<Rightarrow> nat \<Rightarrow> nat list \<Rightarrow> nat \<Rightarrow> nat list" where
  "thread_blocks t s b n perm i =
     concat (map (\<lambda>st. map (\<lambda>j. block_at s b n i st (perm ! j)) [0..<unit_blocks s b n]) [0..<t div s])"

text \<open>The conditions the programs check.\<close>

definition striping_ok :: "nat \<Rightarrow> nat \<Rightarrow> nat \<Rightarrow> nat \<Rightarrow> bool" where
  "striping_ok t s b n \<longleftrightarrow> 0 < s \<and> 0 < b \<and> 0 < n \<and> t mod s = 0 \<and> t mod b = 0 \<and> s mod b = 0 \<and> s mod n = 0 \<and>
     b \<le> s div n"

lemma unit_fits:
  assumes "striping_ok t s b n"
  shows "n * unit_blocks s b n \<le> s div b" "0 < unit_blocks s b n"
proof -
  let ?u = "unit_blocks s b n"
  have "?u * b \<le> s div n" by (simp add: unit_blocks_def)
  then have "n * (?u * b) \<le> n * (s div n)" by simp
  also have "\<dots> \<le> s" by simp
  finally have "(n * ?u) * b \<le> s" by (simp add: mult.assoc)
  then show "n * ?u \<le> s div b" using assms by (simp add: less_eq_div_iff_mult_less_eq striping_ok_def)
  show "0 < ?u" using assms by (simp add: unit_blocks_def striping_ok_def div_greater_zero_iff)
qed

lemma unit_exact:
  assumes "striping_ok t s b n"
  shows "n * unit_blocks s b n = s div b \<longleftrightarrow> b dvd s div n"
proof -
  have s: "s = n * (s div n)" "s = b * (s div b)" and pos: "0 < b" "0 < n"
    using assms by (auto simp: striping_ok_def)
  show ?thesis
  proof
    assume "n * unit_blocks s b n = s div b"
    then have "n * (s div n) = n * (b * unit_blocks s b n)" using s by (metis mult.left_commute)
    then have "s div n = b * unit_blocks s b n" using pos by simp
    then show "b dvd s div n" by (metis dvd_triv_left)
  next
    assume "b dvd s div n"
    then have "s div n = b * unit_blocks s b n" by (simp add: unit_blocks_def)
    then have "b * (s div b) = b * (n * unit_blocks s b n)" using s by (metis mult.left_commute)
    then show "n * unit_blocks s b n = s div b" using pos by simp
  qed
qed

lemma unit_in_stripe:
  assumes ok: "striping_ok t s b n" and "i < n" and "p < unit_blocks s b n"
  shows "p + i * unit_blocks s b n < s div b"
proof -
  let ?u = "unit_blocks s b n"
  have "p + i * ?u < (i + 1) * ?u" using assms(3) by simp
  also have "\<dots> \<le> n * ?u" using assms(2) by (intro mult_le_mono1) simp
  also have "\<dots> \<le> s div b" by (rule unit_fits [OF ok])
  finally show ?thesis .
qed

text \<open>The thread, the stripe and the place in the unit can be read off a block number.\<close>

lemma block_at_decode:
  assumes ok: "striping_ok t s b n" and "i < n" and "p < unit_blocks s b n"
  shows "block_at s b n i st p div (s div b) = st"
    and "block_at s b n i st p mod (s div b) div unit_blocks s b n = i"
    and "block_at s b n i st p mod (s div b) mod unit_blocks s b n = p"
proof -
  note lt = unit_in_stripe [OF assms]
  have eq: "block_at s b n i st p = (p + i * unit_blocks s b n) + st * (s div b)"
    by (simp add: block_at_def)
  show "block_at s b n i st p div (s div b) = st" using lt by (simp add: eq)
  have md: "block_at s b n i st p mod (s div b) = p + i * unit_blocks s b n" using lt by (simp add: eq)
  show "block_at s b n i st p mod (s div b) div unit_blocks s b n = i" using assms(3) by (simp add: md)
  show "block_at s b n i st p mod (s div b) mod unit_blocks s b n = p" using assms(3) by (simp add: md)
qed

lemma total_blocks: "striping_ok t s b n \<Longrightarrow> t div b = (t div s) * (s div b)"
  by (metis div_mult_swap dvd_div_mult_self mod_0_imp_dvd striping_ok_def)

lemma block_at_less:
  assumes ok: "striping_ok t s b n" and "i < n" "p < unit_blocks s b n" "st < t div s"
  shows "block_at s b n i st p < t div b"
proof -
  have "block_at s b n i st p < (st + 1) * (s div b)"
    using unit_in_stripe [OF assms(1-3)] by (simp add: block_at_def)
  also have "\<dots> \<le> (t div s) * (s div b)" using assms(4) by (intro mult_le_mono1) simp
  finally show ?thesis by (simp add: total_blocks [OF ok])
qed

definition permutes_unit :: "nat list \<Rightarrow> nat \<Rightarrow> bool" where
  "permutes_unit perm u \<longleftrightarrow> mset perm = mset [0..<u]"

lemma permutes_unitD:
  assumes "permutes_unit perm u"
  shows "distinct perm" "length perm = u" "set perm = {0..<u}"
  using mset_eq_imp_distinct_iff [OF assms [unfolded permutes_unit_def]]
    mset_eq_length [OF assms [unfolded permutes_unit_def]] mset_eq_setD [OF assms [unfolded permutes_unit_def]]
  by simp_all

lemma thread_blocks_image:
  assumes "permutes_unit perm (unit_blocks s b n)"
  shows "map (\<lambda>j. f (perm ! j)) [0..<unit_blocks s b n] = map f perm"
  using permutes_unitD(2) [OF assms] by (intro nth_equalityI) auto

lemma set_thread_blocks:
  assumes "permutes_unit perm (unit_blocks s b n)"
  shows "set (thread_blocks t s b n perm i) =
    {block_at s b n i st p | st p. st < t div s \<and> p < unit_blocks s b n}"
  unfolding thread_blocks_def thread_blocks_image [OF assms, of "block_at s b n i st" for st]
  using permutes_unitD(3) [OF assms] by auto blast

lemma distinct_concat_map:
  assumes "distinct xs" and "\<And>x. x \<in> set xs \<Longrightarrow> distinct (f x)"
    and "\<And>x y z. x \<in> set xs \<Longrightarrow> y \<in> set xs \<Longrightarrow> z \<in> set (f x) \<Longrightarrow> z \<in> set (f y) \<Longrightarrow> x = y"
  shows "distinct (concat (map f xs))"
  using assms
proof (induction xs)
  case (Cons x xs)
  have "distinct (concat (map f xs))" by (rule Cons.IH) (use Cons.prems in auto)
  moreover have "set (f x) \<inter> set (concat (map f xs)) = {}"
  proof (rule ccontr)
    assume "set (f x) \<inter> set (concat (map f xs)) \<noteq> {}"
    then obtain y z where "y \<in> set xs" "z \<in> set (f x)" "z \<in> set (f y)" by auto
    with Cons.prems(3) [of x y z] Cons.prems(1) show False by auto
  qed
  ultimately show ?case using Cons.prems(2) by simp
qed simp

lemma distinct_thread_blocks:
  assumes ok: "striping_ok t s b n" and perm: "permutes_unit perm (unit_blocks s b n)" and i: "i < n"
  shows "distinct (thread_blocks t s b n perm i)"
  unfolding thread_blocks_def thread_blocks_image [OF perm, of "block_at s b n i st" for st]
proof (rule distinct_concat_map)
  show "distinct (map (block_at s b n i st) perm)" for st
    using permutes_unitD(1) [OF perm] by (simp add: distinct_map inj_on_def block_at_def)
  fix st st' z
  assume "z \<in> set (map (block_at s b n i st) perm)" "z \<in> set (map (block_at s b n i st') perm)"
  then show "st = st'"
    using block_at_decode(1) [OF ok i] permutes_unitD(3) [OF perm] by auto metis
qed simp

lemma distinct_all_threads:
  assumes ok: "striping_ok t s b n" and perm: "permutes_unit perm (unit_blocks s b n)"
  shows "distinct (concat (map (thread_blocks t s b n perm) [0..<n]))"
proof (rule distinct_concat_map)
  show "distinct (thread_blocks t s b n perm i)" if "i \<in> set [0..<n]" for i
    using distinct_thread_blocks [OF ok perm] that by simp
  fix i i' z
  assume "i \<in> set [0..<n]" "i' \<in> set [0..<n]"
    "z \<in> set (thread_blocks t s b n perm i)" "z \<in> set (thread_blocks t s b n perm i')"
  then show "i = i'"
    using block_at_decode(2) [OF ok] by (auto simp: set_thread_blocks [OF perm]) metis
qed simp

lemma all_threads_subset:
  assumes ok: "striping_ok t s b n" and perm: "permutes_unit perm (unit_blocks s b n)"
  shows "set (concat (map (thread_blocks t s b n perm) [0..<n])) \<subseteq> {0..<t div b}"
  using block_at_less [OF ok] by (auto simp: set_thread_blocks [OF perm])

lemma length_thread_blocks: "length (thread_blocks t s b n perm i) = (t div s) * unit_blocks s b n"
  by (simp add: thread_blocks_def length_concat comp_def sum_list_triv)

lemma length_all_threads:
  "length (concat (map (thread_blocks t s b n perm) [0..<n])) = n * ((t div s) * unit_blocks s b n)"
  by (simp add: length_concat comp_def length_thread_blocks sum_list_triv)

text \<open>
  Every block of the file is visited exactly if the strip unit is a whole number of blocks; if it
  is not, the remainder of each unit is left out.
\<close>

lemma all_threads_cover:
  assumes ok: "striping_ok t s b n" and perm: "permutes_unit perm (unit_blocks s b n)" and t: "0 < t"
  shows "set (concat (map (thread_blocks t s b n perm) [0..<n])) = {0..<t div b} \<longleftrightarrow> b dvd s div n"
    (is "?A = ?B \<longleftrightarrow> _")
proof -
  let ?u = "unit_blocks s b n"
  have sub: "?A \<subseteq> ?B" by (rule all_threads_subset [OF ok perm])
  have card: "card ?A = (t div s) * (n * ?u)"
    using distinct_card [OF distinct_all_threads [OF ok perm]]
    by (simp add: length_all_threads mult.commute mult.left_commute)
  have c: "0 < t div s"
    using ok t by (auto simp: striping_ok_def div_greater_zero_iff intro: dvd_imp_le mod_0_imp_dvd)
  have "card ?B = (t div s) * (s div b)" by (simp add: total_blocks [OF ok])
  moreover have "?A = ?B \<longleftrightarrow> card ?A = card ?B" using sub by (metis card_subset_eq finite_atLeastLessThan)
  ultimately have "?A = ?B \<longleftrightarrow> (t div s) * (n * ?u) = (t div s) * (s div b)" by (simp only: card)
  then show ?thesis using c by (simp add: unit_exact [OF ok])
qed

section \<open>On 64-bit integers\<close>

abbreviation nat_args :: "(nat \<Rightarrow> nat \<Rightarrow> nat \<Rightarrow> nat \<Rightarrow> 'r) \<Rightarrow> bench_args \<Rightarrow> 'r" where
  "nat_args f a \<equiv> f (unat (total_size a)) (unat (stripe_size a)) (unat (block_size a)) (unat (nthreads_arg a))"

definition args_unit :: "bench_args \<Rightarrow> nat" where
  "args_unit a = unit_blocks (unat (stripe_size a)) (unat (block_size a)) (unat (nthreads_arg a))"

text \<open>No offset computation overflows: the result is a block of the file.\<close>

lemma block_word:
  assumes ok: "nat_args striping_ok a" and i: "i < unat (nthreads_arg a)"
    and p: "unat p < args_unit a" and st: "st < unat (total_size a) div unat (stripe_size a)"
  shows "unat (p + (of_nat st * (stripe_size a div block_size a) +
      of_nat i * (stripe_size a div nthreads_arg a div block_size a))) =
    block_at (unat (stripe_size a)) (unat (block_size a)) (unat (nthreads_arg a)) i st (unat p)"
    (is "unat ?w = ?n")
proof -
  have "?w = of_nat (unat p + (st * unat (stripe_size a div block_size a) +
      i * unat (stripe_size a div nthreads_arg a div block_size a)))"
    by simp
  also have "\<dots> = of_nat ?n" by (simp only: block_at_def unit_blocks_def unat_div)
  finally have w: "?w = of_nat ?n" .
  have "?n < unat (total_size a) div unat (block_size a)"
    using block_at_less [OF ok i _ st] p by (simp add: args_unit_def)
  also have "\<dots> \<le> unat (total_size a)" by (rule div_le_dividend)
  also have "\<dots> < 2 ^ 64" by (rule unat_u64_less)
  finally show ?thesis unfolding w by (rule unat_of_nat_u64)
qed

text \<open>
  The interface: the check of the arguments, and the blocks a thread visits for a given order of
  the blocks of its unit.
\<close>

locale striped_bench =
  fixes check :: "bench_args \<Rightarrow> bool res"
    and offsets :: "bench_args \<Rightarrow> u64 list \<Rightarrow> nat \<Rightarrow> u64 list"
  assumes check_striping: "check a = Inr True \<Longrightarrow> nat_args striping_ok a"
    and offsets_loop: "check a = Inr True \<Longrightarrow> length access = args_unit a \<Longrightarrow>
      offsets a access i = concat (map (\<lambda>st. map (\<lambda>j. access ! j +
          (of_nat st * (stripe_size a div block_size a) + of_nat i * (stripe_size a div nthreads_arg a div block_size a)))
        [0..<args_unit a]) [0..<unat (total_size a) div unat (stripe_size a)])"
begin

definition all_offsets :: "bench_args \<Rightarrow> u64 list \<Rightarrow> u64 list" where
  "all_offsets a access = concat (map (offsets a access) [0..<unat (nthreads_arg a)])"

lemma offsets_nat:
  assumes chk: "check a = Inr True" and perm: "permutes_unit (map unat access) (args_unit a)"
    and i: "i < unat (nthreads_arg a)"
  shows "map unat (offsets a access i) = nat_args thread_blocks a (map unat access) i"
proof -
  have len: "length access = args_unit a" using permutes_unitD(2) [OF perm] by simp
  have lt: "unat (access ! j) < args_unit a" if "j < args_unit a" for j
    using permutes_unitD(3) [OF perm] len that by (metis atLeastLessThan_iff length_map nth_map nth_mem)
  show ?thesis
    unfolding offsets_loop [OF chk len] thread_blocks_def args_unit_def [symmetric] map_concat map_map comp_def
    using block_word [OF check_striping [OF chk] i] lt len by (intro arg_cong [where f = concat] map_cong) auto
qed

lemma all_offsets_nat:
  assumes "check a = Inr True" and "permutes_unit (map unat access) (args_unit a)"
  shows "map unat (all_offsets a access) =
    concat (map (nat_args thread_blocks a (map unat access)) [0..<unat (nthreads_arg a)])"
  using offsets_nat [OF assms] by (auto simp: all_offsets_def map_concat intro!: arg_cong [where f = concat])

lemma offsets_distinct:
  assumes "check a = Inr True" and "permutes_unit (map unat access) (args_unit a)"
  shows "distinct (all_offsets a access)"
  using distinct_all_threads [OF check_striping [OF assms(1)] assms(2) [unfolded args_unit_def]]
  unfolding all_offsets_nat [OF assms, symmetric] by (simp add: distinct_map)

lemma offsets_bound:
  assumes "check a = Inr True" and "permutes_unit (map unat access) (args_unit a)"
    and "x \<in> set (all_offsets a access)"
  shows "unat x < unat (total_size a) div unat (block_size a)"
proof -
  have "unat x \<in> set (map unat (all_offsets a access))" using assms(3) by simp
  then show ?thesis
    using all_threads_subset [OF check_striping [OF assms(1)] assms(2) [unfolded args_unit_def]]
    unfolding all_offsets_nat [OF assms(1,2)] by auto
qed

lemma offsets_cover:
  assumes "check a = Inr True" and "permutes_unit (map unat access) (args_unit a)" and "0 < unat (total_size a)"
  shows "unat ` set (all_offsets a access) = {0..<unat (total_size a) div unat (block_size a)} \<longleftrightarrow>
    unat (block_size a) dvd unat (stripe_size a) div unat (nthreads_arg a)"
  using all_threads_cover [OF check_striping [OF assms(1)] assms(2) [unfolded args_unit_def] assms(3)]
  unfolding all_offsets_nat [OF assms(1,2), symmetric] by simp

text \<open>A byte access of a block stays within the first \<open>total_size\<close> bytes, computed without overflow.\<close>

lemma offsets_bytes:
  assumes "check a = Inr True" and "permutes_unit (map unat access) (args_unit a)"
    and "x \<in> set (all_offsets a access)"
  shows "unat (x * block_size a) = unat x * unat (block_size a)"
    and "unat x * unat (block_size a) + unat (block_size a) \<le> unat (total_size a)"
proof -
  have "Suc (unat x) \<le> unat (total_size a) div unat (block_size a)"
    using offsets_bound [OF assms] by simp
  then have "Suc (unat x) * unat (block_size a) \<le> unat (total_size a) div unat (block_size a) * unat (block_size a)"
    by (rule mult_le_mono1)
  also have "\<dots> \<le> unat (total_size a)" by simp
  finally show le: "unat x * unat (block_size a) + unat (block_size a) \<le> unat (total_size a)" by simp
  show "unat (x * block_size a) = unat x * unat (block_size a)"
    by (rule unat_mult_u64) (use le unat_u64_less [of "total_size a"] in linarith)
qed

end

text \<open>
  \<open>std::iota\<close> followed by \<open>std::shuffle\<close> (library code, which only permutes), as the programs
  prepare the order of the blocks of a unit.
\<close>

definition shuffles :: "(u64 list \<Rightarrow> u64 list) \<Rightarrow> bool" where
  "shuffles shuffle \<longleftrightarrow> (\<forall>xs. mset (shuffle xs) = mset xs)"

lemma iota_permutes:
  assumes "shuffles shuffle" and "u < 2 ^ 64"
  shows "permutes_unit (map unat (shuffle (map of_nat [0..<u]))) u"
    and "permutes_unit (map unat (map of_nat [0..<u] :: u64 list)) u"
proof -
  have iota: "map unat (map of_nat [0..<u] :: u64 list) = [0..<u]"
    using assms(2) unat_of_nat_u64 by (auto intro!: nth_equalityI)
  then show "permutes_unit (map unat (map of_nat [0..<u] :: u64 list)) u" by (simp add: permutes_unit_def)
  have "mset (map unat (shuffle (map of_nat [0..<u]))) = mset (map unat (map of_nat [0..<u] :: u64 list))"
    using assms(1) by (simp only: shuffles_def mset_map)
  then show "permutes_unit (map unat (shuffle (map of_nat [0..<u]))) u"
    by (simp only: permutes_unit_def iota)
qed

section \<open>Two nested loops\<close>

text \<open>
  The values \<open>f stripe j\<close> that a loop over stripes around a loop over \<open>u\<close> blocks has gone through
  when it stands at block \<open>j\<close> of stripe \<open>st\<close>.
\<close>

definition loop_done :: "(nat \<Rightarrow> nat \<Rightarrow> 'x) \<Rightarrow> nat \<Rightarrow> nat \<Rightarrow> nat \<Rightarrow> 'x list" where
  "loop_done f u st j = concat (map (\<lambda>stripe. map (f stripe) [0..<u]) [0..<st]) @ map (f st) [0..<j]"

lemma loop_done_simps [simp]:
  "loop_done f u 0 0 = []"
  "loop_done f u st (Suc j) = loop_done f u st j @ [f st j]"
  "loop_done f u (Suc st) 0 = loop_done f u st u"
  by (simp_all add: loop_done_def)

text \<open>The log of one thread, in a log of all threads.\<close>

definition log_of :: "nat \<Rightarrow> (nat \<times> 'x) list \<Rightarrow> 'x list" where
  "log_of i log = map snd (filter (\<lambda>e. fst e = i) log)"

lemma log_of_simps [simp]:
  "log_of i [] = []"
  "log_of i (log @ [(k, x)]) = (if k = i then log_of i log @ [x] else log_of i log)"
  by (simp_all add: log_of_def)

end
