(* ===== verification/Pmem2_Bench.thy ===== *)
theory Pmem2_Bench
  imports Striping
begin

text \<open>
  Model of \<open>pmem2bench\<close>: arguments, source selection, the layout of the accesses, and the worker
  threads that copy blocks between a thread-local buffer and the mapped file. libpmem2, the
  operating system and the option parser are parameters. Threads are interleaved block by block.
\<close>

section \<open>Arguments\<close>

definition kSourceType :: "string list" where
  "kSourceType = [''fsdax'', ''devdax'', ''anon'']"

datatype granularity = GRANULARITY_PAGE | GRANULARITY_CACHE_LINE | GRANULARITY_BYTE

definition pmem2_defaults :: "(string \<times> string) list" where
  "pmem2_defaults =
     [(''source'', ''fsdax''), (''path'', ''./pmem2bench.file''), (''file_size'', ''1G''), (''block'', ''512''),
      (''stripe'', ''512''), (''nthreads'', ''1''), (''total'', ''1G''), (''granularity'', ''page'')]"

definition parse_granularity :: "string \<Rightarrow> granularity option" where
  "parse_granularity s =
     (if s = ''page'' then Some GRANULARITY_PAGE
      else if s = ''cacheline'' then Some GRANULARITY_CACHE_LINE
      else if s = ''byte'' then Some GRANULARITY_BYTE else None)"

text \<open>The sizes are converted one after the other; \<open>main\<close> has no handler for the exception.\<close>

definition pmem2_sizes :: "parsed \<Rightarrow> bench_args res" where
  "pmem2_sizes r =
     (case prettyTo 1024 (opt_text r ''file_size'') of Inl e \<Rightarrow> Inl e | Inr f \<Rightarrow>
      case prettyTo 1024 (opt_text r ''block'') of Inl e \<Rightarrow> Inl e | Inr b \<Rightarrow>
      case prettyTo 1024 (opt_text r ''stripe'') of Inl e \<Rightarrow> Inl e | Inr s \<Rightarrow>
      case prettyTo 1024 (opt_text r ''nthreads'') of Inl e \<Rightarrow> Inl e | Inr n \<Rightarrow>
      case prettyTo 1024 (opt_text r ''total'') of Inl e \<Rightarrow> Inl e | Inr t \<Rightarrow>
        Inr \<lparr>file_size = f, block_size = b, stripe_size = s, nthreads_arg = n, total_size = t,
             op_read = opt_count r ''read'' \<noteq> 0, op_write = opt_count r ''write'' \<noteq> 0,
             op_random = opt_count r ''random'' \<noteq> 0\<rparr>)"

text \<open>
  The condition of \<open>Invalid arguments\<close>, evaluated from left to right with short circuit; a
  remainder by zero is undefined behaviour.
\<close>

definition pmem2_check :: "bench_args \<Rightarrow> bool res" where
  "pmem2_check a =
     (if stripe_size a = 0 then Inl Undefined
      else if total_size a mod stripe_size a \<noteq> 0 then Inr False
      else if block_size a = 0 then Inl Undefined
      else if total_size a mod block_size a \<noteq> 0 then Inr False
      else if stripe_size a mod block_size a \<noteq> 0 then Inr False
      else if nthreads_arg a = 0 then Inl Undefined
      else if stripe_size a mod nthreads_arg a \<noteq> 0 then Inr False
      else Inr (\<not> (stripe_size a div nthreads_arg a < block_size a \<or> op_read a = op_write a)))"

definition pmem2_args :: "parsed \<Rightarrow> ended + bench_args" where
  "pmem2_args r =
     (if opt_count r ''help'' \<noteq> 0 then Inl (Exited 0)
      else case pmem2_sizes r of
        Inl e \<Rightarrow> Inl (Uncaught e)
      | Inr a \<Rightarrow>
          if parse_granularity (opt_text r ''granularity'') = None then Inl (Exited 1)
          else if \<not> op_read a \<and> \<not> op_write a then Inl (Exited 1)
          else if opt_text r ''source'' \<notin> set kSourceType then Inl (Exited 1)
          else case pmem2_check a of
            Inl e \<Rightarrow> Inl (Uncaught e)
          | Inr ok \<Rightarrow> if ok then Inr a else Inl (Exited 1))"

section \<open>Sources\<close>

text \<open>
  \<open>os_open path create\<close>, \<open>os_ftruncate fd size\<close>, \<open>from_fd fd\<close> and \<open>from_anon size\<close> are the system
  and library calls, with their return values; the result is the function's value and the
  descriptors it has opened and not closed.
\<close>

record pmem2_calls =
  os_open :: "string \<Rightarrow> bool \<Rightarrow> int"
  os_ftruncate :: "int \<Rightarrow> int \<Rightarrow> int"
  from_fd :: "int \<Rightarrow> int"
  from_anon :: "u64 \<Rightarrow> int"
  config_new :: int
  set_granularity :: "granularity \<Rightarrow> int"
  map_new :: int

definition createPmem2SourceFromFsdax :: "pmem2_calls \<Rightarrow> string \<Rightarrow> int \<Rightarrow> bool \<times> int list" where
  "createPmem2SourceFromFsdax sys path fsize =
     (let fd = os_open sys path False in
      if fd < 0 then
        (let fd2 = os_open sys path True in
         if fd2 < 0 then (False, [])
         else if os_ftruncate sys fd2 fsize \<noteq> 0 then (False, [fd2])
         else (from_fd sys fd2 = 0, [fd2]))
      else (from_fd sys fd = 0, [fd]))"

definition createPmem2SourceFromDevdax :: "pmem2_calls \<Rightarrow> string \<Rightarrow> bool \<times> int list" where
  "createPmem2SourceFromDevdax sys path =
     (let fd = os_open sys path False in
      (from_fd sys fd = 0, if fd < 0 then [] else [fd]))"

definition createPmem2SourceFromAnonymous :: "pmem2_calls \<Rightarrow> u64 \<Rightarrow> bool \<times> int list" where
  "createPmem2SourceFromAnonymous sys fsize = (from_anon sys fsize = 0, [])"

definition pmem2_source :: "pmem2_calls \<Rightarrow> parsed \<Rightarrow> bench_args \<Rightarrow> bool \<times> int list" where
  "pmem2_source sys r a =
     (if opt_text r ''source'' = ''fsdax''
      then createPmem2SourceFromFsdax sys (opt_text r ''path'') (sint (file_size a))
      else if opt_text r ''source'' = ''devdax''
      then createPmem2SourceFromDevdax sys (opt_text r ''path'')
      else createPmem2SourceFromAnonymous sys (file_size a))"

text \<open>
  \<open>main\<close> up to the start of the workers: the arguments to run with, or how the program ends
  before. A dry run touches neither file nor library.
\<close>

definition pmem2_prepare :: "pmem2_calls \<Rightarrow> parsed \<Rightarrow> ended + bench_args" where
  "pmem2_prepare sys r =
     (case pmem2_args r of
        Inl x \<Rightarrow> Inl x
      | Inr a \<Rightarrow>
          if opt_count r ''dry-run'' \<noteq> 0 then Inr a
          else if \<not> fst (pmem2_source sys r a) then Inl (Exited 1)
          else if config_new sys \<noteq> 0 then Inl (Exited 1)
          else if set_granularity sys (the (parse_granularity (opt_text r ''granularity''))) \<noteq> 0 then Inl (Exited 1)
          else if map_new sys \<noteq> 0 then Inl (Exited 1)
          else Inr a)"

section \<open>Layout and workers\<close>

definition stripe_count :: "bench_args \<Rightarrow> u64" where
  "stripe_count a = total_size a div stripe_size a"

definition strip_unit_size :: "bench_args \<Rightarrow> u64" where
  "strip_unit_size a = stripe_size a div nthreads_arg a"

definition blocks_in_strip_unit :: "bench_args \<Rightarrow> u64" where
  "blocks_in_strip_unit a = strip_unit_size a div block_size a"

definition blocks_in_stripe :: "bench_args \<Rightarrow> u64" where
  "blocks_in_stripe a = stripe_size a div block_size a"

definition access_offset :: "(u64 list \<Rightarrow> u64 list) \<Rightarrow> bench_args \<Rightarrow> u64 list" where
  "access_offset shuffle a =
     (let iota = map of_nat [0..<unat (blocks_in_strip_unit a)] in
      if op_random a then shuffle iota else iota)"

text \<open>The loop nest of worker \<open>i\<close>: the values of \<open>block_ofs\<close> in order.\<close>

definition pmem2_offsets :: "bench_args \<Rightarrow> u64 list \<Rightarrow> nat \<Rightarrow> u64 list" where
  "pmem2_offsets a access i =
     concat (map (\<lambda>stripe.
       let strip_ofs = of_nat stripe * blocks_in_stripe a + of_nat i * blocks_in_strip_unit a in
       map (\<lambda>j. access ! j + strip_ofs) [0..<unat (blocks_in_strip_unit a)])
     [0..<unat (stripe_count a)])"

text \<open>
  The mapped file (\<open>map_size\<close> bytes from \<open>addr\<close>), the thread-local buffers of 2 MiB, what each
  worker still has to do and the accesses made so far (the lines of a verbose dry run).
\<close>

record pmem2_state =
  mapped :: "nat \<Rightarrow> char"
  bufs :: "nat \<Rightarrow> nat \<Rightarrow> char"
  pending_ops :: "nat \<Rightarrow> u64 list"
  accesses :: "(nat \<times> u64) list"

definition buf_size :: nat where
  "buf_size = 2 * 1024 * 1024"

definition copy_bytes :: "(nat \<Rightarrow> char) \<Rightarrow> nat \<Rightarrow> (nat \<Rightarrow> char) \<Rightarrow> nat \<Rightarrow> nat \<Rightarrow> nat \<Rightarrow> char" where
  "copy_bytes src from dst at len x = (if at \<le> x \<and> x < at + len then src (from + (x - at)) else dst x)"

definition pmem2_access :: "bool \<Rightarrow> nat \<Rightarrow> bench_args \<Rightarrow> nat \<Rightarrow> u64 \<Rightarrow> pmem2_state \<Rightarrow> pmem2_state res" where
  "pmem2_access dry map_size a i block_ofs s =
     (let ofs = unat (block_ofs * block_size a); len = unat (block_size a) in
      if dry then Inr s
      else if ofs + len > map_size \<or> len > buf_size then Inl Undefined
      else if op_write a then Inr (s\<lparr>mapped := copy_bytes (bufs s i) 0 (mapped s) ofs len\<rparr>)
      else Inr (s\<lparr>bufs := (bufs s)(i := copy_bytes (mapped s) ofs (bufs s i) 0 len)\<rparr>))"

text \<open>
  The state in which the workers pass the first barrier: each has copied the random data, as long
  as a block, into its buffer, which is undefined if the data is longer than the buffer.
\<close>

definition pmem2_start ::
  "bench_args \<Rightarrow> u64 list \<Rightarrow> string \<Rightarrow> (nat \<Rightarrow> char) \<Rightarrow> (nat \<Rightarrow> nat \<Rightarrow> char) \<Rightarrow> pmem2_state res"
where
  "pmem2_start a access data m b =
     (if length data > buf_size then Inl Undefined
      else Inr \<lparr>mapped = m, bufs = (\<lambda>i. copy_bytes (\<lambda>x. data ! x) 0 (b i) 0 (length data)),
                pending_ops = pmem2_offsets a access, accesses = []\<rparr>)"

definition pmem2_work :: "bool \<Rightarrow> nat \<Rightarrow> bench_args \<Rightarrow> nat \<Rightarrow> pmem2_state \<Rightarrow> pmem2_state res option" where
  "pmem2_work dry map_size a i s =
     (case pending_ops s i of
        [] \<Rightarrow> None
      | x # xs \<Rightarrow>
          Some (case pmem2_access dry map_size a i x s of
                  Inl e \<Rightarrow> Inl e
                | Inr s' \<Rightarrow> Inr (s'\<lparr>pending_ops := (pending_ops s)(i := xs), accesses := accesses s @ [(i, x)]\<rparr>)))"

inductive pmem2_step :: "bool \<Rightarrow> nat \<Rightarrow> bench_args \<Rightarrow> pmem2_state \<Rightarrow> pmem2_state \<Rightarrow> bool"
  for dry map_size a where
  "i < unat (nthreads_arg a) \<Longrightarrow> pmem2_work dry map_size a i s = Some (Inr t) \<Longrightarrow> pmem2_step dry map_size a s t"

text \<open>A worker is about to do something undefined.\<close>

definition pmem2_stuck :: "bool \<Rightarrow> nat \<Rightarrow> bench_args \<Rightarrow> pmem2_state \<Rightarrow> bool" where
  "pmem2_stuck dry map_size a s \<longleftrightarrow> (\<exists>i < unat (nthreads_arg a). \<exists>e. pmem2_work dry map_size a i s = Some (Inl e))"

definition pmem2_done :: "bench_args \<Rightarrow> pmem2_state \<Rightarrow> bool" where
  "pmem2_done a s \<longleftrightarrow> (\<forall>i < unat (nthreads_arg a). pending_ops s i = [])"

section \<open>The interface of striping\<close>

lemma check_nat:
  "pmem2_check a = Inr True \<Longrightarrow> nat_args striping_ok a"
  by (auto simp: pmem2_check_def striping_ok_def u64_zero_iff unat_mod unat_div word_less_nat_alt split: if_splits)

lemma unat_unit: "unat (blocks_in_strip_unit a) = args_unit a"
  by (simp add: blocks_in_strip_unit_def strip_unit_size_def args_unit_def unit_blocks_def unat_div)

interpretation p2: striped_bench pmem2_check pmem2_offsets
proof unfold_locales
  fix a access i
  show "nat_args striping_ok a" if "pmem2_check a = Inr True" using check_nat [OF that] .
  show "pmem2_offsets a access i = concat (map (\<lambda>st. map (\<lambda>j. access ! j +
          (of_nat st * (stripe_size a div block_size a) + of_nat i * (stripe_size a div nthreads_arg a div block_size a)))
        [0..<args_unit a]) [0..<unat (total_size a) div unat (stripe_size a)])"
    by (simp add: pmem2_offsets_def Let_def unat_unit) (simp add: stripe_count_def blocks_in_stripe_def
      blocks_in_strip_unit_def strip_unit_size_def unat_div)
qed

lemma access_offset_permutes:
  assumes "shuffles shuffle"
  shows "permutes_unit (map unat (access_offset shuffle a)) (args_unit a)"
proof -
  have "args_unit a < 2 ^ 64" using unat_u64_less [of "blocks_in_strip_unit a"] by (simp add: unat_unit)
  from iota_permutes [OF assms this] show ?thesis by (simp add: access_offset_def Let_def unat_unit)
qed

section \<open>Invariant of the workers\<close>

definition p2_setup :: "bool \<Rightarrow> nat \<Rightarrow> bench_args \<Rightarrow> u64 list \<Rightarrow> string \<Rightarrow> bool" where
  "p2_setup dry map_size a access data \<longleftrightarrow> pmem2_check a = Inr True \<and>
     permutes_unit (map unat access) (args_unit a) \<and> length data = unat (block_size a) \<and>
     length data \<le> buf_size \<and> (dry \<or> unat (total_size a) \<le> map_size)"

definition done_by :: "nat \<Rightarrow> pmem2_state \<Rightarrow> u64 list" where
  "done_by i s = log_of i (accesses s)"

text \<open>What the mapped file holds once the blocks \<open>V\<close> have been written.\<close>

definition written_file :: "nat \<Rightarrow> string \<Rightarrow> nat set \<Rightarrow> (nat \<Rightarrow> char) \<Rightarrow> nat \<Rightarrow> char" where
  "written_file b data V m y = (if y div b \<in> V then data ! (y mod b) else m y)"

definition p2_inv ::
  "bool \<Rightarrow> nat \<Rightarrow> bench_args \<Rightarrow> u64 list \<Rightarrow> string \<Rightarrow> (nat \<Rightarrow> char) \<Rightarrow> pmem2_state \<Rightarrow> bool"
where
  "p2_inv dry map_size a access data m s \<longleftrightarrow> p2_setup dry map_size a access data \<and>
     (\<forall>i < unat (nthreads_arg a). done_by i s @ pending_ops s i = pmem2_offsets a access i) \<and>
     fst ` set (accesses s) \<subseteq> {..<unat (nthreads_arg a)} \<and>
     (op_write a \<longrightarrow> (\<forall>i. \<forall>y < length data. bufs s i y = data ! y)) \<and>
     mapped s = (if op_write a \<and> \<not> dry
       then written_file (unat (block_size a)) data (unat ` snd ` set (accesses s)) m else m)"

lemma block_bytes:
  assumes "0 < (b::nat)"
  shows "x * b \<le> y \<and> y < x * b + b \<longleftrightarrow> y div b = x"
proof
  assume "x * b \<le> y \<and> y < x * b + b"
  then show "y div b = x" by (intro div_nat_eqI) (simp_all add: mult.commute)
next
  assume "y div b = x"
  then show "x * b \<le> y \<and> y < x * b + b"
    using div_times_less_eq_dividend [of y b] dividend_less_div_times [OF assms, of y] by (simp add: add.commute)
qed

lemma copy_block:
  assumes "0 < b" and "\<forall>y < b. buf y = data ! y"
  shows "copy_bytes buf 0 (written_file b data V m) (x * b) b = written_file b data (insert x V) m"
proof
  fix y
  show "copy_bytes buf 0 (written_file b data V m) (x * b) b y = written_file b data (insert x V) m y"
  proof (cases "y div b = x")
    case True
    then have "x * b \<le> y" "y < x * b + b" and "y - x * b = y mod b"
      using block_bytes [OF assms(1), of x y] by (auto simp: modulo_nat_def mult.commute)
    then show ?thesis using True assms by (simp add: copy_bytes_def written_file_def)
  next
    case False
    then show ?thesis using block_bytes [OF assms(1), of x y] by (auto simp: copy_bytes_def written_file_def)
  qed
qed

lemma pending_in_offsets:
  assumes inv: "p2_inv dry map_size a access data m s" and i: "i < unat (nthreads_arg a)"
    and p: "pending_ops s i = x # xs"
  shows "x \<in> set (p2.all_offsets a access)"
proof -
  have "done_by i s @ pending_ops s i = pmem2_offsets a access i" using inv i by (simp add: p2_inv_def)
  then have "x \<in> set (pmem2_offsets a access i)" using p by (metis in_set_conv_decomp)
  then show ?thesis using i by (auto simp: p2.all_offsets_def)
qed

lemma p2_access_ok:
  assumes inv: "p2_inv dry map_size a access data m s" and i: "i < unat (nthreads_arg a)"
    and p: "pending_ops s i = x # xs"
  obtains s' where "pmem2_access dry map_size a i x s = Inr s'" "pending_ops s' = pending_ops s"
    "accesses s' = accesses s"
    "op_write a \<longrightarrow> (\<forall>j. \<forall>y < length data. bufs s' j y = data ! y)"
    "mapped s' = (if op_write a \<and> \<not> dry
       then written_file (unat (block_size a)) data (insert (unat x) (unat ` snd ` set (accesses s))) m else m)"
proof -
  have st: "p2_setup dry map_size a access data" using inv by (simp add: p2_inv_def)
  then have chk: "pmem2_check a = Inr True" and perm: "permutes_unit (map unat access) (args_unit a)"
    and len: "length data = unat (block_size a)" "length data \<le> buf_size"
    and room: "dry \<or> unat (total_size a) \<le> map_size" by (auto simp: p2_setup_def)
  note x = pending_in_offsets [OF inv i p]
  note ofs = p2.offsets_bytes [OF chk perm x]
  have pos: "0 < unat (block_size a)" using check_nat [OF chk] by (simp add: striping_ok_def)
  let ?V = "unat ` snd ` set (accesses s)" and ?b = "unat (block_size a)"
  have buf: "\<forall>y < ?b. bufs s i y = data ! y" if "op_write a" using inv that len by (simp add: p2_inv_def)
  have copy: "copy_bytes (bufs s i) 0 (written_file ?b data ?V m) (unat x * ?b) ?b =
      written_file ?b data (insert (unat x) ?V) m" if "op_write a"
    using copy_block [OF pos buf [OF that]] by simp
  have fits: "\<not> (unat (x * block_size a) + ?b > map_size \<or> ?b > buf_size)" if "\<not> dry"
    using ofs room len that by auto
  have mem: "mapped s = (if op_write a \<and> \<not> dry then written_file ?b data ?V m else m)"
    and bufs: "op_write a \<longrightarrow> (\<forall>j. \<forall>y < length data. bufs s j y = data ! y)"
    using inv by (auto simp: p2_inv_def)
  consider "dry" | "\<not> dry" "op_write a" | "\<not> dry" "\<not> op_write a" by blast
  then show thesis
  proof cases
    case 1
    then have "pmem2_access dry map_size a i x s = Inr s" by (simp add: pmem2_access_def)
    then show thesis by (rule that) (use 1 mem bufs in auto)
  next
    case 2
    then have "pmem2_access dry map_size a i x s =
        Inr (s\<lparr>mapped := copy_bytes (bufs s i) 0 (mapped s) (unat x * ?b) ?b\<rparr>)"
      using fits by (simp add: pmem2_access_def Let_def ofs(1))
    then show thesis by (rule that) (use 2 mem bufs copy in auto)
  next
    case 3
    then have "pmem2_access dry map_size a i x s =
        Inr (s\<lparr>bufs := (bufs s)(i := copy_bytes (mapped s) (unat x * ?b) (bufs s i) 0 ?b)\<rparr>)"
      using fits by (simp add: pmem2_access_def Let_def ofs(1))
    then show thesis by (rule that) (use 3 mem in auto)
  qed
qed

lemma p2_work_inv:
  assumes inv: "p2_inv dry map_size a access data m s" and i: "i < unat (nthreads_arg a)"
    and w: "pmem2_work dry map_size a i s = Some (Inr t)"
  shows "p2_inv dry map_size a access data m t"
proof -
  obtain x xs where p: "pending_ops s i = x # xs"
    using w by (auto simp: pmem2_work_def split: list.splits)
  obtain s' where acc: "pmem2_access dry map_size a i x s = Inr s'" "pending_ops s' = pending_ops s"
    "accesses s' = accesses s" "op_write a \<longrightarrow> (\<forall>j. \<forall>y < length data. bufs s' j y = data ! y)"
    "mapped s' = (if op_write a \<and> \<not> dry
       then written_file (unat (block_size a)) data (insert (unat x) (unat ` snd ` set (accesses s))) m else m)"
    using p2_access_ok [OF inv i p] by metis
  have t: "t = s'\<lparr>pending_ops := (pending_ops s)(i := xs), accesses := accesses s @ [(i, x)]\<rparr>"
    using w p acc(1) by (simp add: pmem2_work_def)
  have "done_by j t @ pending_ops t j = done_by j s @ pending_ops s j" for j
    using p by (simp add: t done_by_def log_of_def)
  moreover have "unat ` snd ` set (accesses t) = insert (unat x) (unat ` snd ` set (accesses s))"
    by (auto simp: t)
  moreover have "fst ` set (accesses t) \<subseteq> {..<unat (nthreads_arg a)}"
    using inv i by (simp add: p2_inv_def t)
  moreover have "bufs t = bufs s'" "mapped t = mapped s'" by (simp_all add: t)
  ultimately show ?thesis using inv acc(4,5) unfolding p2_inv_def by simp
qed

lemma p2_not_stuck:
  assumes "p2_inv dry map_size a access data m s"
  shows "\<not> pmem2_stuck dry map_size a s"
proof
  assume "pmem2_stuck dry map_size a s"
  then obtain i e where i: "i < unat (nthreads_arg a)" and w: "pmem2_work dry map_size a i s = Some (Inl e)"
    by (auto simp: pmem2_stuck_def)
  then obtain x xs where p: "pending_ops s i = x # xs" by (auto simp: pmem2_work_def split: list.splits)
  obtain s' where "pmem2_access dry map_size a i x s = Inr s'"
    using p2_access_ok [OF assms i p] by metis
  with w p show False by (simp add: pmem2_work_def)
qed

definition p2_initial ::
  "bool \<Rightarrow> nat \<Rightarrow> bench_args \<Rightarrow> u64 list \<Rightarrow> string \<Rightarrow> (nat \<Rightarrow> char) \<Rightarrow> pmem2_state \<Rightarrow> bool"
where
  "p2_initial dry map_size a access data m s \<longleftrightarrow> p2_setup dry map_size a access data \<and>
     (\<exists>b. pmem2_start a access data m b = Inr s)"

lemma p2_initial_inv: "p2_initial dry map_size a access data m s \<Longrightarrow> p2_inv dry map_size a access data m s"
  by (auto simp: p2_initial_def p2_inv_def pmem2_start_def done_by_def log_of_def written_file_def copy_bytes_def
      split: if_splits)

definition p2_todo :: "bench_args \<Rightarrow> pmem2_state \<Rightarrow> nat" where
  "p2_todo a s = (\<Sum>i < unat (nthreads_arg a). length (pending_ops s i))"

lemma p2_work_todo:
  assumes i: "i < unat (nthreads_arg a)" and w: "pmem2_work dry map_size a i s = Some (Inr t)"
  shows "p2_todo a t < p2_todo a s"
proof -
  obtain x xs where p: "pending_ops s i = x # xs" and q: "pending_ops t = (pending_ops s)(i := xs)"
    using w by (auto simp: pmem2_work_def split: list.splits sum.splits)
  from sum_fun_upd [where f = length and p = "pending_ops s" and x = xs, OF i] p q show ?thesis
    by (simp add: p2_todo_def)
qed

interpretation p2w: terminating_system "p2_initial dry map_size a access data m" "pmem2_step dry map_size a"
  "p2_inv dry map_size a access data m" "pmem2_done a" "p2_todo a"
  for dry map_size a access data m
proof unfold_locales
  fix s t
  show "p2_inv dry map_size a access data m s" if "p2_initial dry map_size a access data m s"
    using p2_initial_inv [OF that] .
  show "p2_inv dry map_size a access data m t" if "p2_inv dry map_size a access data m s" "pmem2_step dry map_size a s t"
    using that(2,1) p2_work_inv by cases blast
  show "p2_todo a t < p2_todo a s" if "p2_inv dry map_size a access data m s" "pmem2_step dry map_size a s t"
    using that(2) p2_work_todo by cases blast
  show "\<exists>t. pmem2_step dry map_size a s t" if inv: "p2_inv dry map_size a access data m s" and "\<not> pmem2_done a s"
  proof -
    from that obtain i x xs where i: "i < unat (nthreads_arg a)" and p: "pending_ops s i = x # xs"
      by (auto simp: pmem2_done_def neq_Nil_conv)
    from p2_access_ok [OF inv i p] obtain s' where "pmem2_access dry map_size a i x s = Inr s'" by metis
    then have "pmem2_work dry map_size a i s =
        Some (Inr (s'\<lparr>pending_ops := (pending_ops s)(i := xs), accesses := accesses s @ [(i, x)]\<rparr>))"
      using p by (simp add: pmem2_work_def)
    with i show ?thesis by (blast intro: pmem2_step.intros)
  qed
qed

text \<open>When all are done, exactly the blocks of the layout have been visited.\<close>

lemma p2_done_blocks:
  assumes inv: "p2_inv dry map_size a access data m s" and fin: "pmem2_done a s"
  shows "snd ` set (accesses s) = set (p2.all_offsets a access)"
proof -
  have eq: "done_by i s = pmem2_offsets a access i" if "i < unat (nthreads_arg a)" for i
  proof -
    have "done_by i s @ pending_ops s i = pmem2_offsets a access i" using inv that by (simp add: p2_inv_def)
    with fin that show ?thesis by (simp add: pmem2_done_def)
  qed
  have "set (accesses s) = {e \<in> set (accesses s). fst e < unat (nthreads_arg a)}"
    using inv by (auto simp: p2_inv_def)
  then have "snd ` set (accesses s) = (\<Union>i \<in> {..<unat (nthreads_arg a)}. set (done_by i s))"
    by (subst \<open>set (accesses s) = _\<close>) (auto simp: done_by_def log_of_def)
  also have "\<dots> = set (p2.all_offsets a access)" using eq by (auto simp: p2.all_offsets_def)
  finally show ?thesis .
qed

section \<open>Properties\<close>

text \<open>
  C31. What the argument check of \<open>pmem2bench\<close> guarantees about the accesses, for every shuffle:
  the block numbers the threads compute on 64-bit integers lie in the first \<open>total_size\<close> bytes,
  no block is visited twice, neither by one thread nor by two, and all blocks are visited if and
  only if the strip unit of a thread is a whole number of blocks. The check does not ask for the
  latter, and the reported throughput divides \<open>total_size\<close> by the time in any case.
\<close>

theorem pmem2_layout:
  assumes "pmem2_check a = Inr True" and "shuffles shuffle" and "total_size a \<noteq> 0"
    and "blocks = concat (map (pmem2_offsets a (access_offset shuffle a)) [0..<unat (nthreads_arg a)])"
  shows "distinct blocks \<and> unat ` set blocks \<subseteq> {0..<unat (total_size a) div unat (block_size a)} \<and>
    (unat ` set blocks = {0..<unat (total_size a) div unat (block_size a)} \<longleftrightarrow>
       unat (block_size a) dvd unat (stripe_size a) div unat (nthreads_arg a))"
proof -
  note perm = access_offset_permutes [OF assms(2), of a]
  have blocks: "blocks = p2.all_offsets a (access_offset shuffle a)"
    by (simp add: assms(4) p2.all_offsets_def)
  have pos: "0 < unat (total_size a)" using assms(3) by (simp add: u64_zero_iff)
  show ?thesis
    using p2.offsets_distinct [OF assms(1) perm] p2.offsets_bound [OF assms(1) perm]
      p2.offsets_cover [OF assms(1) perm pos] by (auto simp: blocks)
qed

text \<open>The workers only ever start on arguments that passed the check.\<close>

lemma pmem2_prepare_checked:
  "pmem2_prepare sys r = Inr a \<Longrightarrow> pmem2_check a = Inr True \<and> (op_write a \<longleftrightarrow> \<not> op_read a)"
  by (auto simp: pmem2_prepare_def pmem2_args_def pmem2_check_def split: sum.splits if_splits)

text \<open>Every early exit after the arguments have been accepted has status 1.\<close>

lemma pmem2_prepare_exit:
  "pmem2_args r = Inr a \<Longrightarrow> pmem2_prepare sys r = Inl x \<Longrightarrow> x = Exited 1"
  by (auto simp: pmem2_prepare_def split: if_splits)

text \<open>
  A configuration the program accepts although it leaves a third of the blocks out: two threads,
  a stripe of three blocks.
\<close>

definition uneven_args :: bench_args where
  "uneven_args = \<lparr>file_size = 24, block_size = 4, stripe_size = 12, nthreads_arg = 2, total_size = 24,
     op_read = False, op_write = True, op_random = False\<rparr>"

lemma uneven_check: "pmem2_check uneven_args = Inr True"
  by (simp add: pmem2_check_def uneven_args_def)

theorem pmem2_layout_witness:
  "pmem2_check uneven_args = Inr True \<and>
   unat ` set (concat (map (pmem2_offsets uneven_args (access_offset id uneven_args)) [0..<2])) \<noteq> {0..<6}"
proof -
  have "shuffles id" by (simp add: shuffles_def)
  from pmem2_layout [OF uneven_check this _ refl] uneven_check show ?thesis
    by (simp add: uneven_args_def dvd_eq_mod_eq_0)
qed


definition even_args :: bench_args where
  "even_args = \<lparr>file_size = 8, block_size = 4, stripe_size = 8, nthreads_arg = 2, total_size = 8,
     op_read = False, op_write = True, op_random = True\<rparr>"


end
