(* ===== verification/Pmemblk_Bench.thy ===== *)
theory Pmemblk_Bench
  imports Striping
begin

text \<open>
  Model of \<open>pmemblkbench\<close>: like \<open>pmem2bench\<close>, but the accesses go through libpmemblk and may fail.
  A worker that meets a failure raises the shared flag \<open>fail\<close> and leaves; the others leave at the
  end of the stripe in which they see it. The library calls are parameters.
\<close>

section \<open>Arguments and pool\<close>

definition blk_defaults :: "(string \<times> string) list" where
  "blk_defaults =
     [(''pool'', ''./pmemblkbench.pool''), (''pool_size'', ''2G''), (''block'', ''512''), (''stripe'', ''512''),
      (''nthreads'', ''1''), (''total'', ''1G'')]"

definition blk_sizes :: "parsed \<Rightarrow> bench_args res" where
  "blk_sizes r =
     (case prettyTo 1024 (opt_text r ''pool_size'') of Inl e \<Rightarrow> Inl e | Inr f \<Rightarrow>
      case prettyTo 1024 (opt_text r ''block'') of Inl e \<Rightarrow> Inl e | Inr b \<Rightarrow>
      case prettyTo 1024 (opt_text r ''stripe'') of Inl e \<Rightarrow> Inl e | Inr s \<Rightarrow>
      case prettyTo 1024 (opt_text r ''nthreads'') of Inl e \<Rightarrow> Inl e | Inr n \<Rightarrow>
      case prettyTo 1024 (opt_text r ''total'') of Inl e \<Rightarrow> Inl e | Inr t \<Rightarrow>
        Inr \<lparr>file_size = f, block_size = b, stripe_size = s, nthreads_arg = n, total_size = t,
             op_read = opt_count r ''read'' \<noteq> 0, op_write = opt_count r ''write'' \<noteq> 0,
             op_random = opt_count r ''random'' \<noteq> 0\<rparr>)"

definition blk_check :: "bench_args \<Rightarrow> bool res" where
  "blk_check a =
     (if stripe_size a = 0 then Inl Undefined
      else if total_size a mod stripe_size a \<noteq> 0 then Inr False
      else if block_size a = 0 then Inl Undefined
      else if total_size a mod block_size a \<noteq> 0 then Inr False
      else if stripe_size a mod block_size a \<noteq> 0 then Inr False
      else if nthreads_arg a = 0 then Inl Undefined
      else if stripe_size a mod nthreads_arg a \<noteq> 0 then Inr False
      else Inr (\<not> (stripe_size a div nthreads_arg a < block_size a \<or> op_read a = op_write a)))"

text \<open>\<open>min_pool\<close> is the library's \<open>PMEMBLK_MIN_POOL\<close>.\<close>

definition blk_args :: "u64 \<Rightarrow> parsed \<Rightarrow> ended + bench_args" where
  "blk_args min_pool r =
     (if opt_count r ''help'' \<noteq> 0 then Inl (Exited 0)
      else case blk_sizes r of
        Inl e \<Rightarrow> Inl (Uncaught e)
      | Inr a \<Rightarrow>
          if \<not> op_read a \<and> \<not> op_write a then Inl (Exited 1)
          else (case blk_check a of
                  Inl e \<Rightarrow> Inl (Uncaught e)
                | Inr ok \<Rightarrow>
                    if \<not> ok then Inl (Exited 1)
                    else if file_size a < min_pool then Inl (Exited 1) else Inr a))"

text \<open>
  \<open>pmemblk_create\<close>, then \<open>pmemblk_open\<close> if that failed; the pool must hold as many blocks as the
  benchmark visits. \<open>'d\<close> is the pool, \<open>nblock\<close> its \<open>pmemblk_nblock\<close>.
\<close>

definition blk_open ::
  "(bench_args \<Rightarrow> 'd option) \<Rightarrow> (bench_args \<Rightarrow> 'd option) \<Rightarrow> ('d \<Rightarrow> nat) \<Rightarrow> bench_args \<Rightarrow> ended + 'd"
where
  "blk_open create openp nblock a =
     (case (case create a of None \<Rightarrow> openp a | Some p \<Rightarrow> Some p) of
        None \<Rightarrow> Inl (Exited 1)
      | Some p \<Rightarrow> if nblock p < unat (total_size a div block_size a) then Inl (Exited 1) else Inr p)"

section \<open>Layout\<close>

definition blk_stripe_count :: "bench_args \<Rightarrow> u64" where
  "blk_stripe_count a = total_size a div stripe_size a"

definition blk_unit :: "bench_args \<Rightarrow> u64" where
  "blk_unit a = (let strip_unit_size = stripe_size a div nthreads_arg a in strip_unit_size div block_size a)"

definition blk_in_stripe :: "bench_args \<Rightarrow> u64" where
  "blk_in_stripe a = stripe_size a div block_size a"

definition blk_access_offset :: "(u64 list \<Rightarrow> u64 list) \<Rightarrow> bench_args \<Rightarrow> u64 list" where
  "blk_access_offset shuffle a =
     (let iota = map of_nat [0..<unat (blk_unit a)] in if op_random a then shuffle iota else iota)"

definition blk_block :: "bench_args \<Rightarrow> u64 list \<Rightarrow> nat \<Rightarrow> nat \<Rightarrow> nat \<Rightarrow> u64" where
  "blk_block a access i stripe j =
     access ! j + (of_nat stripe * blk_in_stripe a + of_nat i * blk_unit a)"

section \<open>Workers\<close>

datatype blk_pc = BLoop | BCheck | BEnd

record blk_worker =
  w_pc :: blk_pc
  w_stripe :: nat
  w_j :: nat

record 'd blk_state =
  pool :: 'd
  fail_flag :: bool
  workers :: "nat \<Rightarrow> blk_worker"
  completed :: "(nat \<times> u64) list"
  errors :: nat

text \<open>
  \<open>io write block\<close> is \<open>pmemblk_write\<close> or \<open>pmemblk_read\<close> on the pool, with its return value. One
  step of worker \<open>i\<close>: an access, a loop test, or the test of \<open>fail\<close> after a stripe.
\<close>

definition blk_work ::
  "(bool \<Rightarrow> int \<Rightarrow> 'd \<Rightarrow> 'd \<times> int) \<Rightarrow> bench_args \<Rightarrow> u64 list \<Rightarrow> nat \<Rightarrow> 'd blk_state \<Rightarrow> 'd blk_state option"
where
  "blk_work io a access i s =
     (let w = workers s i; put = (\<lambda>w' s. s\<lparr>workers := (workers s)(i := w')\<rparr>) in
      case w_pc w of
        BLoop \<Rightarrow>
          if w_stripe w \<ge> unat (blk_stripe_count a) then Some (put (w\<lparr>w_pc := BEnd\<rparr>) s)
          else if w_j w \<ge> unat (blk_unit a) then Some (put (w\<lparr>w_pc := BCheck\<rparr>) s)
          else let block_ofs = blk_block a access i (w_stripe w) (w_j w) in
            Some (case io (op_write a) (sint block_ofs) (pool s) of (d, ret) \<Rightarrow>
              if ret < 0
              then put (w\<lparr>w_pc := BCheck\<rparr>) (s\<lparr>pool := d, fail_flag := True, errors := errors s + 1\<rparr>)
              else put (w\<lparr>w_j := w_j w + 1\<rparr>) (s\<lparr>pool := d, completed := completed s @ [(i, block_ofs)]\<rparr>))
      | BCheck \<Rightarrow>
          if fail_flag s then Some (put (w\<lparr>w_pc := BEnd\<rparr>) s)
          else Some (put \<lparr>w_pc = BLoop, w_stripe = w_stripe w + 1, w_j = 0\<rparr> s)
      | BEnd \<Rightarrow> None)"

definition blk_start :: "'d \<Rightarrow> 'd blk_state" where
  "blk_start d = \<lparr>pool = d, fail_flag = False, workers = (\<lambda>_. \<lparr>w_pc = BLoop, w_stripe = 0, w_j = 0\<rparr>),
     completed = [], errors = 0\<rparr>"

inductive blk_step :: "bench_args \<Rightarrow> u64 list \<Rightarrow> 'd blk_state \<Rightarrow> 'd blk_state \<Rightarrow> bool"
  for a access where
  "i < unat (nthreads_arg a) \<Longrightarrow> blk_work io a access i s = Some t \<Longrightarrow> blk_step a access s t"

definition blk_joined :: "bench_args \<Rightarrow> 'd blk_state \<Rightarrow> bool" where
  "blk_joined a s \<longleftrightarrow> (\<forall>i < unat (nthreads_arg a). w_pc (workers s i) = BEnd)"

text \<open>What the program prints as \<open>success\<close> after joining the workers.\<close>

definition blk_success :: "'d blk_state \<Rightarrow> bool" where
  "blk_success s \<longleftrightarrow> \<not> fail_flag s"

section \<open>The interface of striping\<close>

definition blk_offsets :: "bench_args \<Rightarrow> u64 list \<Rightarrow> nat \<Rightarrow> u64 list" where
  "blk_offsets a access i =
     concat (map (\<lambda>stripe. map (blk_block a access i stripe) [0..<unat (blk_unit a)]) [0..<unat (blk_stripe_count a)])"

lemma blk_check_nat: "blk_check a = Inr True \<Longrightarrow> nat_args striping_ok a"
  by (auto simp: blk_check_def striping_ok_def u64_zero_iff unat_mod unat_div word_less_nat_alt split: if_splits)

lemma unat_blk_unit: "unat (blk_unit a) = args_unit a"
  by (simp add: blk_unit_def args_unit_def unit_blocks_def unat_div)

interpretation blk: striped_bench blk_check blk_offsets
proof unfold_locales
  fix a access i
  show "nat_args striping_ok a" if "blk_check a = Inr True" using blk_check_nat [OF that] .
  show "blk_offsets a access i = concat (map (\<lambda>st. map (\<lambda>j. access ! j +
          (of_nat st * (stripe_size a div block_size a) + of_nat i * (stripe_size a div nthreads_arg a div block_size a)))
        [0..<args_unit a]) [0..<unat (total_size a) div unat (stripe_size a)])"
    by (simp add: blk_offsets_def blk_block_def [abs_def] unat_blk_unit)
       (simp add: blk_stripe_count_def blk_in_stripe_def blk_unit_def unat_div)
qed

lemma blk_access_permutes:
  assumes "shuffles shuffle"
  shows "permutes_unit (map unat (blk_access_offset shuffle a)) (args_unit a)"
proof -
  have "args_unit a < 2 ^ 64" using unat_u64_less [of "blk_unit a"] by (simp add: unat_blk_unit)
  from iota_permutes [OF assms this] show ?thesis by (simp add: blk_access_offset_def Let_def unat_blk_unit)
qed

section \<open>Invariant\<close>

lemma blk_loop_end:
  "loop_done (blk_block a access i) (unat (blk_unit a)) (unat (blk_stripe_count a)) 0 = blk_offsets a access i"
  by (simp add: loop_done_def blk_offsets_def)

definition worker_ok :: "bench_args \<Rightarrow> bool \<Rightarrow> blk_worker \<Rightarrow> bool" where
  "worker_ok a failed w \<longleftrightarrow> w_j w \<le> unat (blk_unit a) \<and> w_stripe w \<le> unat (blk_stripe_count a) \<and>
     (w_stripe w = unat (blk_stripe_count a) \<longrightarrow> w_j w = 0) \<and>
     (w_pc w = BCheck \<longrightarrow> w_stripe w < unat (blk_stripe_count a) \<and> (w_j w = unat (blk_unit a) \<or> failed)) \<and>
     (w_pc w = BEnd \<longrightarrow> w_stripe w = unat (blk_stripe_count a) \<or> failed)"

definition blk_inv :: "bench_args \<Rightarrow> u64 list \<Rightarrow> 'd blk_state \<Rightarrow> bool" where
  "blk_inv a access s \<longleftrightarrow> (fail_flag s \<longleftrightarrow> 0 < errors s) \<and>
     fst ` set (completed s) \<subseteq> {..<unat (nthreads_arg a)} \<and>
     (\<forall>i. worker_ok a (fail_flag s) (workers s i)) \<and>
     (\<forall>i. log_of i (completed s) = loop_done (blk_block a access i) (unat (blk_unit a)) (w_stripe (workers s i)) (w_j (workers s i)))"

lemma worker_ok_fail: "worker_ok a failed w \<Longrightarrow> worker_ok a True w"
  by (auto simp: worker_ok_def)

lemma blk_inv_worker: "blk_inv a access s \<Longrightarrow> worker_ok a (fail_flag s) (workers s i)"
  unfolding blk_inv_def by blast

text \<open>A step that only moves a worker on, and an access of a block.\<close>

lemma blk_inv_move:
  assumes "blk_inv a access s" "worker_ok a (fail_flag s) w'"
    and "loop_done (blk_block a access i) (unat (blk_unit a)) (w_stripe w') (w_j w') =
      loop_done (blk_block a access i) (unat (blk_unit a)) (w_stripe (workers s i)) (w_j (workers s i))"
  shows "blk_inv a access (s\<lparr>workers := (workers s)(i := w')\<rparr>)"
  using assms by (auto simp: blk_inv_def)

lemma blk_access_inv:
  assumes inv: "blk_inv a access s" and i: "i < unat (nthreads_arg a)" and w: "blk_work io a access i s = Some t"
    and pc: "w_pc (workers s i) = BLoop" "w_stripe (workers s i) < unat (blk_stripe_count a)" "w_j (workers s i) < unat (blk_unit a)"
  shows "blk_inv a access t"
proof -
  let ?w = "workers s i"
  let ?x = "blk_block a access i (w_stripe ?w) (w_j ?w)"
  note ok = blk_inv_worker [OF inv, of i]
  obtain d ret where io: "io (op_write a) (sint ?x) (pool s) = (d, ret)" by fastforce
  show ?thesis
  proof (cases "ret < 0")
    case True
    then have t: "t = s\<lparr>pool := d, fail_flag := True, errors := errors s + 1,
        workers := (workers s)(i := ?w\<lparr>w_pc := BCheck\<rparr>)\<rparr>"
      using w pc io by (simp add: blk_work_def Let_def)
    have "worker_ok a True (?w\<lparr>w_pc := BCheck\<rparr>)" using ok pc by (auto simp: worker_ok_def)
    then show ?thesis using inv worker_ok_fail [OF blk_inv_worker [OF inv]] by (auto simp: blk_inv_def t)
  next
    case False
    then have t: "t = s\<lparr>pool := d, completed := completed s @ [(i, ?x)],
        workers := (workers s)(i := ?w\<lparr>w_j := w_j ?w + 1\<rparr>)\<rparr>"
      using w pc io by (simp add: blk_work_def Let_def)
    have "worker_ok a (fail_flag s) (?w\<lparr>w_j := w_j ?w + 1\<rparr>)" using ok pc by (auto simp: worker_ok_def)
    then show ?thesis using inv i by (auto simp: blk_inv_def t)
  qed
qed

lemma blk_work_inv:
  assumes inv: "blk_inv a access s" and i: "i < unat (nthreads_arg a)" and w: "blk_work io a access i s = Some t"
  shows "blk_inv a access t"
proof -
  let ?w = "workers s i" and ?c = "unat (blk_stripe_count a)" and ?u = "unat (blk_unit a)"
  note ok = blk_inv_worker [OF inv, of i]
  note move = blk_inv_move [OF inv, of _ i]
  consider (acc) "w_pc ?w = BLoop" "w_stripe ?w < ?c" "w_j ?w < ?u" | (fin) "w_pc ?w = BLoop" "w_stripe ?w \<ge> ?c"
    | (chk) "w_pc ?w = BLoop" "w_stripe ?w < ?c" "w_j ?w \<ge> ?u" | (leave) "w_pc ?w = BCheck" "fail_flag s"
    | (advance) "w_pc ?w = BCheck" "\<not> fail_flag s" | (over) "w_pc ?w = BEnd"
    by (cases "w_pc ?w"; cases "w_stripe ?w < ?c"; cases "w_j ?w < ?u"; cases "fail_flag s") (simp_all add: not_less)
  then show ?thesis
  proof cases
    case acc
    then show ?thesis by (rule blk_access_inv [OF inv i w])
  next
    case fin
    with w have t: "t = s\<lparr>workers := (workers s)(i := ?w\<lparr>w_pc := BEnd\<rparr>)\<rparr>" by (simp add: blk_work_def Let_def)
    show ?thesis unfolding t by (rule move) (use ok fin in \<open>auto simp: worker_ok_def\<close>)
  next
    case chk
    with w have t: "t = s\<lparr>workers := (workers s)(i := ?w\<lparr>w_pc := BCheck\<rparr>)\<rparr>" by (simp add: blk_work_def Let_def)
    show ?thesis unfolding t by (rule move) (use ok chk in \<open>auto simp: worker_ok_def\<close>)
  next
    case leave
    with w have t: "t = s\<lparr>workers := (workers s)(i := ?w\<lparr>w_pc := BEnd\<rparr>)\<rparr>" by (simp add: blk_work_def Let_def)
    show ?thesis unfolding t by (rule move) (use ok leave in \<open>auto simp: worker_ok_def\<close>)
  next
    case advance
    with w have t: "t = s\<lparr>workers := (workers s)(i := \<lparr>w_pc = BLoop, w_stripe = w_stripe ?w + 1, w_j = 0\<rparr>)\<rparr>"
      by (simp add: blk_work_def Let_def)
    have "w_j ?w = ?u" "w_stripe ?w < ?c" using ok advance by (auto simp: worker_ok_def)
    then show ?thesis unfolding t by (intro move) (auto simp: worker_ok_def)
  qed (use w in \<open>simp add: blk_work_def Let_def\<close>)
qed

text \<open>A bound on the steps a worker still has to make.\<close>

definition worker_todo :: "bench_args \<Rightarrow> blk_worker \<Rightarrow> nat" where
  "worker_todo a w =
     (let c = unat (blk_stripe_count a); u = unat (blk_unit a) in
      case w_pc w of
        BLoop \<Rightarrow> (c - w_stripe w) * (u + 3) + 1 - w_j w
      | BCheck \<Rightarrow> (c - w_stripe w) * (u + 3) - (u + 1)
      | BEnd \<Rightarrow> 0)"

definition blk_todo :: "bench_args \<Rightarrow> 'd blk_state \<Rightarrow> nat" where
  "blk_todo a s = (\<Sum>i < unat (nthreads_arg a). worker_todo a (workers s i))"

lemma worker_todo_less:
  assumes "worker_ok a failed w"
  shows "w_pc w = BLoop \<Longrightarrow> w_stripe w \<ge> unat (blk_stripe_count a) \<Longrightarrow> worker_todo a (w\<lparr>w_pc := BEnd\<rparr>) < worker_todo a w"
    and "w_pc w = BLoop \<Longrightarrow> w_stripe w < unat (blk_stripe_count a) \<Longrightarrow> worker_todo a (w\<lparr>w_pc := BCheck\<rparr>) < worker_todo a w"
    and "w_pc w = BLoop \<Longrightarrow> w_stripe w < unat (blk_stripe_count a) \<Longrightarrow> w_j w < unat (blk_unit a) \<Longrightarrow>
      worker_todo a (w\<lparr>w_j := w_j w + 1\<rparr>) < worker_todo a w"
    and "w_pc w = BCheck \<Longrightarrow> worker_todo a (w\<lparr>w_pc := BEnd\<rparr>) < worker_todo a w"
    and "w_pc w = BCheck \<Longrightarrow> worker_todo a \<lparr>w_pc = BLoop, w_stripe = w_stripe w + 1, w_j = 0\<rparr> < worker_todo a w"
proof -
  let ?c = "unat (blk_stripe_count a)" and ?u = "unat (blk_unit a)"
  have ok: "w_j w \<le> ?u" "w_stripe w = ?c \<longrightarrow> w_j w = 0" "w_stripe w \<le> ?c" "w_pc w = BCheck \<longrightarrow> w_stripe w < ?c"
    using assms by (auto simp: worker_ok_def)
  obtain k where k: "w_stripe w < ?c \<Longrightarrow> ?c - w_stripe w = Suc k" by (metis Suc_diff_Suc)
  then have k': "w_stripe w < ?c \<Longrightarrow> ?c - Suc (w_stripe w) = k" by simp
  show "w_pc w = BLoop \<Longrightarrow> w_stripe w \<ge> ?c \<Longrightarrow> worker_todo a (w\<lparr>w_pc := BEnd\<rparr>) < worker_todo a w"
    using ok by (simp add: worker_todo_def Let_def)
  show "w_pc w = BLoop \<Longrightarrow> w_stripe w < ?c \<Longrightarrow> worker_todo a (w\<lparr>w_pc := BCheck\<rparr>) < worker_todo a w"
    using ok k by (simp add: worker_todo_def Let_def)
  show "w_pc w = BLoop \<Longrightarrow> w_stripe w < ?c \<Longrightarrow> w_j w < ?u \<Longrightarrow> worker_todo a (w\<lparr>w_j := w_j w + 1\<rparr>) < worker_todo a w"
    using ok k by (simp add: worker_todo_def Let_def)
  show "w_pc w = BCheck \<Longrightarrow> worker_todo a (w\<lparr>w_pc := BEnd\<rparr>) < worker_todo a w"
    using ok k by (simp add: worker_todo_def Let_def)
  show "w_pc w = BCheck \<Longrightarrow> worker_todo a \<lparr>w_pc = BLoop, w_stripe = w_stripe w + 1, w_j = 0\<rparr> < worker_todo a w"
    using ok k k' by (simp add: worker_todo_def Let_def)
qed

lemma blk_work_todo:
  assumes inv: "blk_inv a access s" and i: "i < unat (nthreads_arg a)" and w: "blk_work io a access i s = Some t"
  shows "blk_todo a t < blk_todo a s"
proof -
  have ok: "worker_ok a (fail_flag s) (workers s i)" using inv unfolding blk_inv_def by blast
  have "\<exists>w'. workers t = (workers s)(i := w') \<and> worker_todo a w' < worker_todo a (workers s i)"
    using w worker_todo_less [OF ok]
    by (auto simp: blk_work_def Let_def split: blk_pc.splits if_splits prod.splits)
  then obtain w' where "workers t = (workers s)(i := w')" "worker_todo a w' < worker_todo a (workers s i)" by blast
  with sum_fun_upd [where f = "worker_todo a" and p = "workers s" and x = w', OF i] show ?thesis
    by (simp add: blk_todo_def)
qed

lemma blk_work_enabled: "w_pc (workers s i) \<noteq> BEnd \<Longrightarrow> \<exists>t. blk_work io a access i s = Some t"
  by (auto simp: blk_work_def Let_def split: blk_pc.split)

interpretation blkw: terminating_system "\<lambda>s. \<exists>d. s = blk_start d" "blk_step a access" "blk_inv a access"
  "blk_joined a" "blk_todo a" for a access
proof unfold_locales
  fix s t :: "'d blk_state"
  show "blk_inv a access s" if "\<exists>d. s = blk_start d"
    using that by (auto simp: blk_inv_def blk_start_def worker_ok_def)
  show "blk_inv a access t" if "blk_inv a access s" "blk_step a access s t"
    using that(2,1) blk_work_inv by cases blast
  show "blk_todo a t < blk_todo a s" if "blk_inv a access s" "blk_step a access s t"
    using that(2,1) blk_work_todo by cases blast
  show "\<exists>t. blk_step a access s t" if "\<not> blk_joined a s"
    using that blk_work_enabled [where a = a and access = access and s = s]
    unfolding blk_joined_def by (meson blk_step.intros)
qed

section \<open>Properties\<close>

text \<open>
  \<open>pmemblkbench\<close> reports success honestly, in every interleaving of its workers and whatever
  the library calls return: the program cannot run for ever or get stuck; when all workers are
  joined, it reports success if and only if no call has failed, and then every worker has
  completed exactly the accesses of its layout, in order.
\<close>

theorem blk_success_honest:
  assumes "(blk_step a access)\<^sup>*\<^sup>* (blk_start d) s"
  shows "(\<exists>t. (blk_step a access)\<^sup>*\<^sup>* s t \<and> blk_joined a t) \<and>
    (blk_joined a s \<longrightarrow> (blk_success s \<longleftrightarrow> errors s = 0) \<and>
       (blk_success s \<longrightarrow> (\<forall>i < unat (nthreads_arg a). log_of i (completed s) = blk_offsets a access i)))"
proof -
  have init: "\<exists>d'. blk_start d = blk_start d'" by blast
  have inv: "blk_inv a access s" by (rule blkw.reachable_inv [OF init assms])
  have "log_of i (completed s) = blk_offsets a access i"
    if "blk_joined a s" "blk_success s" "i < unat (nthreads_arg a)" for i
  proof -
    have "w_stripe (workers s i) = unat (blk_stripe_count a) \<and> w_j (workers s i) = 0"
      using inv that by (auto simp: blk_inv_def worker_ok_def blk_joined_def blk_success_def)
    then show ?thesis using inv by (simp add: blk_inv_def blk_loop_end)
  qed
  moreover have "blk_success s \<longleftrightarrow> errors s = 0" using inv by (auto simp: blk_inv_def blk_success_def)
  ultimately show ?thesis using blkw.reachable_can_finish [OF init assms] by blast
qed

definition blk_small :: parsed where
  "blk_small = command_line blk_defaults
     [(''pool_size'', ''16''), (''block'', ''4''), (''stripe'', ''8''), (''nthreads'', ''2''), (''total'', ''8'')] [''write'']"

definition blk_small_args :: bench_args where
  "blk_small_args = \<lparr>file_size = 16, block_size = 4, stripe_size = 8, nthreads_arg = 2, total_size = 8,
     op_read = False, op_write = True, op_random = False\<rparr>"

theorem blk_success_honest_witness:
  "\<exists>t. (blk_step blk_small_args [0])\<^sup>*\<^sup>* (blk_start ()) t \<and> blk_joined blk_small_args t \<and>
     blk_success t = (errors t = 0)"
proof -
  let ?r = "(blk_step blk_small_args [0])\<^sup>*\<^sup>* (blk_start ())"
  have "?r (blk_start ())" by (rule rtranclp.rtrancl_refl)
  from conjunct1 [OF blk_success_honest [OF this]]
  obtain t where t: "?r t" "blk_joined blk_small_args t" by (elim exE conjE)
  have "blk_success t = (errors t = 0)" using conjunct2 [OF blk_success_honest [OF t(1)]] t(2) by (elim impE) simp_all
  with t show ?thesis by (intro exI conjI)
qed

lemma blk_args_checked: "blk_args min_pool r = Inr a \<Longrightarrow> blk_check a = Inr True"
  by (simp add: blk_args_def split: if_splits sum.splits)

text \<open>
  Every access of \<open>pmemblkbench\<close> names a block the pool has: for arguments the program
  accepts and a pool it opens, whatever the shuffle, the block numbers all workers compute are
  different from each other and below the pool's number of blocks.
\<close>

theorem blk_in_range:
  assumes "blk_args min_pool r = Inr a" and "blk_open create openp nblock a = Inr p" and "shuffles shuffle"
    and "blocks = concat (map (blk_offsets a (blk_access_offset shuffle a)) [0..<unat (nthreads_arg a)])"
  shows "distinct blocks \<and> unat ` set blocks \<subseteq> {0..<nblock p}"
proof -
  have chk: "blk_check a = Inr True"
    by (rule blk_args_checked [OF assms(1)])
  note perm = blk_access_permutes [OF assms(3), of a]
  have blocks: "blocks = blk.all_offsets a (blk_access_offset shuffle a)"
    by (simp add: assms(4) blk.all_offsets_def)
  have "unat (total_size a) div unat (block_size a) \<le> nblock p"
    using assms(2) by (auto simp: blk_open_def unat_div split: option.splits if_splits)
  then have "unat x < nblock p" if "x \<in> set blocks" for x
    using blk.offsets_bound [OF chk perm, of x] that unfolding blocks by linarith
  then have "unat ` set blocks \<subseteq> {0..<nblock p}" by (simp add: image_subset_iff)
  then show ?thesis using blk.offsets_distinct [OF chk perm] unfolding blocks by blast
qed

lemma blk_small_accepted: "blk_args 16 blk_small = Inr blk_small_args"
proof -
  have p: "prettyTo 1024 ''16'' = Inr 16" "prettyTo 1024 ''4'' = Inr 4" "prettyTo 1024 ''8'' = Inr 8"
    "prettyTo 1024 ''2'' = Inr 2"
    by (simp_all add: pretty_eval)
  have t: "opt_text blk_small ''pool_size'' = ''16''" "opt_text blk_small ''block'' = ''4''"
    "opt_text blk_small ''stripe'' = ''8''" "opt_text blk_small ''nthreads'' = ''2''" "opt_text blk_small ''total'' = ''8''"
    by (simp_all add: blk_small_def command_line_def)
  have c: "opt_count blk_small ''help'' = 0" "opt_count blk_small ''read'' = 0" "opt_count blk_small ''write'' = 1"
    "opt_count blk_small ''random'' = 0"
    by (simp_all add: blk_small_def command_line_def)
  have "blk_sizes blk_small = Inr blk_small_args"
    by (simp add: blk_sizes_def p t c blk_small_args_def)
  then show ?thesis by (simp add: blk_args_def c) (simp add: blk_small_args_def blk_check_def)
qed

theorem blk_in_range_witness:
  "blk_args 16 blk_small = Inr blk_small_args \<and>
   blk_open (\<lambda>_. None) (\<lambda>_. Some ()) (\<lambda>_. 5) blk_small_args = Inr () \<and>
   unat ` set (concat (map (blk_offsets blk_small_args (blk_access_offset id blk_small_args)) [0..<2])) \<subseteq> {0..<5}"
proof -
  have op: "blk_open (\<lambda>_. None) (\<lambda>_. Some ()) (\<lambda>_. 5) blk_small_args = Inr ()"
    by (simp add: blk_open_def blk_small_args_def)
  have "shuffles id" by (simp add: shuffles_def)
  from blk_in_range [OF blk_small_accepted op this refl] blk_small_accepted op show ?thesis
    by (simp add: blk_small_args_def)
qed

end
