(* ===== verification/Pmemobj_Bench.thy ===== *)
theory Pmemobj_Bench
  imports Striping
begin

text \<open>
  Model of \<open>pmemobjbench\<close>: the same layout, with one persistent object per block. A write
  allocates the object and copies the block into it in one failure-atomic call; its return code
  goes to a variable \<open>ret\<close> that lives in \<open>main\<close> and is shared by all workers, so the call and the
  test of \<open>ret\<close> are two steps of the model. libpmemobj is a parameter.
\<close>

section \<open>Arguments and pool\<close>

definition obj_defaults :: "(string \<times> string) list" where
  "obj_defaults =
     [(''path'', ''./pmemobjbench.pool''), (''file_size'', ''2G''), (''total'', ''1G''), (''block'', ''512''),
      (''stripe'', ''1G''), (''nthreads'', ''1'')]"

definition obj_sizes :: "parsed \<Rightarrow> bench_args res" where
  "obj_sizes r =
     (case prettyTo 1024 (opt_text r ''file_size'') of Inl e \<Rightarrow> Inl e | Inr f \<Rightarrow>
      case prettyTo 1024 (opt_text r ''block'') of Inl e \<Rightarrow> Inl e | Inr b \<Rightarrow>
      case prettyTo 1024 (opt_text r ''stripe'') of Inl e \<Rightarrow> Inl e | Inr s \<Rightarrow>
      case prettyTo 1024 (opt_text r ''nthreads'') of Inl e \<Rightarrow> Inl e | Inr n \<Rightarrow>
      case prettyTo 1024 (opt_text r ''total'') of Inl e \<Rightarrow> Inl e | Inr t \<Rightarrow>
        if b = 0 then Inl Undefined
        else Inr \<lparr>file_size = f, block_size = b, stripe_size = s, nthreads_arg = n, total_size = t,
             op_read = opt_count r ''read'' \<noteq> 0, op_write = opt_count r ''write'' \<noteq> 0,
             op_random = opt_count r ''random'' \<noteq> 0\<rparr>)"

definition nobjects :: "bench_args \<Rightarrow> u64" where
  "nobjects a = total_size a div block_size a"

definition obj_check :: "bench_args \<Rightarrow> bool res" where
  "obj_check a =
     (if stripe_size a = 0 then Inl Undefined
      else if total_size a mod stripe_size a \<noteq> 0 then Inr False
      else if block_size a = 0 then Inl Undefined
      else if total_size a mod block_size a \<noteq> 0 then Inr False
      else if stripe_size a mod block_size a \<noteq> 0 then Inr False
      else if nthreads_arg a = 0 then Inl Undefined
      else if stripe_size a mod nthreads_arg a \<noteq> 0 then Inr False
      else Inr (\<not> (stripe_size a div nthreads_arg a < block_size a \<or> op_read a = op_write a)))"

text \<open>An exception ends in the handler of \<open>main\<close>, which returns -1; undefined behaviour does not.\<close>

definition obj_catch :: "exn \<Rightarrow> ended" where
  "obj_catch e = (if e = Undefined then Uncaught Undefined else Exited (- 1))"

definition obj_args :: "parsed \<Rightarrow> ended + bench_args" where
  "obj_args r =
     (if opt_count r ''help'' \<noteq> 0 then Inl (Exited 0)
      else case obj_sizes r of
        Inl e \<Rightarrow> Inl (obj_catch e)
      | Inr a \<Rightarrow>
          if \<not> op_read a \<and> \<not> op_write a then Inl (Exited 1)
          else (case obj_check a of
                  Inl e \<Rightarrow> Inl (obj_catch e)
                | Inr ok \<Rightarrow> if ok then Inr a else Inl (Exited 1)))"

text \<open>
  The root object: one pointer per block. \<open>check\<close>, \<open>openp\<close> and \<open>create\<close> are the pool functions;
  the vector is resized in a transaction, new elements are null.
\<close>

type_synonym objs = "string option list"

definition resize_objs :: "nat \<Rightarrow> objs \<Rightarrow> objs" where
  "resize_objs n os = take n os @ replicate (n - length os) None"

definition obj_open ::
  "(objs, unit) tx_run \<Rightarrow> int \<Rightarrow> objs res \<Rightarrow> objs res \<Rightarrow> bench_args \<Rightarrow> ended + objs"
where
  "obj_open run check openp create a =
     (case (if check = 1 then openp else create) of
        Inl e \<Rightarrow> Inl (obj_catch e)
      | Inr os \<Rightarrow>
          (case run (\<lambda>os. (resize_objs (unat (nobjects a)) os, Inr ())) os of
             (os', Inl e) \<Rightarrow> Inl (obj_catch e)
           | (os', Inr _) \<Rightarrow> Inr os'))"

section \<open>Layout\<close>

definition obj_stripe_count :: "bench_args \<Rightarrow> u64" where
  "obj_stripe_count a = total_size a div stripe_size a"

definition obj_unit :: "bench_args \<Rightarrow> u64" where
  "obj_unit a = (let strip_unit_size = stripe_size a div nthreads_arg a in strip_unit_size div block_size a)"

definition obj_in_stripe :: "bench_args \<Rightarrow> u64" where
  "obj_in_stripe a = stripe_size a div block_size a"

definition obj_access_offset :: "(u64 list \<Rightarrow> u64 list) \<Rightarrow> bench_args \<Rightarrow> u64 list" where
  "obj_access_offset shuffle a =
     (let iota = map of_nat [0..<unat (obj_unit a)] in if op_random a then shuffle iota else iota)"

definition obj_block :: "bench_args \<Rightarrow> u64 list \<Rightarrow> nat \<Rightarrow> nat \<Rightarrow> nat \<Rightarrow> u64" where
  "obj_block a access i stripe j =
     access ! j + (of_nat stripe * obj_in_stripe a + of_nat i * obj_unit a)"

section \<open>Workers\<close>

datatype obj_pc = OLoop | OTest | OCheck | OFinish | OEnd

record obj_worker =
  o_pc :: obj_pc
  o_stripe :: nat
  o_j :: nat
  o_buf :: string

record obj_state =
  objects :: objs
  ret :: int
  obj_fail :: bool
  oworkers :: "nat \<Rightarrow> obj_worker"
  oaccessed :: "(nat \<times> u64) list"
  oerrors :: nat

text \<open>
  \<open>memcpyConstructor\<close> as the effect of a successful \<open>pmemobj_xalloc\<close>: the object holds a copy of
  the buffer.
\<close>

definition memcpyConstructor :: "string \<Rightarrow> u64 \<Rightarrow> objs \<Rightarrow> objs" where
  "memcpyConstructor buf x os = os[unat x := Some buf]"

text \<open>
  One step of worker \<open>i\<close>. \<open>alloc\<close> is the flag \<open>--alloc\<close>, \<open>res\<close> the return code of the allocation
  this step makes, \<open>Inl\<close> an exception or undefined behaviour that ends the program. An allocation
  without data leaves the object with unspecified contents \<open>junk\<close>.
\<close>

definition obj_work ::
  "bool \<Rightarrow> string \<Rightarrow> int \<Rightarrow> bench_args \<Rightarrow> u64 list \<Rightarrow> nat \<Rightarrow> obj_state \<Rightarrow> obj_state res option"
where
  "obj_work alloc junk res a access i s =
     (let w = oworkers s i; put = (\<lambda>w' s. s\<lparr>oworkers := (oworkers s)(i := w')\<rparr>) in
      case o_pc w of
        OLoop \<Rightarrow>
          if o_stripe w \<ge> unat (obj_stripe_count a) then Some (Inr (put (w\<lparr>o_pc := OFinish\<rparr>) s))
          else if o_j w \<ge> unat (obj_unit a) then Some (Inr (put (w\<lparr>o_pc := OCheck\<rparr>) s))
          else let x = obj_block a access i (o_stripe w) (o_j w);
                   count_it = (\<lambda>s. s\<lparr>oaccessed := oaccessed s @ [(i, x)]\<rparr>) in
            if unat x \<ge> length (objects s) then Some (Inl Undefined)
            else if op_write a \<and> alloc then
              if res \<noteq> 0 then Some (Inl BadAlloc)
              else Some (Inr (put (w\<lparr>o_j := o_j w + 1\<rparr>) (count_it (s\<lparr>objects := (objects s)[unat x := Some junk]\<rparr>))))
            else if op_write a then
              if res \<noteq> 0 then Some (Inr (put (w\<lparr>o_pc := OTest\<rparr>) (s\<lparr>ret := res, oerrors := oerrors s + 1\<rparr>)))
              else Some (Inr (put (w\<lparr>o_pc := OTest\<rparr>) (s\<lparr>ret := 0, objects := memcpyConstructor (o_buf w) x (objects s)\<rparr>)))
            else (case objects s ! unat x of
                    None \<Rightarrow> Some (Inl Undefined)
                  | Some d \<Rightarrow>
                      if length d < unat (block_size a) then Some (Inl Undefined)
                      else Some (Inr (put (w\<lparr>o_j := o_j w + 1, o_buf := take (unat (block_size a)) d\<rparr>) (count_it s))))
      | OTest \<Rightarrow>
          if ret s \<noteq> 0 then Some (Inr (put (w\<lparr>o_pc := OCheck\<rparr>) (s\<lparr>obj_fail := True\<rparr>)))
          else Some (Inr (put (w\<lparr>o_pc := OLoop, o_j := o_j w + 1\<rparr>)
                 (s\<lparr>oaccessed := oaccessed s @ [(i, obj_block a access i (o_stripe w) (o_j w))]\<rparr>)))
      | OCheck \<Rightarrow>
          if obj_fail s then Some (Inr (put (w\<lparr>o_pc := OFinish\<rparr>) s))
          else Some (Inr (put (w\<lparr>o_pc := OLoop, o_stripe := o_stripe w + 1, o_j := 0\<rparr>) s))
      | OFinish \<Rightarrow> Some (Inr (put (w\<lparr>o_pc := OEnd\<rparr>) s))
      | OEnd \<Rightarrow> None)"

definition obj_start :: "string \<Rightarrow> int \<Rightarrow> objs \<Rightarrow> obj_state" where
  "obj_start data ret0 os = \<lparr>objects = os, ret = ret0, obj_fail = False,
     oworkers = (\<lambda>_. \<lparr>o_pc = OLoop, o_stripe = 0, o_j = 0, o_buf = data\<rparr>), oaccessed = [], oerrors = 0\<rparr>"

inductive obj_step :: "bool \<Rightarrow> bench_args \<Rightarrow> u64 list \<Rightarrow> obj_state \<Rightarrow> obj_state \<Rightarrow> bool"
  for alloc a access where
  "i < unat (nthreads_arg a) \<Longrightarrow> obj_work alloc junk res a access i s = Some (Inr t) \<Longrightarrow> obj_step alloc a access s t"

definition obj_joined :: "bench_args \<Rightarrow> obj_state \<Rightarrow> bool" where
  "obj_joined a s \<longleftrightarrow> (\<forall>i < unat (nthreads_arg a). o_pc (oworkers s i) = OEnd)"

definition obj_success :: "obj_state \<Rightarrow> bool" where
  "obj_success s \<longleftrightarrow> \<not> obj_fail s"

section \<open>The interface of striping\<close>

definition obj_offsets :: "bench_args \<Rightarrow> u64 list \<Rightarrow> nat \<Rightarrow> u64 list" where
  "obj_offsets a access i =
     concat (map (\<lambda>stripe. map (obj_block a access i stripe) [0..<unat (obj_unit a)]) [0..<unat (obj_stripe_count a)])"

lemma obj_check_nat: "obj_check a = Inr True \<Longrightarrow> nat_args striping_ok a"
  by (auto simp: obj_check_def striping_ok_def u64_zero_iff unat_mod unat_div word_less_nat_alt split: if_splits)

lemma unat_obj_unit: "unat (obj_unit a) = args_unit a"
  by (simp add: obj_unit_def args_unit_def unit_blocks_def unat_div)

interpretation obj: striped_bench obj_check obj_offsets
proof unfold_locales
  fix a access i
  show "nat_args striping_ok a" if "obj_check a = Inr True" using obj_check_nat [OF that] .
  show "obj_offsets a access i = concat (map (\<lambda>st. map (\<lambda>j. access ! j +
          (of_nat st * (stripe_size a div block_size a) + of_nat i * (stripe_size a div nthreads_arg a div block_size a)))
        [0..<args_unit a]) [0..<unat (total_size a) div unat (stripe_size a)])"
    by (simp add: obj_offsets_def obj_block_def [abs_def] unat_obj_unit)
       (simp add: obj_stripe_count_def obj_in_stripe_def obj_unit_def unat_div)
qed

lemma obj_access_permutes:
  assumes "shuffles shuffle"
  shows "permutes_unit (map unat (obj_access_offset shuffle a)) (args_unit a)"
proof -
  have "args_unit a < 2 ^ 64" using unat_u64_less [of "obj_unit a"] by (simp add: unat_obj_unit)
  from iota_permutes [OF assms this] show ?thesis by (simp add: obj_access_offset_def Let_def unat_obj_unit)
qed

section \<open>Invariant\<close>

definition oworker_ok :: "bench_args \<Rightarrow> bool \<Rightarrow> obj_worker \<Rightarrow> bool" where
  "oworker_ok a failed w \<longleftrightarrow>
     (let c = unat (obj_stripe_count a); u = unat (obj_unit a) in
      o_j w \<le> u \<and> o_stripe w \<le> c \<and> (o_stripe w = c \<longrightarrow> o_j w = 0) \<and>
      (case o_pc w of
         OLoop \<Rightarrow> True
       | OTest \<Rightarrow> o_stripe w < c \<and> o_j w < u
       | OCheck \<Rightarrow> o_stripe w < c \<and> (o_j w = u \<or> failed)
       | _ \<Rightarrow> o_stripe w = c \<or> failed))"

definition log_ok :: "bench_args \<Rightarrow> u64 list \<Rightarrow> nat \<Rightarrow> (nat \<times> u64) list \<Rightarrow> obj_worker \<Rightarrow> bool" where
  "log_ok a access i log w \<longleftrightarrow>
     log_of i log = loop_done (obj_block a access i) (unat (obj_unit a)) (o_stripe w) (o_j w)"

definition obj_inv :: "bench_args \<Rightarrow> u64 list \<Rightarrow> obj_state \<Rightarrow> bool" where
  "obj_inv a access s \<longleftrightarrow>
     (oerrors s = 0 \<longrightarrow> \<not> obj_fail s \<and> ((\<exists>i. o_pc (oworkers s i) = OTest) \<longrightarrow> ret s = 0)) \<and>
     (\<forall>i. oworker_ok a (obj_fail s) (oworkers s i) \<and> log_ok a access i (oaccessed s) (oworkers s i))"

lemma oworker_ok_fail: "oworker_ok a failed w \<Longrightarrow> oworker_ok a True w"
  by (auto simp: oworker_ok_def Let_def split: obj_pc.splits)

text \<open>
  A step changes one worker, perhaps raises the flag and perhaps logs one access; it keeps the
  invariant if the worker's new position agrees with its log.
\<close>

lemma obj_inv_upd:
  assumes inv: "obj_inv a access s"
    and wk: "oworkers t = (oworkers s)(i := w')" and ok: "oworker_ok a (obj_fail t) w'"
    and mono: "obj_fail s \<Longrightarrow> obj_fail t"
    and log: "log_ok a access i (oaccessed t) w'" "\<And>k. k \<noteq> i \<Longrightarrow> log_of k (oaccessed t) = log_of k (oaccessed s)"
    and err: "oerrors t = 0 \<Longrightarrow> \<not> obj_fail t \<and> ((\<exists>i. o_pc (oworkers t i) = OTest) \<longrightarrow> ret t = 0)"
  shows "obj_inv a access t"
proof -
  have "oworker_ok a (obj_fail t) (oworkers t k) \<and> log_ok a access k (oaccessed t) (oworkers t k)" for k
  proof (cases "k = i")
    case True
    then show ?thesis using wk ok log(1) by simp
  next
    case False
    have "oworker_ok a (obj_fail s) (oworkers s k)" "log_ok a access k (oaccessed s) (oworkers s k)"
      using inv unfolding obj_inv_def by blast+
    then show ?thesis
      using False wk log(2) mono oworker_ok_fail [of a "obj_fail s" "oworkers s k"]
      by (cases "obj_fail s"; cases "obj_fail t") (auto simp: log_ok_def)
  qed
  then show ?thesis using err unfolding obj_inv_def by blast
qed

text \<open>The outcomes of a step of worker \<open>i\<close> in state \<open>s\<close>.\<close>

text \<open>The body of the inner loop: an access that completes, or the call whose code is tested next.\<close>

lemma obj_body_cases:
  assumes w: "obj_work alloc junk res a access i s = Some (Inr t)" and pc: "o_pc (oworkers s i) = OLoop"
    "o_stripe (oworkers s i) < unat (obj_stripe_count a)" "o_j (oworkers s i) < unat (obj_unit a)"
  obtains (access) os buf where
      "t = s\<lparr>objects := os, oworkers := (oworkers s)(i := (oworkers s i)\<lparr>o_j := o_j (oworkers s i) + 1, o_buf := buf\<rparr>),
         oaccessed := oaccessed s @ [(i, obj_block a access i (o_stripe (oworkers s i)) (o_j (oworkers s i)))]\<rparr>"
    | (called) os where
      "t = s\<lparr>objects := os, ret := res, oerrors := (if res \<noteq> 0 then oerrors s + 1 else oerrors s),
         oworkers := (oworkers s)(i := (oworkers s i)\<lparr>o_pc := OTest\<rparr>)\<rparr>"
proof -
  let ?w = "oworkers s i"
  let ?x = "obj_block a access i (o_stripe ?w) (o_j ?w)"
  have eta: "?w\<lparr>o_j := o_j ?w + 1\<rparr> = ?w\<lparr>o_j := o_j ?w + 1, o_buf := o_buf ?w\<rparr>" by simp
  consider "op_write a" "alloc" | "op_write a" "\<not> alloc" "res \<noteq> 0" | "op_write a" "\<not> alloc" "res = 0"
    | "\<not> op_write a" by blast
  then show thesis
  proof cases
    case 1
    then show thesis
      using w pc access [where os = "(objects s)[unat ?x := Some junk]" and buf = "o_buf ?w"]
      by (auto simp: obj_work_def Let_def split: if_splits)
  next
    case 2
    then show thesis using w pc called [of "objects s"] by (auto simp: obj_work_def Let_def split: if_splits)
  next
    case 3
    then show thesis
      using w pc called [of "memcpyConstructor (o_buf ?w) ?x (objects s)"]
      by (auto simp: obj_work_def Let_def split: if_splits)
  next
    case 4
    then show thesis
      using w pc access [where os = "objects s" and buf = "take (unat (block_size a)) (the (objects s ! unat ?x))"]
      by (auto simp: obj_work_def Let_def split: if_splits option.splits)
  qed
qed

lemma obj_work_cases:
  assumes "obj_work alloc junk res a access i s = Some (Inr t)"
  obtains (finish) "o_pc (oworkers s i) = OLoop" "o_stripe (oworkers s i) \<ge> unat (obj_stripe_count a)"
      "t = s\<lparr>oworkers := (oworkers s)(i := (oworkers s i)\<lparr>o_pc := OFinish\<rparr>)\<rparr>"
    | (stripe) "o_pc (oworkers s i) = OLoop" "o_stripe (oworkers s i) < unat (obj_stripe_count a)"
      "o_j (oworkers s i) \<ge> unat (obj_unit a)"
      "t = s\<lparr>oworkers := (oworkers s)(i := (oworkers s i)\<lparr>o_pc := OCheck\<rparr>)\<rparr>"
    | (access) os buf where "o_pc (oworkers s i) = OLoop" "o_stripe (oworkers s i) < unat (obj_stripe_count a)"
      "o_j (oworkers s i) < unat (obj_unit a)"
      "t = s\<lparr>objects := os, oworkers := (oworkers s)(i := (oworkers s i)\<lparr>o_j := o_j (oworkers s i) + 1, o_buf := buf\<rparr>),
         oaccessed := oaccessed s @ [(i, obj_block a access i (o_stripe (oworkers s i)) (o_j (oworkers s i)))]\<rparr>"
    | (called) os where "o_pc (oworkers s i) = OLoop" "o_stripe (oworkers s i) < unat (obj_stripe_count a)"
      "o_j (oworkers s i) < unat (obj_unit a)"
      "t = s\<lparr>objects := os, ret := res, oerrors := (if res \<noteq> 0 then oerrors s + 1 else oerrors s),
         oworkers := (oworkers s)(i := (oworkers s i)\<lparr>o_pc := OTest\<rparr>)\<rparr>"
    | (failed) "o_pc (oworkers s i) = OTest" "ret s \<noteq> 0"
      "t = s\<lparr>obj_fail := True, oworkers := (oworkers s)(i := (oworkers s i)\<lparr>o_pc := OCheck\<rparr>)\<rparr>"
    | (passed) "o_pc (oworkers s i) = OTest" "ret s = 0"
      "t = s\<lparr>oworkers := (oworkers s)(i := (oworkers s i)\<lparr>o_pc := OLoop, o_j := o_j (oworkers s i) + 1\<rparr>),
         oaccessed := oaccessed s @ [(i, obj_block a access i (o_stripe (oworkers s i)) (o_j (oworkers s i)))]\<rparr>"
    | (leave) "o_pc (oworkers s i) = OCheck" "obj_fail s"
      "t = s\<lparr>oworkers := (oworkers s)(i := (oworkers s i)\<lparr>o_pc := OFinish\<rparr>)\<rparr>"
    | (advance) "o_pc (oworkers s i) = OCheck" "\<not> obj_fail s"
      "t = s\<lparr>oworkers := (oworkers s)(i := (oworkers s i)\<lparr>o_pc := OLoop, o_stripe := o_stripe (oworkers s i) + 1, o_j := 0\<rparr>)\<rparr>"
    | (barrier) "o_pc (oworkers s i) = OFinish" "t = s\<lparr>oworkers := (oworkers s)(i := (oworkers s i)\<lparr>o_pc := OEnd\<rparr>)\<rparr>"
proof (cases "o_pc (oworkers s i)")
  case OLoop
  let ?w = "oworkers s i"
  consider (over) "o_stripe ?w \<ge> unat (obj_stripe_count a)"
    | (full) "o_stripe ?w < unat (obj_stripe_count a)" "o_j ?w \<ge> unat (obj_unit a)"
    | (body) "o_stripe ?w < unat (obj_stripe_count a)" "o_j ?w < unat (obj_unit a)" by linarith
  then show thesis
  proof cases
    case body
    from assms OLoop body show thesis
      by (rule obj_body_cases) (rule access [OF OLoop body], assumption, rule called [OF OLoop body], assumption)
  next
    case over
    show thesis by (rule finish [OF OLoop over]) (use assms OLoop over in \<open>simp add: obj_work_def Let_def\<close>)
  next
    case full
    show thesis by (rule stripe [OF OLoop full]) (use assms OLoop full in \<open>simp add: obj_work_def Let_def\<close>)
  qed
next
  case OTest
  show thesis
    by (cases "ret s = 0"; rule passed [OF OTest] failed [OF OTest])
      (use assms OTest in \<open>auto simp: obj_work_def Let_def\<close>)
next
  case OCheck
  show thesis
    by (cases "obj_fail s"; rule leave [OF OCheck] advance [OF OCheck])
      (use assms OCheck in \<open>auto simp: obj_work_def Let_def\<close>)
next
  case OFinish
  show thesis by (rule barrier [OF OFinish]) (use assms OFinish in \<open>simp add: obj_work_def Let_def\<close>)
qed (use assms in \<open>simp add: obj_work_def Let_def\<close>)

lemmas oworker_defs = oworker_ok_def Let_def

lemma obj_work_inv:
  assumes inv: "obj_inv a access s" and w: "obj_work alloc junk res a access i s = Some (Inr t)"
  shows "obj_inv a access t"
proof -
  let ?w = "oworkers s i"
  have ok: "oworker_ok a (obj_fail s) ?w" and log: "log_ok a access i (oaccessed s) ?w"
    and err: "oerrors s = 0 \<longrightarrow> \<not> obj_fail s \<and> ((\<exists>k. o_pc (oworkers s k) = OTest) \<longrightarrow> ret s = 0)"
    using inv unfolding obj_inv_def by blast+
  have other: "o_pc (((oworkers s)(i := w')) k) = OTest \<Longrightarrow> o_pc w' \<noteq> OTest \<Longrightarrow> \<exists>k. o_pc (oworkers s k) = OTest" for w' k
    by (auto split: if_splits)
  note upd = obj_inv_upd [OF inv, of t i]
  from w show ?thesis
  proof (cases rule: obj_work_cases)
    case finish
    show ?thesis
      by (rule upd [of "?w\<lparr>o_pc := OFinish\<rparr>"]) (use finish ok log err other in \<open>auto simp: oworker_defs log_ok_def\<close>)
  next
    case stripe
    show ?thesis
      by (rule upd [of "?w\<lparr>o_pc := OCheck\<rparr>"]) (use stripe ok log err other in \<open>auto simp: oworker_defs log_ok_def\<close>)
  next
    case (access os buf)
    show ?thesis
      by (rule upd [of "?w\<lparr>o_j := o_j ?w + 1, o_buf := buf\<rparr>"]) (use access ok log err other in \<open>auto simp: oworker_defs log_ok_def\<close>)
  next
    case (called os)
    show ?thesis
      by (rule upd [of "?w\<lparr>o_pc := OTest\<rparr>"]) (use called ok log err in \<open>auto simp: oworker_defs log_ok_def split: if_splits\<close>)
  next
    case failed
    then have "oerrors s \<noteq> 0" using err by blast
    with failed show ?thesis
      by (intro upd [of "?w\<lparr>o_pc := OCheck\<rparr>"])
         (use ok log in \<open>auto simp: oworker_defs log_ok_def\<close>)
  next
    case passed
    show ?thesis
      by (rule upd [of "?w\<lparr>o_pc := OLoop, o_j := o_j ?w + 1\<rparr>"]) (use passed ok log err other in \<open>auto simp: oworker_defs log_ok_def\<close>)
  next
    case leave
    show ?thesis
      by (rule upd [of "?w\<lparr>o_pc := OFinish\<rparr>"]) (use leave ok log err other in \<open>auto simp: oworker_defs log_ok_def\<close>)
  next
    case advance
    then have "o_j ?w = unat (obj_unit a)" using ok by (simp add: oworker_defs)
    with advance show ?thesis
      by (intro upd [of "?w\<lparr>o_pc := OLoop, o_stripe := o_stripe ?w + 1, o_j := 0\<rparr>"])
         (use ok log err other in \<open>auto simp: oworker_defs log_ok_def\<close>)
  next
    case barrier
    show ?thesis
      by (rule upd [of "?w\<lparr>o_pc := OEnd\<rparr>"]) (use barrier ok log err other in \<open>auto simp: oworker_defs log_ok_def\<close>)
  qed
qed

interpretation objw: invariant_system "\<lambda>s. \<exists>data r os. s = obj_start data r os" "obj_step alloc a access"
  "obj_inv a access" for alloc a access
proof unfold_locales
  show "obj_inv a access s" if "\<exists>data r os. s = obj_start data r os" for s
    using that by (auto simp: obj_inv_def obj_start_def oworker_defs log_ok_def)
  show "obj_inv a access t" if "obj_inv a access s" "obj_step alloc a access s t" for s t
    using that(2,1) obj_work_inv by cases blast
qed

section \<open>Properties\<close>

text \<open>
  C30. What the result of \<open>pmemobjbench\<close> can be trusted for, in every interleaving of the workers:
  a reported failure is real (some allocation did fail), and when all workers are joined and
  success is reported, every worker has gone through exactly the blocks of its layout, in order.
\<close>

theorem obj_no_false_alarm:
  assumes "(obj_step alloc a access)\<^sup>*\<^sup>* (obj_start data r os) s"
  shows "(\<not> obj_success s \<longrightarrow> 0 < oerrors s) \<and>
    (obj_joined a s \<and> obj_success s \<longrightarrow>
       (\<forall>i < unat (nthreads_arg a). log_of i (oaccessed s) = obj_offsets a access i))"
proof -
  have inv: "obj_inv a access s" using objw.reachable_inv [OF _ assms] by blast
  have "log_of i (oaccessed s) = obj_offsets a access i"
    if "obj_joined a s" "obj_success s" "i < unat (nthreads_arg a)" for i
  proof -
    let ?w = "oworkers s i"
    have "oworker_ok a False ?w" "o_pc ?w = OEnd" "log_ok a access i (oaccessed s) ?w"
      using inv that by (auto simp: obj_inv_def obj_success_def obj_joined_def)
    then show ?thesis by (auto simp: oworker_defs log_ok_def obj_offsets_def loop_done_def)
  qed
  moreover have "\<not> obj_success s \<longrightarrow> 0 < oerrors s" using inv by (auto simp: obj_inv_def obj_success_def)
  ultimately show ?thesis by blast
qed

text \<open>Two workers with one block each, for concrete runs.\<close>

definition obj_small :: bench_args where
  "obj_small = \<lparr>file_size = 16, block_size = 4, stripe_size = 8, nthreads_arg = 2, total_size = 8,
     op_read = False, op_write = True, op_random = False\<rparr>"

text \<open>A run given by a schedule: which worker moves, and what an allocation it makes returns.\<close>

fun obj_run :: "bench_args \<Rightarrow> u64 list \<Rightarrow> (nat \<times> int) list \<Rightarrow> obj_state \<Rightarrow> obj_state option" where
  "obj_run a access [] s = Some s"
| "obj_run a access ((i, res) # sched) s =
     (if i < unat (nthreads_arg a) then
        (case obj_work False [] res a access i s of
           Some (Inr t) \<Rightarrow> obj_run a access sched t
         | _ \<Rightarrow> None)
      else None)"

lemma obj_run_steps: "obj_run a access sched s = Some t \<Longrightarrow> (obj_step False a access)\<^sup>*\<^sup>* s t"
proof (induction sched arbitrary: s)
  case (Cons x sched)
  obtain i res where x: "x = (i, res)" by fastforce
  with Cons.prems obtain u where i: "i < unat (nthreads_arg a)" and u: "obj_work False [] res a access i s = Some (Inr u)"
    and rest: "obj_run a access sched u = Some t"
    by (auto split: if_splits option.splits sum.splits)
  have "obj_step False a access s u" by (rule obj_step.intros [OF i u])
  with Cons.IH [OF rest] show ?case by (meson converse_rtranclp_into_rtranclp)
qed simp

definition lost_schedule :: "(nat \<times> int) list" where
  "lost_schedule = [(0, - 1), (1, 0), (0, 0), (1, 0), (0, 0), (0, 0), (0, 0), (0, 0), (1, 0), (1, 0), (1, 0), (1, 0)]"

lemma obj_small_simps [simp]:
  "unat (nthreads_arg obj_small) = 2" "unat (obj_stripe_count obj_small) = 1" "unat (obj_unit obj_small) = 1"
  "op_write obj_small" "obj_in_stripe obj_small = 2" "obj_unit obj_small = 1"
  by (simp_all add: obj_small_def obj_stripe_count_def obj_unit_def obj_in_stripe_def)

lemma lost_run:
  "\<exists>s. obj_run obj_small [0] lost_schedule (obj_start ''abcd'' 0 [None, None]) = Some s \<and>
     obj_joined obj_small s \<and> obj_success s \<and> oerrors s = 1 \<and> objects s = [None, Some ''abcd'']"
  by (simp add: lost_schedule_def obj_start_def obj_work_def Let_def obj_block_def memcpyConstructor_def
      obj_joined_def obj_success_def less_2_cases_iff all_conj_distrib disj_imp)

theorem obj_no_false_alarm_witness:
  "\<exists>s. (obj_step False obj_small [0])\<^sup>*\<^sup>* (obj_start ''abcd'' 0 [None, None]) s \<and> obj_joined obj_small s \<and>
     log_of 0 (oaccessed s) = obj_offsets obj_small [0] 0"
proof -
  from lost_run obtain s where run: "obj_run obj_small [0] lost_schedule (obj_start ''abcd'' 0 [None, None]) = Some s"
    and fin: "obj_joined obj_small s" "obj_success s" by blast
  note steps = obj_run_steps [OF run]
  from obj_no_false_alarm [OF steps] fin have "log_of 0 (oaccessed s) = obj_offsets obj_small [0] 0" by simp
  with steps fin show ?thesis by blast
qed

text \<open>
  The converse of an honest result fails: \<open>pmemobjbench\<close> can report success although an
  allocation failed and its block was never written. The return code goes through the variable
  \<open>ret\<close> that all workers share: one worker's failure is overwritten by another's success before
  it is tested.
\<close>

theorem obj_failure_unreported:
  "\<exists>s. obj_check obj_small = Inr True \<and>
     (obj_step False obj_small (obj_access_offset id obj_small))\<^sup>*\<^sup>* (obj_start ''abcd'' 0 [None, None]) s \<and>
     obj_joined obj_small s \<and> obj_success s \<and> 0 < oerrors s \<and> objects s = [None, Some ''abcd'']"
proof -
  have chk: "obj_check obj_small = Inr True" by (simp add: obj_check_def obj_small_def)
  have acc: "obj_access_offset id obj_small = [0]"
    by (simp add: obj_access_offset_def Let_def)
  from lost_run obtain s where run: "obj_run obj_small [0] lost_schedule (obj_start ''abcd'' 0 [None, None]) = Some s"
    and fin: "obj_joined obj_small s" "obj_success s" "oerrors s = 1" "objects s = [None, Some ''abcd'']" by blast
  with obj_run_steps [OF run] chk acc show ?thesis by (intro exI [of _ s]) simp
qed

end
