(* ===== verification/Synchronized_Value.thy ===== *)
theory Synchronized_Value
  imports Prelude
begin

text \<open>
  The synchronized value library (\<open>synchronized_value.hpp\<close>): a value with the mutex that guards
  it. Every member function is a critical section, a list of mutexes taken together and a list of
  single reads and writes of the guarded values, followed by the releases of the guard's
  destructor. Threads interleave at every one of these instructions; an access without the mutex,
  the release of a mutex that is not held and a mutex taken twice by one thread are faults. The
  theorems show that no execution faults, that every execution is equivalent to one in which the
  operations happen one at a time, in the order in which their locks were taken, and that every
  execution ends.
\<close>

section \<open>Objects, mutexes and guards\<close>

record 'v cell =
  sv_value :: 'v
  sv_mutex :: "nat option"

type_synonym 'v cells = "addr \<Rightarrow> 'v cell"

datatype 'v instr =
    Read addr
  | Write addr "'v list \<Rightarrow> 'v"
  | Unlock addr

definition mutexes_free :: "addr list \<Rightarrow> 'v cells \<Rightarrow> bool" where
  "mutexes_free ls m \<longleftrightarrow> list_all (\<lambda>a. sv_mutex (m a) = None) ls"

text \<open>\<open>std::lock\<close> and the constructors of the guards: all mutexes of the list at once.\<close>

definition lock_all :: "nat \<Rightarrow> addr list \<Rightarrow> 'v cells \<Rightarrow> 'v cells" where
  "lock_all i ls m = (\<lambda>a. if a \<in> set ls then (m a)\<lparr>sv_mutex := Some i\<rparr> else m a)"

text \<open>
  One instruction of thread \<open>i\<close>. The second component of the state is what the section has read
  so far, in the order of the reads. \<open>None\<close> is undefined behaviour: a data race, or the release
  of a mutex the thread does not hold.
\<close>

fun exec_instr :: "nat \<Rightarrow> 'v instr \<Rightarrow> 'v cells \<times> 'v list \<Rightarrow> ('v cells \<times> 'v list) option" where
  "exec_instr i (Read a) (m, env) =
     (if sv_mutex (m a) = Some i then Some (m, env @ [sv_value (m a)]) else None)"
| "exec_instr i (Write a f) (m, env) =
     (if sv_mutex (m a) = Some i then Some (m(a := (m a)\<lparr>sv_value := f env\<rparr>), env) else None)"
| "exec_instr i (Unlock a) (m, env) =
     (if sv_mutex (m a) = Some i then Some (m(a := (m a)\<lparr>sv_mutex := None\<rparr>), env) else None)"

record 'v critical =
  locks :: "addr list"
  body :: "'v instr list"
  ret :: "'v list \<Rightarrow> 'v list"

definition code :: "'v critical \<Rightarrow> 'v instr list" where
  "code c = body c @ map Unlock (locks c)"

text \<open>
  \<open>ConstLockGuardPtr\<close> and \<open>LockGuardPtr\<close> hold the mutex from their construction to their
  destruction and give the value through \<open>->\<close> and \<open>*\<close>, read-only or not. \<open>read_section\<close> is the
  part of a \<open>std::lock_guard\<close> section that only reads.
\<close>

definition ConstLockGuardPtr :: "addr \<Rightarrow> 'v critical" where
  "ConstLockGuardPtr a = \<lparr>locks = [a], body = [Read a], ret = (\<lambda>env. env)\<rparr>"

definition LockGuardPtr :: "addr \<Rightarrow> ('v \<Rightarrow> 'v) \<Rightarrow> 'v critical" where
  "LockGuardPtr a f =
     \<lparr>locks = [a], body = [Read a, Write a (\<lambda>env. f (env ! 0))], ret = (\<lambda>env. env)\<rparr>"

text \<open>
  \<open>ConstUniqueLockPtr\<close> and \<open>UniqueLockPtr\<close> built by the free function \<open>synchronize\<close> adopt
  mutexes that \<open>std::lock\<close> has already taken. The client reads the objects through the guards and
  then writes those that are not \<open>const\<close>; \<open>f i\<close> is what it writes to the \<open>i\<close>-th.
\<close>

definition unique_writes :: "(addr \<times> bool) list \<Rightarrow> (nat \<Rightarrow> 'v list \<Rightarrow> 'v)
    \<Rightarrow> (addr \<times> ('v list \<Rightarrow> 'v)) list" where
  "unique_writes gs f =
     map (\<lambda>(i, a, c). (a, f i)) (filter (\<lambda>(i, a, c). \<not> c) (enumerate 0 gs))"

definition unique_reads :: "(addr \<times> bool) list \<Rightarrow> 'v instr list" where
  "unique_reads gs = map Read (map fst gs)"

definition synchronize :: "(addr \<times> bool) list \<Rightarrow> (nat \<Rightarrow> 'v list \<Rightarrow> 'v) \<Rightarrow> 'v critical" where
  "synchronize gs f =
     \<lparr>locks = map fst gs,
      body = unique_reads gs @ map (\<lambda>(a, g). Write a g) (unique_writes gs f),
      ret = (\<lambda>env. env)\<rparr>"

section \<open>The operations\<close>

text \<open>
  A moved-from object is in a valid but unspecified state: \<open>mv v\<close> is what is left where \<open>v\<close> was
  moved out of. A constructor's new object is known to nobody else, so it is the value returned.
\<close>

datatype 'v sv_op =
    CopyConstruct addr
  | MoveConstruct addr
  | CopyAssign addr addr
  | MoveAssign addr addr
  | AssignValue addr 'v
  | Get addr
  | Swap addr addr
  | SwapValue addr 'v
  | Save addr
  | Load addr "'v \<Rightarrow> 'v"
  | Access addr "'v \<Rightarrow> 'v"
  | ConstAccess addr
  | Synchronize "(addr \<times> bool) list" "nat \<Rightarrow> 'v list \<Rightarrow> 'v"

definition no_section :: "'v critical" where
  "no_section = \<lparr>locks = [], body = [], ret = (\<lambda>_. [])\<rparr>"

definition copy_construct :: "addr \<Rightarrow> 'v critical" where
  "copy_construct other = \<lparr>locks = [other], body = [Read other], ret = (\<lambda>env. env)\<rparr>"

definition move_construct :: "('v \<Rightarrow> 'v) \<Rightarrow> addr \<Rightarrow> 'v critical" where
  "move_construct mv other =
     \<lparr>locks = [other], body = [Read other, Write other (\<lambda>env. mv (env ! 0))], ret = (\<lambda>env. env)\<rparr>"

definition copy_assign :: "addr \<Rightarrow> addr \<Rightarrow> 'v critical" where
  "copy_assign this rhs =
     (if rhs \<noteq> this
      then \<lparr>locks = [this, rhs], body = [Read rhs, Write this (\<lambda>env. env ! 0)], ret = (\<lambda>_. [])\<rparr>
      else no_section)"

definition move_assign :: "('v \<Rightarrow> 'v) \<Rightarrow> addr \<Rightarrow> addr \<Rightarrow> 'v critical" where
  "move_assign mv this rhs =
     (if rhs \<noteq> this
      then \<lparr>locks = [this, rhs],
            body = [Read rhs, Write this (\<lambda>env. env ! 0), Write rhs (\<lambda>env. mv (env ! 0))],
            ret = (\<lambda>_. [])\<rparr>
      else no_section)"

definition assign_value :: "addr \<Rightarrow> 'v \<Rightarrow> 'v critical" where
  "assign_value this v = \<lparr>locks = [this], body = [Write this (\<lambda>_. v)], ret = (\<lambda>_. [])\<rparr>"

definition get_value :: "addr \<Rightarrow> 'v critical" where
  "get_value this = \<lparr>locks = [this], body = [Read this], ret = (\<lambda>env. env)\<rparr>"

text \<open>\<open>std::swap\<close> is three moves through a temporary.\<close>

definition swap_with :: "('v \<Rightarrow> 'v) \<Rightarrow> addr \<Rightarrow> addr \<Rightarrow> 'v critical" where
  "swap_with mv this rhs =
     (if this = rhs then no_section
      else \<lparr>locks = [this, rhs],
            body = [Read this, Write this (\<lambda>env. mv (env ! 0)),
                    Read rhs, Write this (\<lambda>env. env ! 1), Write rhs (\<lambda>env. mv (env ! 1)),
                    Write rhs (\<lambda>env. env ! 0)],
            ret = (\<lambda>_. [])\<rparr>)"

definition swap_value :: "('v \<Rightarrow> 'v) \<Rightarrow> addr \<Rightarrow> 'v \<Rightarrow> 'v critical" where
  "swap_value mv this rhs =
     \<lparr>locks = [this],
      body = [Read this, Write this (\<lambda>env. mv (env ! 0)), Write this (\<lambda>_. rhs)],
      ret = (\<lambda>env. env)\<rparr>"

definition save :: "addr \<Rightarrow> 'v critical" where
  "save this = \<lparr>locks = [this], body = [Read this], ret = (\<lambda>env. env)\<rparr>"

definition load :: "addr \<Rightarrow> ('v \<Rightarrow> 'v) \<Rightarrow> 'v critical" where
  "load this extract =
     \<lparr>locks = [this], body = [Read this, Write this (\<lambda>env. extract (env ! 0))], ret = (\<lambda>_. [])\<rparr>"

fun section_of :: "('v \<Rightarrow> 'v) \<Rightarrow> 'v sv_op \<Rightarrow> 'v critical" where
  "section_of mv (CopyConstruct b) = copy_construct b"
| "section_of mv (MoveConstruct b) = move_construct mv b"
| "section_of mv (CopyAssign a b) = copy_assign a b"
| "section_of mv (MoveAssign a b) = move_assign mv a b"
| "section_of mv (AssignValue a v) = assign_value a v"
| "section_of mv (Get a) = get_value a"
| "section_of mv (Swap a b) = swap_with mv a b"
| "section_of mv (SwapValue a v) = swap_value mv a v"
| "section_of mv (Save a) = save a"
| "section_of mv (Load a f) = load a f"
| "section_of mv (Access a f) = LockGuardPtr a f"
| "section_of mv (ConstAccess a) = ConstLockGuardPtr a"
| "section_of mv (Synchronize gs f) = synchronize gs f"

text \<open>The free functions \<open>swap\<close>, \<open><<\<close> and \<open>>>\<close> call the members.\<close>

definition free_swap :: "addr \<Rightarrow> addr \<Rightarrow> 'v sv_op" where
  "free_swap lhs rhs = Swap lhs rhs"

definition free_swap_value :: "addr \<Rightarrow> 'v \<Rightarrow> 'v sv_op" where
  "free_swap_value lhs rhs = SwapValue lhs rhs"

definition stream_out :: "addr \<Rightarrow> 'v sv_op" where
  "stream_out rhs = Save rhs"

definition stream_in :: "('v \<Rightarrow> 'v) \<Rightarrow> addr \<Rightarrow> 'v sv_op" where
  "stream_in extract rhs = Load rhs extract"

text \<open>
  \<open>SynchronizedValue<T>\<close> adds nothing but the choice of the members: for a \<open>T\<close> that cannot be
  copied the specialisation has no copy constructor and no copy assignment. Its own \<open>operator=\<close>
  hides the assignment from a plain value, which then goes through a temporary that is moved from.
\<close>

fun SynchronizedValue :: "bool \<Rightarrow> 'v sv_op \<Rightarrow> 'v sv_op option" where
  "SynchronizedValue copyable (CopyConstruct b) = (if copyable then Some (CopyConstruct b) else None)"
| "SynchronizedValue copyable (CopyAssign a b) = (if copyable then Some (CopyAssign a b) else None)"
| "SynchronizedValue copyable (AssignValue a v) = None"
| "SynchronizedValue copyable op = Some op"

section \<open>Threads\<close>

record 'v sv_thread =
  todo :: "'v sv_op list"
  running :: "('v instr list \<times> 'v list \<times> ('v list \<Rightarrow> 'v list)) option"
  results :: "'v list list"

record 'v sv_state =
  cells :: "'v cells"
  thread :: "nat \<Rightarrow> 'v sv_thread"
  fault :: bool

inductive sv_step :: "('v \<Rightarrow> 'v) \<Rightarrow> nat \<Rightarrow> 'v sv_state \<Rightarrow> 'v sv_state \<Rightarrow> bool"
  for mv :: "'v \<Rightarrow> 'v" and N :: nat where
  enter:
    "\<lbrakk>i < N; running (thread s i) = None; todo (thread s i) = op # ops;
      distinct (locks (section_of mv op)); mutexes_free (locks (section_of mv op)) (cells s)\<rbrakk>
     \<Longrightarrow> sv_step mv N s
           (s\<lparr>cells := lock_all i (locks (section_of mv op)) (cells s),
              thread := (thread s)(i := (thread s i)\<lparr>todo := ops,
                running := Some (code (section_of mv op), [], ret (section_of mv op))\<rparr>)\<rparr>)"
| self_lock:
    "\<lbrakk>i < N; running (thread s i) = None; todo (thread s i) = op # ops;
      \<not> distinct (locks (section_of mv op))\<rbrakk>
     \<Longrightarrow> sv_step mv N s (s\<lparr>fault := True\<rparr>)"
| run:
    "\<lbrakk>i < N; running (thread s i) = Some (ins # rest, env, r);
      exec_instr i ins (cells s, env) = Some (m', env')\<rbrakk>
     \<Longrightarrow> sv_step mv N s
           (s\<lparr>cells := m', thread := (thread s)(i := (thread s i)\<lparr>running := Some (rest, env', r)\<rparr>)\<rparr>)"
| race:
    "\<lbrakk>i < N; running (thread s i) = Some (ins # rest, env, r);
      exec_instr i ins (cells s, env) = None\<rbrakk>
     \<Longrightarrow> sv_step mv N s (s\<lparr>fault := True\<rparr>)"
| leave:
    "\<lbrakk>i < N; running (thread s i) = Some ([], env, r)\<rbrakk>
     \<Longrightarrow> sv_step mv N s
           (s\<lparr>thread := (thread s)(i := (thread s i)\<lparr>running := None,
                results := results (thread s i) @ [r env]\<rparr>)\<rparr>)"

definition sv_initial :: "(nat \<Rightarrow> 'v sv_op list) \<Rightarrow> (addr \<Rightarrow> 'v) \<Rightarrow> 'v sv_state \<Rightarrow> bool" where
  "sv_initial progs vals s \<longleftrightarrow>
     s = \<lparr>cells = (\<lambda>a. \<lparr>sv_value = vals a, sv_mutex = None\<rparr>),
          thread = (\<lambda>i. \<lparr>todo = progs i, running = None, results = []\<rparr>),
          fault = False\<rparr>"

definition sv_done :: "nat \<Rightarrow> 'v sv_state \<Rightarrow> bool" where
  "sv_done N s \<longleftrightarrow> (\<forall>i<N. todo (thread s i) = [] \<and> running (thread s i) = None)"

section \<open>The specification: atomic registers\<close>

fun atomic_op :: "('v \<Rightarrow> 'v) \<Rightarrow> 'v sv_op \<Rightarrow> (addr \<Rightarrow> 'v) \<Rightarrow> (addr \<Rightarrow> 'v) \<times> 'v list" where
  "atomic_op mv (CopyConstruct b) A = (A, [A b])"
| "atomic_op mv (MoveConstruct b) A = (A(b := mv (A b)), [A b])"
| "atomic_op mv (CopyAssign a b) A = (A(a := A b), [])"
| "atomic_op mv (MoveAssign a b) A =
     (if a = b then (A, []) else (A(a := A b, b := mv (A b)), []))"
| "atomic_op mv (AssignValue a v) A = (A(a := v), [])"
| "atomic_op mv (Get a) A = (A, [A a])"
| "atomic_op mv (Swap a b) A = (A(a := A b, b := A a), [])"
| "atomic_op mv (SwapValue a v) A = (A(a := v), [A a])"
| "atomic_op mv (Save a) A = (A, [A a])"
| "atomic_op mv (Load a f) A = (A(a := f (A a)), [])"
| "atomic_op mv (Access a f) A = (A(a := f (A a)), [A a])"
| "atomic_op mv (ConstAccess a) A = (A, [A a])"
| "atomic_op mv (Synchronize gs f) A =
     ((\<lambda>x. case map_of (unique_writes gs f) x of
              None \<Rightarrow> A x | Some g \<Rightarrow> g (map A (map fst gs))),
      map A (map fst gs))"

text \<open>The operations of a log, one at a time; the results are kept by thread.\<close>

fun atomic_run :: "('v \<Rightarrow> 'v) \<Rightarrow> (nat \<times> 'v sv_op) list \<Rightarrow> (addr \<Rightarrow> 'v) \<times> (nat \<Rightarrow> 'v list list)
    \<Rightarrow> (addr \<Rightarrow> 'v) \<times> (nat \<Rightarrow> 'v list list)" where
  "atomic_run mv [] st = st"
| "atomic_run mv ((i, op) # log) (A, out) =
     (case atomic_op mv op A of (A', r) \<Rightarrow> atomic_run mv log (A', out(i := out i @ [r])))"

definition ops_of :: "nat \<Rightarrow> (nat \<times> 'v sv_op) list \<Rightarrow> 'v sv_op list" where
  "ops_of i log = map snd (filter (\<lambda>e. fst e = i) log)"

definition well_formed :: "'v sv_op \<Rightarrow> bool" where
  "well_formed op \<longleftrightarrow> (case op of Synchronize gs f \<Rightarrow> distinct (map fst gs) | _ \<Rightarrow> True)"

section \<open>Sections alone\<close>

text \<open>
  \<open>seq\<close> runs the instructions of one section without interference, on the values only.
  \<open>disciplined\<close> is the lock discipline of a section that holds the mutexes \<open>H\<close>: every access is
  to a held object, and all are released at the end.
\<close>

fun seq :: "'v instr list \<Rightarrow> (addr \<Rightarrow> 'v) \<times> 'v list \<Rightarrow> (addr \<Rightarrow> 'v) \<times> 'v list" where
  "seq [] st = st"
| "seq (Read a # is) (V, env) = seq is (V, env @ [V a])"
| "seq (Write a f # is) (V, env) = seq is (V(a := f env), env)"
| "seq (Unlock a # is) (V, env) = seq is (V, env)"

fun disciplined :: "'v instr list \<Rightarrow> addr set \<Rightarrow> bool" where
  "disciplined [] H \<longleftrightarrow> H = {}"
| "disciplined (Read a # is) H \<longleftrightarrow> a \<in> H \<and> disciplined is H"
| "disciplined (Write a f # is) H \<longleftrightarrow> a \<in> H \<and> disciplined is H"
| "disciplined (Unlock a # is) H \<longleftrightarrow> a \<in> H \<and> disciplined is (H - {a})"

lemma seq_append: "seq (xs @ ys) st = seq ys (seq xs st)"
  by (induction xs st rule: seq.induct) simp_all

lemma seq_unlocks [simp]: "seq (map Unlock ls) st = st"
  by (induction ls) (cases st, simp_all)+

lemma seq_reads: "seq (map Read ls) (V, env) = (V, env @ map V ls)"
  by (induction ls arbitrary: env) simp_all

lemma seq_writes:
  "distinct (map fst ws) \<Longrightarrow> seq (map (\<lambda>(a, g). Write a g) ws) (V, env) =
     ((\<lambda>x. case map_of ws x of None \<Rightarrow> V x | Some g \<Rightarrow> g env), env)"
proof (induction ws arbitrary: V)
  case (Cons w ws)
  obtain a g where w: "w = (a, g)" by (cases w)
  with Cons.prems have "map_of ws a = None" by (simp add: map_of_eq_None_iff)
  with Cons w show ?case by (auto simp: fun_eq_iff split: option.splits)
qed simp

lemma disciplined_unlocks: "distinct ls \<Longrightarrow> disciplined (map Unlock ls) (set ls)"
proof (induction ls)
  case (Cons a ls)
  then have "set (a # ls) - {a} = set ls" by auto
  with Cons show ?case by simp
qed simp

lemma disciplined_reads:
  "set ls \<subseteq> H \<Longrightarrow> disciplined (map Read ls @ ys) H \<longleftrightarrow> disciplined ys H"
  by (induction ls) auto

lemma disciplined_writes:
  "fst ` set ws \<subseteq> H \<Longrightarrow> disciplined (map (\<lambda>(a, g). Write a g) ws @ ys) H \<longleftrightarrow> disciplined ys H"
  by (induction ws) auto

text \<open>A disciplined section reads and writes only what it holds.\<close>

lemma seq_outside: "disciplined is H \<Longrightarrow> a \<notin> H \<Longrightarrow> fst (seq is (V, env)) a = V a"
  by (induction "is" H arbitrary: V env rule: disciplined.induct) auto

lemma seq_local:
  "\<lbrakk>disciplined is H; \<forall>a\<in>H. V a = V' a\<rbrakk> \<Longrightarrow>
   snd (seq is (V, env)) = snd (seq is (V', env)) \<and>
   (\<forall>a\<in>H. fst (seq is (V, env)) a = fst (seq is (V', env)) a)"
proof (induction "is" H arbitrary: V V' env rule: disciplined.induct)
  case (4 a "is" H)
  then have "disciplined is (H - {a})" "\<forall>b\<in>H - {a}. V b = V' b" by auto
  from 4(1) [OF this, of env] 4(2,3) show ?case
    using seq_outside [of "is" "H - {a}" a] by auto
qed auto

lemma unique_writes_distinct:
  "distinct (map fst gs) \<Longrightarrow> distinct (map fst (unique_writes gs f))"
proof -
  assume d: "distinct (map fst gs)"
  have "map fst (unique_writes gs f) = map (fst \<circ> snd) (filter (\<lambda>(i, a, c). \<not> c) (enumerate 0 gs))"
    by (simp add: unique_writes_def case_prod_beta' comp_def)
  moreover have "distinct (map (fst \<circ> snd) (enumerate 0 gs))"
  proof -
    have "map (fst \<circ> snd) (enumerate 0 gs) = map fst (map snd (enumerate 0 gs))"
      by (simp only: map_map)
    with d show ?thesis by (simp only: map_snd_enumerate)
  qed
  ultimately show ?thesis by (simp add: distinct_map_filter)
qed

lemma unique_writes_held: "fst ` set (unique_writes gs f) \<subseteq> fst ` set gs"
proof clarify
  fix a g assume "(a, g) \<in> set (unique_writes gs f)"
  then obtain i c where "(i, a, c) \<in> set (enumerate 0 gs)" by (auto simp: unique_writes_def)
  then have "snd (i, a, c) \<in> snd ` set (enumerate 0 gs)" by (rule imageI)
  then have "(a, c) \<in> set (map snd (enumerate 0 gs))" by (simp only: set_map snd_conv)
  then have "(a, c) \<in> set gs" by (simp only: map_snd_enumerate)
  then show "fst (a, g) \<in> fst ` set gs" by force
qed

lemmas section_defs = no_section_def copy_construct_def move_construct_def copy_assign_def
  move_assign_def assign_value_def get_value_def swap_with_def swap_value_def save_def load_def
  LockGuardPtr_def ConstLockGuardPtr_def synchronize_def unique_reads_def code_def

text \<open>Every member function keeps the discipline, and alone does what the specification says.\<close>

lemma well_formed_distinct: "well_formed op \<Longrightarrow> distinct (locks (section_of mv op))"
  by (cases op) (auto simp: section_defs well_formed_def)

lemma section_disciplined:
  "well_formed op \<Longrightarrow> disciplined (code (section_of mv op)) (set (locks (section_of mv op)))"
proof (cases op)
  case (Synchronize gs f)
  moreover assume "well_formed op"
  ultimately have "distinct (map fst gs)" by (simp add: well_formed_def)
  with Synchronize disciplined_unlocks [of "map fst gs"] show ?thesis
    by (simp add: section_defs disciplined_reads disciplined_writes unique_writes_held del: map_map)
qed (auto simp: section_defs)

lemma section_atomic:
  assumes "well_formed op"
  shows "atomic_op mv op A =
    (case seq (code (section_of mv op)) (A, []) of (A', env) \<Rightarrow> (A', ret (section_of mv op) env))"
proof (cases op)
  case (Synchronize gs f)
  with assms have "distinct (map fst (unique_writes gs f))"
    by (simp add: well_formed_def unique_writes_distinct)
  with Synchronize show ?thesis
    by (simp add: section_defs seq_append seq_reads seq_writes del: map_map)
qed (auto simp: section_defs fun_upd_twist)

section \<open>Every execution is a sequence of atomic operations\<close>

definition vals :: "'v sv_state \<Rightarrow> addr \<Rightarrow> 'v" where
  "vals s a = sv_value (cells s a)"

definition owned :: "'v sv_state \<Rightarrow> nat \<Rightarrow> addr set" where
  "owned s i = {a. sv_mutex (cells s a) = Some i}"

text \<open>
  With \<open>A\<close> and \<open>out\<close> the registers and results of the specification after the logged operations:
  a thread between operations holds no mutex and has their results; one inside a section keeps
  the discipline and is on its way to the values of \<open>A\<close> for the objects it holds.
\<close>

definition thread_ok :: "(addr \<Rightarrow> 'v) \<Rightarrow> 'v list list \<Rightarrow> 'v sv_state \<Rightarrow> nat \<Rightarrow> bool" where
  "thread_ok A out s i \<longleftrightarrow>
     (case running (thread s i) of
        None \<Rightarrow> owned s i = {} \<and> out = results (thread s i)
      | Some (is, env, r) \<Rightarrow>
          disciplined is (owned s i) \<and>
          (\<forall>a\<in>owned s i. fst (seq is (vals s, env)) a = A a) \<and>
          out = results (thread s i) @ [r (snd (seq is (vals s, env)))])"

definition sv_sim :: "(nat \<Rightarrow> 'v sv_op list) \<Rightarrow> nat \<Rightarrow> (nat \<times> 'v sv_op) list
    \<Rightarrow> (addr \<Rightarrow> 'v) \<times> (nat \<Rightarrow> 'v list list) \<Rightarrow> 'v sv_state \<Rightarrow> bool" where
  "sv_sim progs N log spec s \<longleftrightarrow>
     \<not> fault s \<and>
     (\<forall>i<N. progs i = ops_of i log @ todo (thread s i)) \<and>
     (\<forall>a. sv_mutex (cells s a) = None \<longrightarrow> vals s a = fst spec a) \<and>
     (\<forall>a i. sv_mutex (cells s a) = Some i \<longrightarrow> i < N) \<and>
     (\<forall>i<N. thread_ok (fst spec) (snd spec i) s i)"

definition sv_inv :: "('v \<Rightarrow> 'v) \<Rightarrow> (nat \<Rightarrow> 'v sv_op list) \<Rightarrow> (addr \<Rightarrow> 'v) \<Rightarrow> nat \<Rightarrow> 'v sv_state \<Rightarrow> bool" where
  "sv_inv mv progs V0 N s \<longleftrightarrow>
     (\<exists>log. sv_sim progs N log (atomic_run mv log (V0, \<lambda>_. [])) s)"

lemma atomic_run_snoc:
  "atomic_run mv (log @ [(i, op)]) st =
     (case atomic_run mv log st of (A, out) \<Rightarrow>
        case atomic_op mv op A of (A', r) \<Rightarrow> (A', out(i := out i @ [r])))"
  by (induction mv log st rule: atomic_run.induct) (auto split: prod.splits)

lemma ops_of_snoc: "ops_of i (log @ [(j, op)]) = ops_of i log @ (if i = j then [op] else [])"
  by (simp add: ops_of_def)

text \<open>A thread is not disturbed by changes to objects it does not hold.\<close>

lemma thread_ok_frame:
  assumes ok: "thread_ok A out s j"
    and same: "thread s' j = thread s j" "owned s' j = owned s j"
    and held: "\<And>a. a \<in> owned s j \<Longrightarrow> vals s' a = vals s a \<and> A' a = A a"
  shows "thread_ok A' out s' j"
proof (cases "running (thread s j)")
  case (Some st)
  obtain "is" env r where st: "st = (is, env, r)" by (cases st)
  from Some ok st have d: "disciplined is (owned s j)" by (simp add: thread_ok_def)
  have "\<forall>a\<in>owned s j. vals s' a = vals s a" using held by simp
  from seq_local [OF d this, of env] Some ok st same held show ?thesis
    by (simp add: thread_ok_def)
qed (use ok same in \<open>simp add: thread_ok_def\<close>)

lemma sim_enter:
  assumes sim: "sv_sim progs N log (A, out) s" and i: "i < N"
    and idle: "running (thread s i) = None" "todo (thread s i) = op # ops"
    and wf: "well_formed op" and free: "mutexes_free (locks (section_of mv op)) (cells s)"
    and spec: "atomic_op mv op A = (A', res)"
    and t: "t = s\<lparr>cells := lock_all i (locks (section_of mv op)) (cells s),
              thread := (thread s)(i := (thread s i)\<lparr>todo := ops,
                running := Some (code (section_of mv op), [], ret (section_of mv op))\<rparr>)\<rparr>"
  shows "sv_sim progs N (log @ [(i, op)]) (A', out(i := out i @ [res])) t"
proof -
  let ?H = "set (locks (section_of mv op))" and ?c = "code (section_of mv op)"
  have H: "\<And>a. a \<in> ?H \<Longrightarrow> sv_mutex (cells s a) = None"
    using free by (simp add: mutexes_free_def list_all_iff)
  have VA: "\<forall>a\<in>?H. vals s a = A a" using sim H by (auto simp: sv_sim_def)
  have vt: "vals t = vals s" using t by (auto simp: vals_def lock_all_def fun_eq_iff)
  have ti: "thread_ok A (out i) s i" using sim i by (simp add: sv_sim_def)
  then have oi: "owned s i = {}" "out i = results (thread s i)"
    using idle by (auto simp: thread_ok_def)
  then have ot: "owned t i = ?H" using t by (auto simp: owned_def lock_all_def)
  have oj: "owned t j = owned s j" if "j \<noteq> i" for j
    using t that H by (auto simp: owned_def lock_all_def)
  have d: "disciplined ?c ?H" by (rule section_disciplined [OF wf])
  obtain env' where q: "seq ?c (A, []) = (A', env')" "res = ret (section_of mv op) env'"
    using section_atomic [OF wf, of mv A] spec by (auto split: prod.splits)
  have out: "A' a = A a" if "a \<notin> ?H" for a
    using seq_outside [OF d that, of A "[]"] q by simp
  have "thread_ok A' (out i @ [res]) t i"
    using t d ot vt q oi seq_local [OF d VA, of "[]"] by (simp add: thread_ok_def)
  moreover have "thread_ok A' (out j) t j" if "j < N" "j \<noteq> i" for j
  proof (rule thread_ok_frame [of A "out j" s])
    show "vals t a = vals s a \<and> A' a = A a" if "a \<in> owned s j" for a
      using that H [of a] out [of a] vt by (cases "a \<in> ?H") (auto simp: owned_def)
  qed (use sim that t oj in \<open>auto simp: sv_sim_def\<close>)
  moreover have "vals t a = A' a" if "sv_mutex (cells t a) = None" for a
  proof -
    have "a \<notin> ?H" "sv_mutex (cells s a) = None"
      using that t by (auto simp: lock_all_def split: if_splits)
    with sim out vt show ?thesis by (auto simp: sv_sim_def)
  qed
  ultimately show ?thesis
    using sim t i idle by (auto simp: sv_sim_def ops_of_snoc lock_all_def)
qed

lemma sim_run:
  assumes sim: "sv_sim progs N log (A, out) s" and i: "i < N"
    and r: "running (thread s i) = Some (ins # rest, env, r)"
    and e: "exec_instr i ins (cells s, env) = Some (m', env')"
    and t: "t = s\<lparr>cells := m', thread := (thread s)(i := (thread s i)\<lparr>running := Some (rest, env', r)\<rparr>)\<rparr>"
  shows "sv_sim progs N log (A, out) t"
proof -
  have ti: "thread_ok A (out i) s i" using sim i by (simp add: sv_sim_def)
  then have d: "disciplined (ins # rest) (owned s i)"
    and q: "\<And>a. a \<in> owned s i \<Longrightarrow> fst (seq (ins # rest) (vals s, env)) a = A a"
    and o: "out i = results (thread s i) @ [r (snd (seq (ins # rest) (vals s, env)))]"
    using r by (auto simp: thread_ok_def)
  have oj: "owned t j = owned s j" if "j \<noteq> i" for j
    using e t that by (cases ins) (auto simp: owned_def split: if_splits)
  have vj: "vals t a = vals s a" if "a \<notin> owned s i" for a
    using e t that by (cases ins) (auto simp: owned_def vals_def split: if_splits)
  have "vals t = (case ins of Write a f \<Rightarrow> (vals s)(a := f env) | _ \<Rightarrow> vals s)"
    and "env' = (case ins of Read a \<Rightarrow> env @ [vals s a] | _ \<Rightarrow> env)"
    using e unfolding t by (cases ins; force simp: vals_def split: if_splits)+
  then have "seq (ins # rest) (vals s, env) = seq rest (vals t, env')" by (cases ins) auto
  moreover have "disciplined rest (owned t i)" "owned t i \<subseteq> owned s i"
  proof -
    have "owned t i = (case ins of Unlock a \<Rightarrow> owned s i - {a} | _ \<Rightarrow> owned s i)"
      using e t by (cases ins) (auto simp: owned_def split: if_splits)
    with d show "disciplined rest (owned t i)" "owned t i \<subseteq> owned s i"
      by (cases ins; auto)+
  qed
  ultimately have "thread_ok A (out i) t i"
    using q o t by (auto simp: thread_ok_def)
  moreover have "thread_ok A (out j) t j" if "j < N" "j \<noteq> i" for j
  proof (rule thread_ok_frame [of A "out j" s])
    show "vals t a = vals s a \<and> A a = A a" if "a \<in> owned s j" for a
      using that \<open>j \<noteq> i\<close> vj [of a] by (auto simp: owned_def)
  qed (use sim that t oj in \<open>auto simp: sv_sim_def\<close>)
  moreover have "vals t a = A a" if free: "sv_mutex (cells t a) = None" for a
  proof (cases "sv_mutex (cells s a) = None")
    case True
    with sim vj [of a] show ?thesis by (auto simp: sv_sim_def owned_def)
  next
    case False
    with free e t have ins: "ins = Unlock a" and a: "a \<in> owned s i"
      by (cases ins; auto simp: owned_def split: if_splits)+
    with d have "disciplined rest (owned s i - {a})" by simp
    with ins q [OF a] e t seq_outside [of rest "owned s i - {a}" a "vals s" env] show ?thesis
      by (auto simp: vals_def split: if_splits)
  qed
  moreover have "j < N" if "sv_mutex (cells t a) = Some j" for a j
  proof (cases "j = i")
    case False
    with that oj [of j] have "sv_mutex (cells s a) = Some j" by (auto simp: owned_def)
    with sim show ?thesis by (auto simp: sv_sim_def)
  qed (use i in simp)
  ultimately show ?thesis using sim t by (auto simp: sv_sim_def)
qed

lemma sim_leave:
  assumes sim: "sv_sim progs N log (A, out) s" and i: "i < N"
    and r: "running (thread s i) = Some ([], env, r)"
    and t: "t = s\<lparr>thread := (thread s)(i := (thread s i)\<lparr>running := None,
                results := results (thread s i) @ [r env]\<rparr>)\<rparr>"
  shows "sv_sim progs N log (A, out) t"
proof -
  have c: "cells t = cells s" and f: "fault t = fault s"
    and th: "thread t = (thread s)(i := (thread s i)\<lparr>running := None,
                results := results (thread s i) @ [r env]\<rparr>)"
    by (simp_all add: t)
  have o: "owned t j = owned s j" and v: "vals t a = vals s a" for j a
    by (simp_all add: owned_def vals_def c)
  have "thread_ok A (out i) s i" using sim i by (simp add: sv_sim_def)
  then have "owned s i = {}" "out i = results (thread s i) @ [r env]"
    using r by (simp_all add: thread_ok_def)
  then have ti: "thread_ok A (out i) t i" by (simp add: thread_ok_def th o)
  have tj: "thread_ok A (out j) t j" if "j < N" for j
  proof (cases "j = i")
    case False
    have "thread_ok A (out j) s j" using sim that by (simp add: sv_sim_def)
    then show ?thesis by (rule thread_ok_frame) (simp_all add: th False o v)
  qed (use ti in simp)
  have "progs j = ops_of j log @ todo (thread t j)" if "j < N" for j
    using sim that by (simp add: sv_sim_def th)
  with sim tj show ?thesis by (simp add: sv_sim_def c f v)
qed

lemma exec_ok:
  assumes "sv_sim progs N log spec s" "i < N" "running (thread s i) = Some (ins # rest, env, r)"
  shows "\<exists>m' env'. exec_instr i ins (cells s, env) = Some (m', env')"
proof -
  have "disciplined (ins # rest) (owned s i)"
    using assms by (auto simp: sv_sim_def thread_ok_def)
  then show ?thesis by (cases ins) (auto simp: owned_def)
qed

definition well_formed_progs :: "(nat \<Rightarrow> 'v sv_op list) \<Rightarrow> nat \<Rightarrow> bool" where
  "well_formed_progs progs N \<longleftrightarrow> list_all (\<lambda>i. list_all well_formed (progs i)) [0..<N]"

lemma next_well_formed:
  assumes "well_formed_progs progs N" "sv_sim progs N log spec s" "i < N"
    "todo (thread s i) = op # ops"
  shows "well_formed op"
proof -
  have "progs i = ops_of i log @ op # ops" using assms by (auto simp: sv_sim_def)
  with assms(1,3) show ?thesis by (auto simp: well_formed_progs_def list_all_iff)
qed

lemma sv_step_inv:
  assumes wf: "well_formed_progs progs N" and inv: "sv_inv mv progs V0 N s" and st: "sv_step mv N s t"
  shows "sv_inv mv progs V0 N t"
proof -
  obtain log where sim: "sv_sim progs N log (atomic_run mv log (V0, \<lambda>_. [])) s"
    using inv by (auto simp: sv_inv_def)
  obtain A out where run: "atomic_run mv log (V0, \<lambda>_. []) = (A, out)" by (meson surj_pair)
  from sim have sim: "sv_sim progs N log (A, out) s" by (simp add: run)
  have keep: "sv_inv mv progs V0 N u" if "sv_sim progs N log (A, out) u" for u
    using that run by (auto simp: sv_inv_def intro: exI [of _ log])
  from st show ?thesis
  proof cases
    case (enter i op ops)
    obtain A' res where op: "atomic_op mv op A = (A', res)" by (meson surj_pair)
    have "well_formed op" using next_well_formed [OF wf sim enter(2,4)] .
    then have "sv_sim progs N (log @ [(i, op)]) (A', out(i := out i @ [res])) t"
      using sim_enter [OF sim enter(2,3,4) _ enter(6) op] enter(1) by simp
    then show ?thesis
      using run op by (auto simp: sv_inv_def atomic_run_snoc intro!: exI [of _ "log @ [(i, op)]"])
  next
    case (self_lock i op ops)
    then show ?thesis
      using next_well_formed [OF wf sim, of i op ops] well_formed_distinct by blast
  next
    case (run i ins rest env r m' env')
    then show ?thesis using keep sim_run [OF sim] by blast
  next
    case (race i ins rest env r)
    then show ?thesis using exec_ok [OF sim] by fastforce
  next
    case (leave i env r)
    then show ?thesis using keep sim_leave [OF sim] by blast
  qed
qed

lemma sv_initial_inv: "sv_initial progs V0 s \<Longrightarrow> sv_inv mv progs V0 N s"
  unfolding sv_inv_def
  by (rule exI [of _ "[]"])
     (simp add: sv_initial_def sv_sim_def ops_of_def vals_def thread_ok_def owned_def)

section \<open>Termination\<close>

text \<open>What a thread still has to do: two steps and the instructions of each remaining operation.\<close>

definition thread_work :: "('v \<Rightarrow> 'v) \<Rightarrow> 'v sv_thread \<Rightarrow> nat" where
  "thread_work mv th =
     sum_list (map (\<lambda>op. length (code (section_of mv op)) + 2) (todo th)) +
     (case running th of None \<Rightarrow> 0 | Some (is, _) \<Rightarrow> length is + 1)"

definition sv_work :: "('v \<Rightarrow> 'v) \<Rightarrow> nat \<Rightarrow> 'v sv_state \<Rightarrow> nat" where
  "sv_work mv N s = (\<Sum>i<N. thread_work mv (thread s i))"

lemma sv_work_less:
  assumes "i < N" "thread t = (thread s)(i := th)" "thread_work mv th < thread_work mv (thread s i)"
  shows "sv_work mv N t < sv_work mv N s"
  using sum_fun_upd [OF assms(1), of "thread_work mv" "thread s" th] assms(2,3)
  by (simp add: sv_work_def)

lemma sv_decreases:
  assumes wf: "well_formed_progs progs N" and inv: "sv_inv mv progs V0 N s" and st: "sv_step mv N s t"
  shows "sv_work mv N t < sv_work mv N s"
  using st
proof cases
  case (enter i op ops)
  then show ?thesis by (intro sv_work_less [OF enter(2)]) (auto simp: thread_work_def)
next
  case (run i ins rest env r m' env')
  then show ?thesis by (intro sv_work_less [OF run(2)]) (auto simp: thread_work_def)
next
  case (leave i env r)
  then show ?thesis by (intro sv_work_less [OF leave(2)]) (auto simp: thread_work_def)
next
  case (self_lock i op ops)
  moreover obtain log spec where "sv_sim progs N log spec s" using inv unfolding sv_inv_def by blast
  ultimately show ?thesis using next_well_formed [OF wf] well_formed_distinct by metis
next
  case (race i ins rest env r)
  moreover obtain log spec where "sv_sim progs N log spec s" using inv unfolding sv_inv_def by blast
  ultimately show ?thesis using exec_ok [of progs N log spec s i ins rest env r] by simp
qed

lemma sv_enabled:
  assumes wf: "well_formed_progs progs N" and inv: "sv_inv mv progs V0 N s" and nd: "\<not> sv_done N s"
  shows "\<exists>t. sv_step mv N s t"
proof -
  obtain log spec where sim: "sv_sim progs N log spec s" using inv unfolding sv_inv_def by blast
  show ?thesis
  proof (cases "\<exists>i<N. running (thread s i) \<noteq> None")
    case True
    then obtain i "is" env r where i: "i < N" "running (thread s i) = Some (is, env, r)"
      by (metis not_None_eq prod_cases3)
    then show ?thesis
    proof (cases "is")
      case Nil
      with i show ?thesis by (meson sv_step.leave)
    next
      case (Cons ins rest)
      with i exec_ok [OF sim, of i ins rest env r] show ?thesis by (metis sv_step.run)
    qed
  next
    case False
    with nd obtain i op ops where i: "i < N" "running (thread s i) = None"
      "todo (thread s i) = op # ops"
      by (metis neq_Nil_conv sv_done_def)
    have "sv_mutex (cells s a) = None" for a
    proof (rule ccontr)
      assume "sv_mutex (cells s a) \<noteq> None"
      then obtain j where j: "sv_mutex (cells s a) = Some j" by auto
      with sim have "j < N" "thread_ok (fst spec) (snd spec j) s j" by (auto simp: sv_sim_def)
      moreover have "running (thread s j) = None" using False \<open>j < N\<close> by blast
      ultimately show False using j by (auto simp: thread_ok_def owned_def)
    qed
    then have "mutexes_free (locks (section_of mv op)) (cells s)"
      by (simp add: mutexes_free_def list_all_iff)
    with i next_well_formed [OF wf sim] well_formed_distinct show ?thesis
      by (metis sv_step.enter)
  qed
qed

text \<open>The system of a fixed well-formed program as an instance of the shared interface.\<close>

interpretation sv: terminating_system
  "\<lambda>s. well_formed_progs progs N \<and> sv_initial progs V0 s" "sv_step mv N"
  "\<lambda>s. well_formed_progs progs N \<and> sv_inv mv progs V0 N s" "sv_done N" "sv_work mv N"
  for mv progs V0 N
  by unfold_locales (auto intro: sv_initial_inv sv_step_inv sv_decreases sv_enabled)

section \<open>Properties\<close>

text \<open>
  C4. The synchronized values are linearizable. However the threads interleave, no execution
  touches a value without its mutex, releases a mutex it does not hold or takes one twice, and
  there is an order of the operations begun so far, which extends the program order of every
  thread, such that executing them one at a time on plain registers gives the value of every
  unlocked object and, for every thread that is between operations, the results it has got.
\<close>

theorem sv_linearizable:
  assumes "well_formed_progs progs N" and "sv_initial progs V0 s" and "(sv_step mv N)\<^sup>*\<^sup>* s t"
  shows "\<not> fault t \<and> (\<exists>log A out. atomic_run mv log (V0, \<lambda>_. []) = (A, out) \<and>
    (\<forall>i. i < N \<longrightarrow> progs i = ops_of i log @ todo (thread t i)) \<and>
    (\<forall>a. sv_mutex (cells t a) = None \<longrightarrow> sv_value (cells t a) = A a) \<and>
    (\<forall>i. i < N \<longrightarrow> running (thread t i) = None \<longrightarrow> results (thread t i) = out i))"
proof -
  have "sv_inv mv progs V0 N t" using sv.reachable_inv [of progs N V0 s mv t] assms by simp
  then obtain log where sim: "sv_sim progs N log (atomic_run mv log (V0, \<lambda>_. [])) t"
    by (auto simp: sv_inv_def)
  obtain A out where run: "atomic_run mv log (V0, \<lambda>_. []) = (A, out)" by (meson surj_pair)
  show ?thesis
    using sim run
    by (intro conjI exI [of _ log] exI [of _ A] exI [of _ out])
       (auto simp: sv_sim_def vals_def thread_ok_def)
qed

theorem sv_linearizable_witness:
  "\<exists>s t log A out. sv_initial (\<lambda>i. [Swap i (1 - i), Get 0]) (\<lambda>a. 10 + a) s \<and>
     (sv_step id 2)\<^sup>*\<^sup>* s t \<and> sv_done 2 t \<and> \<not> fault t \<and>
     atomic_run id log (\<lambda>a. 10 + a, \<lambda>_. []) = (A, out) \<and>
     ops_of 0 log = [Swap 0 1, Get 0] \<and> ops_of 1 log = [Swap 1 0, Get 0] \<and>
     results (thread t 0) = out 0 \<and> results (thread t 1) = out 1"
proof -
  let ?p = "\<lambda>i :: nat. [Swap i (1 - i), Get 0] :: nat sv_op list" and ?V = "\<lambda>a :: addr. 10 + a"
  have wf: "well_formed_progs ?p 2"
    by (simp add: well_formed_progs_def well_formed_def list_all_iff)
  obtain s where s: "sv_initial ?p ?V s" by (simp add: sv_initial_def)
  with wf obtain t where t: "(sv_step id 2)\<^sup>*\<^sup>* s t" "sv_done 2 t"
    using sv.reachable_can_finish [of ?p 2 ?V s id s] by auto
  from sv_linearizable [OF wf s t(1)] obtain log A out where l: "\<not> fault t"
    "atomic_run id log (?V, \<lambda>_. []) = (A, out)"
    "\<forall>i. i < 2 \<longrightarrow> ?p i = ops_of i log @ todo (thread t i)"
    "\<forall>i. i < 2 \<longrightarrow> running (thread t i) = None \<longrightarrow> results (thread t i) = out i"
    by blast
  have "ops_of 0 log = [Swap 0 1, Get 0]" "ops_of 1 log = [Swap 1 0, Get 0]"
    using l(3) [rule_format, of 0] l(3) [rule_format, of 1] t(2) by (auto simp: sv_done_def)
  moreover have "results (thread t 0) = out 0" "results (thread t 1) = out 1"
    using l(4) t(2) by (auto simp: sv_done_def)
  ultimately show ?thesis using s t l(1,2) by blast
qed



end
