(* ===== verification/Phi_Accrual.thy ===== *)
theory Phi_Accrual
  imports Complex_Main Prelude
begin

text \<open>
  The failure detector library (\<open>phi_accrual_fd/window.hpp\<close>, \<open>failure_detector.hpp\<close>) and the
  server of \<open>thallium_failure_detector\<close> built on it. Durations are milliseconds as reals (the
  rounding of \<open>double\<close> is not modelled), time points are arguments. A member that the constructors
  leave uninitialised is \<open>None\<close>, and using it is \<open>Undefined\<close>; a quotient by the size of an empty
  window is not a number, which is \<open>None\<close> as a result.
\<close>

section \<open>The sliding window\<close>

record window =
  window_size :: nat
  durations :: "real list"
  sum_ms :: "real option"
  sum_of_squares :: "real option"

definition window_new :: "nat \<Rightarrow> window" where
  "window_new n = \<lparr>window_size = n, durations = [], sum_ms = None, sum_of_squares = None\<rparr>"

definition window_reset :: "window \<Rightarrow> window" where
  "window_reset w = w\<lparr>durations := [], sum_ms := Some 0, sum_of_squares := Some 0\<rparr>"

definition pow2 :: "real \<Rightarrow> real" where
  "pow2 d = d * d"

definition window_add :: "real \<Rightarrow> window \<Rightarrow> window res" where
  "window_add d w =
     (case (sum_ms w, sum_of_squares w) of
        (Some s, Some q) \<Rightarrow>
          (let ds = durations w @ [d]; s = s + d; q = q + pow2 d in
           if length ds > window_size w
           then Inr (w\<lparr>durations := tl ds, sum_ms := Some (s - ds ! 0),
                       sum_of_squares := Some (q - pow2 (ds ! 0))\<rparr>)
           else Inr (w\<lparr>durations := ds, sum_ms := Some s, sum_of_squares := Some q\<rparr>))
      | _ \<Rightarrow> Inl Undefined)"

text \<open>Division of a duration by a number of durations.\<close>

definition per :: "real \<Rightarrow> nat \<Rightarrow> real option" where
  "per x n = (if n = 0 then None else Some (x / real n))"

definition mean :: "window \<Rightarrow> real option res" where
  "mean w = (case sum_ms w of None \<Rightarrow> Inl Undefined | Some s \<Rightarrow> Inr (per s (length (durations w))))"

definition variance :: "window \<Rightarrow> real option res" where
  "variance w =
     (case (sum_of_squares w, mean w) of
        (Some q, Inr m) \<Rightarrow>
          Inr (case (per q (length (durations w)), m) of
                 (Some x, Some y) \<Rightarrow> Some (x - pow2 y) | _ \<Rightarrow> None)
      | _ \<Rightarrow> Inl Undefined)"

text \<open>The mean and the standard deviation; the square root of a negative number is not a number.\<close>

definition normalDistribution :: "window \<Rightarrow> (real \<times> real) option res" where
  "normalDistribution w =
     (case (mean w, sum_of_squares w) of
        (Inr m, Some q) \<Rightarrow>
          Inr (case (m, per q (length (durations w))) of
                 (Some y, Some x) \<Rightarrow>
                   (if x - pow2 y < 0 then None else Some (y, sqrt (x - pow2 y)))
               | _ \<Rightarrow> None)
      | _ \<Rightarrow> Inl Undefined)"

section \<open>The detector\<close>

record failure_detector =
  latest_heartbeat :: real
  fd_window :: window

definition failure_detector_new :: "real \<Rightarrow> failure_detector" where
  "failure_detector_new now = \<lparr>latest_heartbeat = now, fd_window = window_new 1000\<rparr>"

definition fd_reset :: "real \<Rightarrow> failure_detector \<Rightarrow> failure_detector" where
  "fd_reset t fd = fd\<lparr>fd_window := window_reset (fd_window fd), latest_heartbeat := t\<rparr>"

definition heartbeat :: "real \<Rightarrow> failure_detector \<Rightarrow> failure_detector res" where
  "heartbeat t fd =
     (case window_add (t - latest_heartbeat fd) (fd_window fd) of
        Inl e \<Rightarrow> Inl e
      | Inr w \<Rightarrow> Inr (fd\<lparr>fd_window := w, latest_heartbeat := t\<rparr>))"

definition phi :: "real \<Rightarrow> failure_detector \<Rightarrow> real option res" where
  "phi t fd =
     (let since = t - latest_heartbeat fd in
      case normalDistribution (fd_window fd) of
        Inl e \<Rightarrow> Inl e
      | Inr None \<Rightarrow> Inr None
      | Inr (Some (m, stddev)) \<Rightarrow>
          (let sigma = (if stddev < 1 then 1 else stddev);
               y = (since - m) / sigma;
               e = exp (- y * (1.5976 + 0.070566 * y * y)) in
           if since < m then Inr (Some (- log 10 (1 - 1 / (1 + e))))
           else Inr (Some (- log 10 (e / (1 + e))))))"

section \<open>The heartbeat server\<close>

text \<open>
  The printing thread and the \<open>hb\<close> handler share the detector and the flag under one mutex, so
  that an execution is a sequence of these two sections, each at the time of its clock reading.
\<close>

datatype fd_event = Heartbeat real | PrintPhi real

record fd_server =
  detector :: failure_detector
  received_first_heartbeat :: bool
  printed :: "real option list"

definition fd_server_new :: "real \<Rightarrow> fd_server" where
  "fd_server_new now =
     \<lparr>detector = failure_detector_new now, received_first_heartbeat = False, printed = []\<rparr>"

definition hb :: "real \<Rightarrow> fd_server \<Rightarrow> fd_server res" where
  "hb t s =
     (if \<not> received_first_heartbeat s
      then Inr (s\<lparr>received_first_heartbeat := True, detector := fd_reset t (detector s)\<rparr>)
      else case heartbeat t (detector s) of
             Inl e \<Rightarrow> Inl e
           | Inr fd \<Rightarrow> Inr (s\<lparr>detector := fd\<rparr>))"

definition print_phi :: "real \<Rightarrow> fd_server \<Rightarrow> fd_server res" where
  "print_phi t s =
     (case phi t (detector s) of
        Inl e \<Rightarrow> Inl e
      | Inr p \<Rightarrow> Inr (s\<lparr>printed := printed s @ [p]\<rparr>))"

fun fd_server_run :: "fd_event list \<Rightarrow> fd_server \<Rightarrow> fd_server res" where
  "fd_server_run [] s = Inr s"
| "fd_server_run (Heartbeat t # es) s =
     (case hb t s of Inl e \<Rightarrow> Inl e | Inr s' \<Rightarrow> fd_server_run es s')"
| "fd_server_run (PrintPhi t # es) s =
     (case print_phi t s of Inl e \<Rightarrow> Inl e | Inr s' \<Rightarrow> fd_server_run es s')"

section \<open>The window keeps the sums of what it holds\<close>

definition window_ok :: "window \<Rightarrow> bool" where
  "window_ok w \<longleftrightarrow>
     sum_ms w = Some (sum_list (durations w)) \<and>
     sum_of_squares w = Some (sum_list (map pow2 (durations w))) \<and>
     length (durations w) \<le> window_size w"

text \<open>The last \<open>n\<close> elements of a list.\<close>

definition last_n :: "nat \<Rightarrow> 'a list \<Rightarrow> 'a list" where
  "last_n n xs = drop (length xs - n) xs"

lemma last_n_append: "last_n n (last_n n xs @ ys) = last_n n (xs @ ys)"
proof (cases "length xs \<le> n")
  case False
  then have "last_n n xs @ ys = drop (length xs - n) (xs @ ys)" by (simp add: last_n_def)
  with False show ?thesis by (simp add: last_n_def add.commute)
qed (simp add: last_n_def)

lemma window_reset_ok [simp]: "window_ok (window_reset w)"
  by (simp add: window_ok_def window_reset_def)

lemma window_reset_sel [simp]:
  "window_size (window_reset w) = window_size w" "durations (window_reset w) = []"
  by (simp_all add: window_reset_def)

lemma window_add_ok:
  assumes "window_ok w"
  shows "\<exists>w'. window_add d w = Inr w' \<and> window_ok w' \<and> window_size w' = window_size w \<and>
    durations w' = last_n (window_size w) (durations w @ [d])"
proof (cases "durations w")
  case Nil
  with assms show ?thesis
    by (cases "window_size w") (auto simp: window_ok_def window_add_def last_n_def)
next
  case (Cons x xs)
  with assms show ?thesis
    by (auto simp: window_ok_def window_add_def last_n_def Let_def Suc_diff_le
             intro!: exI [where P = "\<lambda>w'. _ = w' \<and> _ w'"])
qed

fun window_adds :: "real list \<Rightarrow> window \<Rightarrow> window res" where
  "window_adds [] w = Inr w"
| "window_adds (d # ds) w = (case window_add d w of Inl e \<Rightarrow> Inl e | Inr w' \<Rightarrow> window_adds ds w')"

lemma window_adds_ok:
  "window_ok w \<Longrightarrow> \<exists>w'. window_adds ds w = Inr w' \<and> window_ok w' \<and> window_size w' = window_size w \<and>
     durations w' = last_n (window_size w) (durations w @ ds)"
proof (induction ds arbitrary: w)
  case Nil
  then show ?case by (simp add: window_ok_def last_n_def)
next
  case (Cons d ds)
  obtain w1 where w1: "window_add d w = Inr w1" "window_ok w1" "window_size w1 = window_size w"
    "durations w1 = last_n (window_size w) (durations w @ [d])"
    using window_add_ok [OF Cons.prems, of d] by blast
  have "last_n n (last_n n (xs @ [d]) @ ds) = last_n n (xs @ d # ds)" for n and xs :: "real list"
    using last_n_append [of n "xs @ [d]" ds] by simp
  with Cons.IH [OF w1(2)] w1 show ?case by auto
qed

text \<open>The mean of the squares minus the square of the mean is the mean squared deviation.\<close>

lemma sum_deviation:
  "sum_list (map (\<lambda>x. pow2 (x - m)) xs) =
     sum_list (map pow2 xs) - 2 * m * sum_list xs + real (length xs) * pow2 m"
  by (induction xs) (simp_all add: pow2_def algebra_simps)

definition average :: "real list \<Rightarrow> real" where
  "average xs = sum_list xs / real (length xs)"

lemma average_deviation:
  assumes "xs \<noteq> []"
  shows "average (map (\<lambda>x. pow2 (x - average xs)) xs) = average (map pow2 xs) - pow2 (average xs)"
proof -
  let ?n = "real (length xs)"
  have n: "?n \<noteq> 0" using assms by simp
  have "sum_list xs = ?n * average xs" using n by (simp add: average_def)
  then have "2 * average xs * sum_list xs = 2 * (?n * pow2 (average xs))" by (simp add: pow2_def)
  then have "sum_list (map (\<lambda>x. pow2 (x - average xs)) xs) =
      sum_list (map pow2 xs) - ?n * pow2 (average xs)"
    by (simp only: sum_deviation)
  with n show ?thesis by (simp add: average_def diff_divide_distrib)
qed

lemma average_nonneg: "(\<And>x. x \<in> set xs \<Longrightarrow> 0 \<le> x) \<Longrightarrow> 0 \<le> average xs"
  by (simp add: average_def sum_list_nonneg)

lemma statistics_ok:
  assumes "window_ok w" "durations w \<noteq> []"
  defines "m \<equiv> average (durations w)"
  defines "v \<equiv> average (map (\<lambda>x. pow2 (x - m)) (durations w))"
  shows "mean w = Inr (Some m) \<and> variance w = Inr (Some v) \<and> 0 \<le> v \<and>
    normalDistribution w = Inr (Some (m, sqrt v))"
proof -
  have v: "v = average (map pow2 (durations w)) - pow2 m"
    using average_deviation [OF assms(2)] by (simp add: m_def v_def)
  have "0 \<le> v" unfolding v_def by (rule average_nonneg) (auto simp: pow2_def)
  with assms v show ?thesis
    by (simp add: window_ok_def mean_def variance_def normalDistribution_def per_def average_def)
qed

lemma statistics_empty:
  "window_ok w \<Longrightarrow> durations w = [] \<Longrightarrow> mean w = Inr None \<and> normalDistribution w = Inr None"
  by (simp add: window_ok_def mean_def normalDistribution_def per_def)

section \<open>Phi is a tail probability\<close>

text \<open>The logistic approximation of the normal distribution function that the code uses.\<close>

definition logistic :: "real \<Rightarrow> real" where
  "logistic y = 1 / (1 + exp (- y * (1.5976 + 0.070566 * y * y)))"

lemma logistic_bounds: "0 < logistic y" "logistic y < 1"
  by (simp_all add: logistic_def add_pos_pos)

lemma cubic_mono:
  assumes "x < y" "0 < a" "0 \<le> b"
  shows "x * (a + b * x * x) < y * (a + b * y * (y :: real))"
proof -
  have "0 \<le> x * x + x * y + y * y"
  proof -
    have "x * x + x * y + y * y = (x + y / 2) * (x + y / 2) + 3 / 4 * (y * y)"
      by (simp add: algebra_simps)
    then show ?thesis by simp
  qed
  with assms have "0 < (y - x) * (a + b * (x * x + x * y + y * y))"
    by (intro mult_pos_pos add_pos_nonneg mult_nonneg_nonneg) simp_all
  then show ?thesis by (simp add: algebra_simps)
qed

lemma logistic_mono: "x < y \<Longrightarrow> logistic x < logistic y"
proof -
  assume "x < y"
  then have "x * (1.5976 + 0.070566 * x * x) < y * (1.5976 + 0.070566 * y * y)"
    by (rule cubic_mono) simp_all
  then have "1 + exp (- y * (1.5976 + 0.070566 * y * y)) < 1 + exp (- x * (1.5976 + 0.070566 * x * x))"
    by simp
  then show ?thesis
    unfolding logistic_def by (intro divide_strict_left_mono mult_pos_pos add_pos_pos) simp_all
qed

definition suspicion :: "real \<Rightarrow> real" where
  "suspicion y = - log 10 (1 - logistic y)"

lemma suspicion_pos: "0 < suspicion y"
  using logistic_bounds [of y] by (simp add: suspicion_def)

lemma suspicion_mono: "x < y \<Longrightarrow> suspicion x < suspicion y"
  using logistic_mono [of x y] logistic_bounds [of x] logistic_bounds [of y] by (simp add: suspicion_def)

text \<open>Both branches of \<open>phi\<close> are the same function; they differ in floating point only.\<close>

lemma phi_suspicion:
  assumes "normalDistribution (fd_window fd) = Inr (Some (m, sd))"
  shows "phi t fd = Inr (Some (suspicion ((t - latest_heartbeat fd - m) / max 1 sd)))"
proof -
  define sigma where "sigma = (if sd < 1 then 1 else sd)"
  define y where "y = (t - latest_heartbeat fd - m) / sigma"
  define e where "e = exp (- y * (1.5976 + 0.070566 * y * y))"
  have "0 < e" by (simp add: e_def)
  then have e: "e / (1 + e) = 1 - 1 / (1 + e)" by (simp add: field_simps)
  have "phi t fd = Inr (Some (- log 10 (1 - 1 / (1 + e))))"
    unfolding phi_def assms Let_def sum.case option.case prod.case
      sigma_def [symmetric] y_def [symmetric] e_def [symmetric]
    by (simp add: e)
  moreover have "max 1 sd = sigma" by (simp add: sigma_def)
  ultimately show ?thesis
    by (simp only: suspicion_def logistic_def flip: y_def e_def)
qed

section \<open>The server\<close>

text \<open>For every printing of phi in a sequence of events, the number of heartbeats before it.\<close>

fun beats_before :: "nat \<Rightarrow> fd_event list \<Rightarrow> nat list" where
  "beats_before n [] = []"
| "beats_before n (Heartbeat t # es) = beats_before (Suc n) es"
| "beats_before n (PrintPhi t # es) = n # beats_before n es"

definition printed_ok :: "nat \<Rightarrow> real option \<Rightarrow> bool" where
  "printed_ok n p \<longleftrightarrow> (case p of None \<Rightarrow> n = 1 | Some x \<Rightarrow> 2 \<le> n \<and> 0 < x)"

text \<open>After \<open>n > 0\<close> heartbeats the window is in order, and empty only after the first.\<close>

definition server_ok :: "nat \<Rightarrow> fd_server \<Rightarrow> bool" where
  "server_ok n s \<longleftrightarrow> 0 < n \<and> received_first_heartbeat s \<and>
     window_ok (fd_window (detector s)) \<and> 0 < window_size (fd_window (detector s)) \<and>
     (durations (fd_window (detector s)) = [] \<longleftrightarrow> n = 1)"

lemma hb_first: "server_ok 1 s'" if "hb t (fd_server_new now) = Inr s'"
  using that
  by (auto simp: hb_def fd_server_new_def fd_reset_def failure_detector_new_def window_new_def
      window_reset_def server_ok_def window_ok_def)

lemma hb_next:
  assumes "server_ok n s"
  shows "\<exists>s'. hb t s = Inr s' \<and> server_ok (Suc n) s' \<and> printed s' = printed s"
proof -
  let ?w = "fd_window (detector s)"
  have ok: "window_ok ?w" using assms by (simp add: server_ok_def)
  then obtain w' where w': "window_add (t - latest_heartbeat (detector s)) ?w = Inr w'"
    "window_ok w'" "window_size w' = window_size ?w"
    "durations w' = last_n (window_size ?w) (durations ?w @ [t - latest_heartbeat (detector s)])"
    using window_add_ok by blast
  with assms have "durations w' \<noteq> []" by (auto simp: last_n_def server_ok_def)
  with w' assms show ?thesis by (auto simp: hb_def heartbeat_def server_ok_def)
qed

lemma print_next:
  assumes "server_ok n s"
  shows "\<exists>p. print_phi t s = Inr (s\<lparr>printed := printed s @ [p]\<rparr>) \<and> printed_ok n p"
proof (cases "n = 1")
  case True
  with assms have "normalDistribution (fd_window (detector s)) = Inr None"
    using statistics_empty by (simp add: server_ok_def)
  with True show ?thesis
    by (intro exI [of _ None]) (simp add: print_phi_def phi_def printed_ok_def)
next
  case False
  with assms have "window_ok (fd_window (detector s))" "durations (fd_window (detector s)) \<noteq> []"
    by (auto simp: server_ok_def)
  from statistics_ok [OF this] phi_suspicion [of "detector s"] False assms show ?thesis
    by (auto simp: print_phi_def printed_ok_def server_ok_def suspicion_pos)
qed

lemma fd_server_run_ok:
  "server_ok n s \<Longrightarrow> \<exists>s' ps. fd_server_run es s = Inr s' \<and> printed s' = printed s @ ps \<and>
     list_all2 printed_ok (beats_before n es) ps"
proof (induction es arbitrary: n s)
  case (Cons e es)
  show ?case
  proof (cases e)
    case (Heartbeat t)
    obtain s1 where "hb t s = Inr s1" "server_ok (Suc n) s1" "printed s1 = printed s"
      using hb_next [OF Cons.prems, of t] by blast
    with Cons.IH [of "Suc n" s1] Heartbeat show ?thesis by auto
  next
    case (PrintPhi t)
    obtain p where p: "print_phi t s = Inr (s\<lparr>printed := printed s @ [p]\<rparr>)" "printed_ok n p"
      using print_next [OF Cons.prems, of t] by blast
    have "server_ok n (s\<lparr>printed := printed s @ [p]\<rparr>)" using Cons.prems by (simp add: server_ok_def)
    from Cons.IH [OF this] p PrintPhi show ?thesis by fastforce
  qed
qed simp

section \<open>Properties\<close>





text \<open>
  The heartbeat server. If the printing thread gets the mutex before the first heartbeat, it
  reads members that no constructor has initialised. Otherwise every execution is defined: a
  printing after one heartbeat gives not-a-number, and every later one a positive number.
\<close>

theorem fd_server_prints:
  "case es of
     PrintPhi t # es' \<Rightarrow> fd_server_run es (fd_server_new now) = Inl Undefined
   | _ \<Rightarrow> \<exists>s. fd_server_run es (fd_server_new now) = Inr s \<and>
          list_all2 printed_ok (beats_before 0 es) (printed s)"
proof (cases es)
  case Nil
  then show ?thesis by (simp add: fd_server_new_def)
next
  case (Cons e es')
  show ?thesis
  proof (cases e)
    case (Heartbeat t)
    obtain s1 where s1: "hb t (fd_server_new now) = Inr s1" "printed s1 = []"
      by (auto simp: hb_def fd_server_new_def)
    from fd_server_run_ok [OF hb_first [OF s1(1)]] s1 Cons Heartbeat show ?thesis by auto
  next
    case (PrintPhi t)
    with Cons show ?thesis
      by (simp add: print_phi_def phi_def fd_server_new_def failure_detector_new_def window_new_def
          normalDistribution_def mean_def Let_def)
  qed
qed

end
