(* ===== verification/Timed_Workers.thy ===== *)
theory Timed_Workers
  imports Complex_Main Prelude
begin

text \<open>
  The timer library (\<open>elapsedtime.hpp\<close>) and the frame in which the benchmarks use it: the workers
  and the main thread meet at three barriers, the clock is started between the first and the
  second and stopped after the third, and every worker does its iterations between the second and
  the third. A barrier is used once here and is a counter of arrivals, as theory
  \<open>Psync_Barrier\<close> shows of its implementation. The body of an iteration is an argument.
\<close>

section \<open>The timer\<close>

text \<open>Time points are clock readings in nanoseconds and arguments of the operations.\<close>

record elapsed_time =
  t0 :: int
  t1 :: int
  freezed :: bool

definition et_reset :: "int \<Rightarrow> elapsed_time \<Rightarrow> elapsed_time" where
  "et_reset now e = e\<lparr>t0 := now, freezed := False\<rparr>"

text \<open>The constructor; a default time point is the epoch of the clock.\<close>

definition et_new :: "int \<Rightarrow> elapsed_time" where
  "et_new now = et_reset now \<lparr>t0 = 0, t1 = 0, freezed = False\<rparr>"

definition et_freeze :: "int \<Rightarrow> elapsed_time \<Rightarrow> elapsed_time" where
  "et_freeze now e = e\<lparr>t1 := now, freezed := True\<rparr>"

definition et_sec :: "int \<Rightarrow> elapsed_time \<Rightarrow> rat" where
  "et_sec now e = of_int ((if freezed e then t1 e else now) - t0 e) / 10 ^ 9"

definition et_msec :: "int \<Rightarrow> elapsed_time \<Rightarrow> rat" where
  "et_msec now e = et_sec now e * 1000"

text \<open>\<open>ElapsedTimeRaii\<close> around a piece of code that begins and ends at the given times.\<close>

definition et_raii :: "int \<Rightarrow> int \<Rightarrow> elapsed_time \<Rightarrow> elapsed_time" where
  "et_raii begin_ns end_ns e = et_freeze end_ns (et_reset begin_ns e)"

text \<open>A frozen timer shows the time between the two readings, whenever it is asked.\<close>

lemma et_sec_frozen: "et_sec now (et_freeze b (et_reset a e)) = of_int (b - a) / 10 ^ 9"
  by (simp add: et_sec_def et_freeze_def et_reset_def)

lemma et_sec_running: "et_sec now (et_reset a e) = of_int (now - a) / 10 ^ 9"
  by (simp add: et_sec_def et_reset_def)

section \<open>Workers between barriers\<close>

datatype tw_pc =
    AtReady | InReady | AtClock | AtTimer | InTimer | Working nat
  | InFinish | AtFreeze | AtJoin | Finished

datatype tw_event = ClockStart | Work nat nat | ClockStop

text \<open>
  Participants \<open>0\<close> to \<open>N - 1\<close> are the workers, participant \<open>N\<close> is the main thread. The trace
  records the clock readings and the iterations in the order in which they happen.
\<close>

record 'sh tw =
  shared :: 'sh
  ready :: nat
  timer :: nat
  finish :: nat
  pc :: "nat \<Rightarrow> tw_pc"
  trace :: "tw_event list"

definition goto :: "nat \<Rightarrow> tw_pc \<Rightarrow> 'sh tw \<Rightarrow> 'sh tw" where
  "goto i q s = s\<lparr>pc := (pc s)(i := q)\<rparr>"

definition tw_exec :: "nat \<Rightarrow> nat \<Rightarrow> (nat \<Rightarrow> nat \<Rightarrow> 'sh \<Rightarrow> 'sh) \<Rightarrow> nat \<Rightarrow> 'sh tw \<Rightarrow> 'sh tw option" where
  "tw_exec N c act i s =
     (case pc s i of
        AtReady \<Rightarrow> Some (goto i InReady (s\<lparr>ready := ready s + 1\<rparr>))
      | InReady \<Rightarrow>
          if ready s = N + 1 then Some (goto i (if i = N then AtClock else AtTimer) s) else None
      | AtClock \<Rightarrow> Some (goto i AtTimer (s\<lparr>trace := trace s @ [ClockStart]\<rparr>))
      | AtTimer \<Rightarrow> Some (goto i InTimer (s\<lparr>timer := timer s + 1\<rparr>))
      | InTimer \<Rightarrow> if timer s = N + 1 then Some (goto i (Working 0) s) else None
      | Working j \<Rightarrow>
          if i < N \<and> j < c
          then Some (goto i (Working (j + 1))
                 (s\<lparr>shared := act i j (shared s), trace := trace s @ [Work i j]\<rparr>))
          else Some (goto i InFinish (s\<lparr>finish := finish s + 1\<rparr>))
      | InFinish \<Rightarrow>
          if finish s = N + 1 then Some (goto i (if i = N then AtFreeze else Finished) s) else None
      | AtFreeze \<Rightarrow> Some (goto i AtJoin (s\<lparr>trace := trace s @ [ClockStop]\<rparr>))
      | AtJoin \<Rightarrow>
          if list_all (\<lambda>k. pc s k = Finished) [0..<N] then Some (goto i Finished s) else None
      | Finished \<Rightarrow> None)"

inductive tw_step :: "nat \<Rightarrow> nat \<Rightarrow> (nat \<Rightarrow> nat \<Rightarrow> 'sh \<Rightarrow> 'sh) \<Rightarrow> 'sh tw \<Rightarrow> 'sh tw \<Rightarrow> bool"
  for N c act where
  "i \<le> N \<Longrightarrow> tw_exec N c act i s = Some t \<Longrightarrow> tw_step N c act s t"

inductive_cases tw_stepE: "tw_step N c act s t"

definition tw_new :: "'sh \<Rightarrow> 'sh tw" where
  "tw_new sh = \<lparr>shared = sh, ready = 0, timer = 0, finish = 0, pc = (\<lambda>_. AtReady), trace = []\<rparr>"

definition tw_final :: "nat \<Rightarrow> 'sh tw \<Rightarrow> bool" where
  "tw_final N s \<longleftrightarrow> pc s N = Finished"

section \<open>Invariant\<close>

fun rank :: "tw_pc \<Rightarrow> nat" where
  "rank AtReady = 0" | "rank InReady = 1" | "rank AtClock = 2" | "rank AtTimer = 3"
| "rank InTimer = 4" | "rank (Working j) = 5" | "rank InFinish = 6" | "rank AtFreeze = 7"
| "rank AtJoin = 8" | "rank Finished = 9"

lemma rank_le: "rank q \<le> 9"
  by (cases q) simp_all

text \<open>How many of the \<open>N + 1\<close> participants have got as far as rank \<open>k\<close>.\<close>

definition reached :: "nat \<Rightarrow> nat \<Rightarrow> (nat \<Rightarrow> tw_pc) \<Rightarrow> nat" where
  "reached N k p = (\<Sum>i<N + 1. of_bool (k \<le> rank (p i)))"

lemma reached_upd:
  assumes "i \<le> N"
  shows "reached N k (p(i := q)) + of_bool (k \<le> rank (p i)) = reached N k p + of_bool (k \<le> rank q)"
  using sum_fun_upd [of i "N + 1" "\<lambda>x. of_bool (k \<le> rank x)" p q] assms by (simp add: reached_def)

lemma reached_all: "reached N k p = Suc N \<longleftrightarrow> (\<forall>i\<le>N. k \<le> rank (p i))"
proof
  assume all: "reached N k p = Suc N"
  show "\<forall>i\<le>N. k \<le> rank (p i)"
  proof (intro allI impI)
    fix i assume i: "i \<le> N"
    have "(\<Sum>j\<in>{..<N + 1} - {i}. of_bool (k \<le> rank (p j)) :: nat) \<le> (\<Sum>j\<in>{..<N + 1} - {i}. 1)"
      by (rule sum_mono) simp
    also have "\<dots> = N" using i by simp
    finally have le: "(\<Sum>j\<in>{..<N + 1} - {i}. of_bool (k \<le> rank (p j)) :: nat) \<le> N" .
    have "reached N k p = of_bool (k \<le> rank (p i)) + (\<Sum>j\<in>{..<N + 1} - {i}. of_bool (k \<le> rank (p j)))"
      unfolding reached_def using i by (intro sum.remove) simp_all
    with all le show "k \<le> rank (p i)" by (cases "k \<le> rank (p i)") simp_all
  qed
next
  assume "\<forall>i\<le>N. k \<le> rank (p i)"
  then have "reached N k p = (\<Sum>i<N + 1. 1)" unfolding reached_def by (intro sum.cong) auto
  then show "reached N k p = Suc N" by simp
qed

text \<open>The number of iterations a participant has done.\<close>

definition iterations :: "nat \<Rightarrow> tw_pc \<Rightarrow> nat" where
  "iterations c q = (case q of Working j \<Rightarrow> j | _ \<Rightarrow> if rank q \<le> 5 then 0 else c)"

definition only_main :: "tw_pc \<Rightarrow> bool" where
  "only_main q \<longleftrightarrow> q = AtClock \<or> q = AtFreeze \<or> q = AtJoin"

definition works :: "(nat \<times> nat) list \<Rightarrow> tw_event list" where
  "works ws = map (\<lambda>(i, j). Work i j) ws"

definition tw_sim :: "nat \<Rightarrow> nat \<Rightarrow> (nat \<Rightarrow> nat \<Rightarrow> 'sh \<Rightarrow> 'sh) \<Rightarrow> 'sh \<Rightarrow> (nat \<times> nat) list \<Rightarrow> 'sh tw \<Rightarrow> bool" where
  "tw_sim N c act sh0 ws s \<longleftrightarrow>
     ready s = reached N 1 (pc s) \<and> timer s = reached N 4 (pc s) \<and> finish s = reached N 6 (pc s) \<and>
     (\<forall>i\<le>N. (2 \<le> rank (pc s i) \<longrightarrow> ready s = N + 1) \<and> (5 \<le> rank (pc s i) \<longrightarrow> timer s = N + 1) \<and>
            (7 \<le> rank (pc s i) \<longrightarrow> finish s = N + 1)) \<and>
     (\<forall>i<N. \<not> only_main (pc s i) \<and> iterations c (pc s i) \<le> c) \<and>
     (pc s N = Finished \<longrightarrow> (\<forall>i<N. pc s i = Finished)) \<and>
     trace s = (if 3 \<le> rank (pc s N) then [ClockStart] else []) @ works ws @
               (if 8 \<le> rank (pc s N) then [ClockStop] else []) \<and>
     fst ` set ws \<subseteq> {..<N} \<and>
     (\<forall>i<N. map snd (filter (\<lambda>w. fst w = i) ws) = [0..<iterations c (pc s i)]) \<and>
     shared s = fold (\<lambda>(i, j). act i j) ws sh0"

definition tw_inv :: "nat \<Rightarrow> nat \<Rightarrow> (nat \<Rightarrow> nat \<Rightarrow> 'sh \<Rightarrow> 'sh) \<Rightarrow> 'sh \<Rightarrow> 'sh tw \<Rightarrow> bool" where
  "tw_inv N c act sh0 s \<longleftrightarrow> (\<exists>ws. tw_sim N c act sh0 ws s)"

lemma tw_new_inv: "tw_inv N c act sh (tw_new sh)"
  unfolding tw_inv_def
  by (rule exI [of _ "[]"])
     (simp add: tw_sim_def tw_new_def reached_def only_main_def iterations_def works_def)

lemma reached_le: "reached N k p \<le> N + 1"
  using sum_mono [of "{..<N + 1}" "\<lambda>i. of_bool (k \<le> rank (p i)) :: nat" "\<lambda>_. 1"]
  by (simp add: reached_def)

text \<open>One participant moves on; what the move has to satisfy.\<close>

lemma sim_move:
  assumes sim: "tw_sim N c act sh0 ws s" and i: "i \<le> N" and p: "pc t = (pc s)(i := q)"
    and up: "rank (pc s i) \<le> rank q" "pc s i \<noteq> Finished"
    and counts: "ready t + of_bool (1 \<le> rank (pc s i)) = ready s + of_bool (1 \<le> rank q)"
      "timer t + of_bool (4 \<le> rank (pc s i)) = timer s + of_bool (4 \<le> rank q)"
      "finish t + of_bool (6 \<le> rank (pc s i)) = finish s + of_bool (6 \<le> rank q)"
    and gates: "2 \<le> rank q \<Longrightarrow> ready t = N + 1" "5 \<le> rank q \<Longrightarrow> timer t = N + 1"
      "7 \<le> rank q \<Longrightarrow> finish t = N + 1"
    and worker: "i < N \<Longrightarrow> \<not> only_main q \<and> iterations c q \<le> c"
    and join: "i = N \<Longrightarrow> q = Finished \<Longrightarrow> \<forall>k<N. pc s k = Finished"
    and tr: "trace t = (if 3 \<le> rank (pc t N) then [ClockStart] else []) @ works ws' @
               (if 8 \<le> rank (pc t N) then [ClockStop] else [])"
    and ws: "fst ` set ws' \<subseteq> {..<N}" "shared t = fold (\<lambda>(i, j). act i j) ws' sh0"
      "\<forall>k<N. map snd (filter (\<lambda>w. fst w = k) ws') = [0..<iterations c (pc t k)]"
  shows "tw_sim N c act sh0 ws' t"
proof -
  have s: "ready s = reached N 1 (pc s)" "timer s = reached N 4 (pc s)" "finish s = reached N 6 (pc s)"
    using sim by (simp_all add: tw_sim_def)
  have r: "ready t = reached N 1 (pc t)" "timer t = reached N 4 (pc t)" "finish t = reached N 6 (pc t)"
    using counts s reached_upd [OF i, of 1 "pc s" q] reached_upd [OF i, of 4 "pc s" q]
      reached_upd [OF i, of 6 "pc s" q] by (simp_all add: p)
  have mono: "reached N k (pc s) = Suc N \<Longrightarrow> reached N k (pc t) = Suc N" for k
    using up by (auto simp: reached_all p)
  have g: "(2 \<le> rank (pc t k) \<longrightarrow> ready t = N + 1) \<and> (5 \<le> rank (pc t k) \<longrightarrow> timer t = N + 1) \<and>
      (7 \<le> rank (pc t k) \<longrightarrow> finish t = N + 1)" if "k \<le> N" for k
  proof (cases "k = i")
    case False
    with that sim s r mono show ?thesis by (simp add: tw_sim_def p)
  qed (use gates p in simp)
  have "pc s N \<noteq> Finished" using sim up(2) i by (auto simp: tw_sim_def le_less)
  then have j: "pc t N = Finished \<Longrightarrow> \<forall>k<N. pc t k = Finished" using join p by (auto split: if_splits)
  have w: "\<forall>k<N. \<not> only_main (pc t k) \<and> iterations c (pc t k) \<le> c"
    using sim worker by (simp add: tw_sim_def p)
  show ?thesis unfolding tw_sim_def using r g j w tr ws by blast
qed

lemma fold_snoc_pair: "fold (\<lambda>(i, j). act i j) (ws @ [(i, j)]) sh = act i j (fold (\<lambda>(i, j). act i j) ws sh)"
  by simp

lemma sim_gates:
  assumes "tw_sim N c act sh0 ws s" "i \<le> N"
  shows "2 \<le> rank (pc s i) \<Longrightarrow> ready s = Suc N" "5 \<le> rank (pc s i) \<Longrightarrow> timer s = Suc N"
    "7 \<le> rank (pc s i) \<Longrightarrow> finish s = Suc N"
proof -
  have "\<forall>i\<le>N. (2 \<le> rank (pc s i) \<longrightarrow> ready s = N + 1) \<and> (5 \<le> rank (pc s i) \<longrightarrow> timer s = N + 1) \<and>
            (7 \<le> rank (pc s i) \<longrightarrow> finish s = N + 1)"
    using assms(1) unfolding tw_sim_def by (elim conjE)
  with assms(2) show "2 \<le> rank (pc s i) \<Longrightarrow> ready s = Suc N" "5 \<le> rank (pc s i) \<Longrightarrow> timer s = Suc N"
    "7 \<le> rank (pc s i) \<Longrightarrow> finish s = Suc N" by simp_all
qed

lemma sim_counts:
  assumes "tw_sim N c act sh0 ws s"
  shows "timer s = Suc N \<longleftrightarrow> (\<forall>k\<le>N. 4 \<le> rank (pc s k))"
    "finish s = Suc N \<longleftrightarrow> (\<forall>k\<le>N. 6 \<le> rank (pc s k))"
    "ready s = Suc N \<longleftrightarrow> (\<forall>k\<le>N. 1 \<le> rank (pc s k))"
  using assms by (simp_all only: tw_sim_def reached_all [symmetric])

lemma sim_rest:
  assumes "tw_sim N c act sh0 ws s"
  shows "trace s = (if 3 \<le> rank (pc s N) then [ClockStart] else []) @ works ws @
               (if 8 \<le> rank (pc s N) then [ClockStop] else [])"
    "fst ` set ws \<subseteq> {..<N}" "shared s = fold (\<lambda>(i, j). act i j) ws sh0"
    "k < N \<Longrightarrow> map snd (filter (\<lambda>w. fst w = k) ws) = [0..<iterations c (pc s k)]"
    "k < N \<Longrightarrow> \<not> only_main (pc s k)" "k < N \<Longrightarrow> iterations c (pc s k) \<le> c"
  using assms unfolding tw_sim_def by simp_all

text \<open>While a worker is working, the clock has been started and not yet stopped.\<close>

lemma clock_running:
  assumes sim: "tw_sim N c act sh0 ws s" and i: "i < N" and w: "pc s i = Working j"
  shows "3 \<le> rank (pc s N)" "rank (pc s N) < 8"
proof -
  have "timer s = Suc N" using sim_gates(2) [OF sim, of i] i w by simp
  then show "3 \<le> rank (pc s N)" using sim_counts(1) [OF sim] by force
  show "rank (pc s N) < 8"
  proof (rule ccontr)
    assume "\<not> rank (pc s N) < 8"
    then have "finish s = Suc N" using sim_gates(3) [OF sim, of N] by simp
    then have "6 \<le> rank (pc s i)" using i sim_counts(2) [OF sim] by simp
    with w show False by simp
  qed
qed

lemma sim_work:
  assumes sim: "tw_sim N c act sh0 ws s" and i: "i < N" and w: "pc s i = Working j" "j < c"
    and t: "t = goto i (Working (j + 1)) (s\<lparr>shared := act i j (shared s), trace := trace s @ [Work i j]\<rparr>)"
  shows "tw_sim N c act sh0 (ws @ [(i, j)]) t"
proof (rule sim_move [OF sim, where i = i and q = "Working (j + 1)"])
  note run = clock_running [OF sim i w(1)]
  show "trace t = (if 3 \<le> rank (pc t N) then [ClockStart] else []) @ works (ws @ [(i, j)]) @
      (if 8 \<le> rank (pc t N) then [ClockStop] else [])"
    using run i by (simp add: t goto_def works_def sim_rest(1) [OF sim])
  show "\<forall>k<N. map snd (filter (\<lambda>w. fst w = k) (ws @ [(i, j)])) = [0..<iterations c (pc t k)]"
    using sim_rest(4) [OF sim] w i by (auto simp: t goto_def iterations_def)
qed (use sim_rest(2,3) [OF sim] sim_gates [OF sim, of i] i w in
     \<open>simp_all add: t goto_def only_main_def iterations_def\<close>)

text \<open>A move to \<open>q\<close> that leaves the iterations done as they are.\<close>

lemma sim_pass:
  assumes sim: "tw_sim N c act sh0 ws s" and i: "i \<le> N" and up: "rank (pc s i) < rank q"
    and p: "pc t = (pc s)(i := q)" and sh: "shared t = shared s"
    and counts: "ready t + of_bool (1 \<le> rank (pc s i)) = ready s + of_bool (1 \<le> rank q)"
      "timer t + of_bool (4 \<le> rank (pc s i)) = timer s + of_bool (4 \<le> rank q)"
      "finish t + of_bool (6 \<le> rank (pc s i)) = finish s + of_bool (6 \<le> rank q)"
    and gates: "2 \<le> rank q \<Longrightarrow> ready t = Suc N" "5 \<le> rank q \<Longrightarrow> timer t = Suc N"
      "7 \<le> rank q \<Longrightarrow> finish t = Suc N"
    and worker: "i < N \<Longrightarrow> \<not> only_main q \<and> iterations c q = iterations c (pc s i)"
    and join: "i = N \<Longrightarrow> q = Finished \<Longrightarrow> \<forall>k<N. pc s k = Finished"
    and tr: "trace t = trace s @ (if i = N \<and> rank (pc s i) < 3 \<and> 3 \<le> rank q then [ClockStart] else []) @
               (if i = N \<and> rank (pc s i) < 8 \<and> 8 \<le> rank q then [ClockStop] else [])"
    and start: "i = N \<Longrightarrow> rank (pc s i) < 3 \<Longrightarrow> rank q < 8 \<and> ws = []"
  shows "tw_sim N c act sh0 ws t"
proof (rule sim_move [OF sim i p])
  show "pc s i \<noteq> Finished" using up rank_le [of q] by auto
  show "\<forall>k<N. map snd (filter (\<lambda>w. fst w = k) ws) = [0..<iterations c (pc t k)]"
    using sim_rest(4) [OF sim] worker by (simp add: p)
  show "trace t = (if 3 \<le> rank (pc t N) then [ClockStart] else []) @ works ws @
      (if 8 \<le> rank (pc t N) then [ClockStop] else [])"
    using sim_rest(1) [OF sim] up tr start by (cases "i = N") (auto simp: p works_def)
qed (use up sim_rest [OF sim] counts gates worker join in \<open>auto simp: sh\<close>)

text \<open>Before the clock is started no iteration has been done.\<close>

lemma no_work_yet:
  assumes sim: "tw_sim N c act sh0 ws s" and r: "rank (pc s N) < 3"
  shows "ws = []"
proof (rule ccontr)
  assume "ws \<noteq> []"
  then obtain k j ws' where ws: "ws = (k, j) # ws'" by (metis neq_Nil_conv surj_pair)
  then have k: "k < N" using sim_rest(2) [OF sim] by simp
  then have "iterations c (pc s k) \<noteq> 0" using sim_rest(4) [OF sim k] ws
    by (cases "iterations c (pc s k)") auto
  then have "5 \<le> rank (pc s k)" by (cases "pc s k") (simp_all add: iterations_def)
  then have "timer s = Suc N" using sim_gates(2) [OF sim, of k] k by simp
  then have "4 \<le> rank (pc s N)" using sim_counts(1) [OF sim] by simp
  with r show False by simp
qed

text \<open>A move that is no iteration leaves the list of iterations as it is.\<close>

lemma sim_exec_pass:
  assumes sim: "tw_sim N c act sh0 ws s" and i: "i \<le> N" and e: "tw_exec N c act i s = Some t"
    and no: "\<not> (\<exists>j. pc s i = Working j \<and> i < N \<and> j < c)"
  shows "tw_sim N c act sh0 ws t"
proof -
  note pass = sim_pass [OF sim i] and g = sim_gates [OF sim i] and om = sim_rest(5) [OF sim, of i]
  note defs = tw_exec_def goto_def only_main_def iterations_def list_all_iff
  note facts = e i g om no_work_yet [OF sim]
  show ?thesis
  proof (cases "pc s i")
    case AtReady
    with facts show ?thesis by (intro pass [where q = InReady]) (auto simp: defs)
  next
    case InReady
    with facts show ?thesis
      by (intro pass [where q = "if i = N then AtClock else AtTimer"]) (auto simp: defs split: if_splits)
  next
    case AtClock
    with facts show ?thesis by (intro pass [where q = AtTimer]) (auto simp: defs)
  next
    case AtTimer
    with facts show ?thesis by (intro pass [where q = InTimer]) (auto simp: defs)
  next
    case InTimer
    with facts show ?thesis by (intro pass [where q = "Working 0"]) (auto simp: defs split: if_splits)
  next
    case (Working j)
    with no sim_rest(6) [OF sim, of i] have "i < N \<Longrightarrow> j = c" by (simp add: iterations_def)
    with Working no facts show ?thesis by (intro pass [where q = InFinish]) (auto simp: defs split: if_splits)
  next
    case InFinish
    with facts show ?thesis
      by (intro pass [where q = "if i = N then AtFreeze else Finished"]) (auto simp: defs split: if_splits)
  next
    case AtFreeze
    with facts show ?thesis by (intro pass [where q = AtJoin]) (auto simp: defs)
  next
    case AtJoin
    with facts show ?thesis by (intro pass [where q = Finished]) (auto simp: defs split: if_splits)
  qed (use e in \<open>simp add: tw_exec_def\<close>)
qed

lemma sim_exec:
  assumes sim: "tw_sim N c act sh0 ws s" and i: "i \<le> N" and e: "tw_exec N c act i s = Some t"
  shows "\<exists>ws'. tw_sim N c act sh0 ws' t"
proof (cases "\<exists>j. pc s i = Working j \<and> i < N \<and> j < c")
  case True
  then obtain j where j: "pc s i = Working j" "i < N" "j < c" by blast
  with e have "t = goto i (Working (j + 1)) (s\<lparr>shared := act i j (shared s), trace := trace s @ [Work i j]\<rparr>)"
    by (simp add: tw_exec_def)
  with sim_work [OF sim j(2,1,3)] show ?thesis by blast
next
  case False
  then show ?thesis using sim_exec_pass [OF sim i e] by blast
qed

section \<open>Progress\<close>

definition pc_work :: "nat \<Rightarrow> tw_pc \<Rightarrow> nat" where
  "pc_work c q = (9 - rank q) + (if rank q < 5 then c else case q of Working j \<Rightarrow> c - j | _ \<Rightarrow> 0)"

definition tw_work :: "nat \<Rightarrow> nat \<Rightarrow> 'sh tw \<Rightarrow> nat" where
  "tw_work N c s = (\<Sum>i<N + 1. pc_work c (pc s i))"

lemma tw_decreases: "tw_step N c act s t \<Longrightarrow> tw_work N c t < tw_work N c s"
proof (erule tw_stepE)
  fix i assume i: "i \<le> N" and e: "tw_exec N c act i s = Some t"
  obtain q where q: "pc t = (pc s)(i := q)" "pc_work c q < pc_work c (pc s i)"
    using e by (auto simp: tw_exec_def goto_def pc_work_def split: tw_pc.splits if_splits)
  with sum_fun_upd [of i "N + 1" "pc_work c" "pc s" q] i show "tw_work N c t < tw_work N c s"
    by (simp add: tw_work_def)
qed

lemma tw_blocked:
  "tw_exec N c act i s = None \<Longrightarrow>
     pc s i = InReady \<and> ready s \<noteq> Suc N \<or> pc s i = InTimer \<and> timer s \<noteq> Suc N \<or>
     pc s i = InFinish \<and> finish s \<noteq> Suc N \<or>
     pc s i = AtJoin \<and> \<not> (\<forall>k<N. pc s k = Finished) \<or> pc s i = Finished"
  by (auto simp: tw_exec_def list_all_iff split: tw_pc.splits if_splits)

lemma tw_enabled:
  assumes sim: "tw_sim N c act sh0 ws s" and nf: "\<not> tw_final N s"
  shows "\<exists>i\<le>N. tw_exec N c act i s \<noteq> None"
proof (rule ccontr)
  assume "\<not> ?thesis"
  then have b: "pc s i = InReady \<and> ready s \<noteq> Suc N \<or> pc s i = InTimer \<and> timer s \<noteq> Suc N \<or>
     pc s i = InFinish \<and> finish s \<noteq> Suc N \<or>
     pc s i = AtJoin \<and> \<not> (\<forall>k<N. pc s k = Finished) \<or> pc s i = Finished" if "i \<le> N" for i
    using tw_blocked [of N c act i s] that by blast
  have "1 \<le> rank (pc s i)" if "i \<le> N" for i using b [OF that] by auto
  then have "ready s = Suc N" using sim_counts(3) [OF sim] by simp
  with b have "4 \<le> rank (pc s i)" if "i \<le> N" for i using that by fastforce
  then have "timer s = Suc N" using sim_counts(1) [OF sim] by simp
  with b \<open>ready s = Suc N\<close> have "6 \<le> rank (pc s i)" if "i \<le> N" for i using that by fastforce
  then have "finish s = Suc N" using sim_counts(2) [OF sim] by simp
  with b \<open>ready s = Suc N\<close> \<open>timer s = Suc N\<close>
  have j: "pc s i = AtJoin \<and> \<not> (\<forall>k<N. pc s k = Finished) \<or> pc s i = Finished" if "i \<le> N" for i
    using that by blast
  then have "pc s k = Finished" if "k < N" for k
    using sim_rest(5) [OF sim that] that j [of k] by (simp add: only_main_def)
  with j [of N] nf show False by (auto simp: tw_final_def)
qed

interpretation tw: terminating_system "\<lambda>s. s = tw_new sh0" "tw_step N c act" "tw_inv N c act sh0"
  "tw_final N" "tw_work N c" for sh0 N c act
proof unfold_locales
  show "tw_inv N c act sh0 s" if "s = tw_new sh0" for s using that by (simp add: tw_new_inv)
  show "tw_inv N c act sh0 t" if "tw_inv N c act sh0 s" "tw_step N c act s t" for s t
    using that sim_exec unfolding tw_inv_def by (metis tw_stepE)
  show "\<exists>t. tw_step N c act s t" if "tw_inv N c act sh0 s" "\<not> tw_final N s" for s
    using that tw_enabled unfolding tw_inv_def by (metis not_None_eq tw_step.intros)
  show "tw_work N c t < tw_work N c s" if "tw_step N c act s t" for s t
    using that by (rule tw_decreases)
qed

text \<open>
  What the frame gives when the main thread has joined the workers: every worker has done its
  \<open>c\<close> iterations in order, all between the two clock readings, and the shared state is the result
  of these iterations in the order of the trace.
\<close>

lemma tw_result:
  assumes "(tw_step N c act)\<^sup>*\<^sup>* (tw_new sh0) s" and "tw_final N s"
  obtains ws where "trace s = [ClockStart] @ works ws @ [ClockStop]" "fst ` set ws \<subseteq> {..<N}"
    "\<And>i. i < N \<Longrightarrow> map snd (filter (\<lambda>w. fst w = i) ws) = [0..<c]"
    "shared s = fold (\<lambda>(i, j). act i j) ws sh0"
proof -
  obtain ws where sim: "tw_sim N c act sh0 ws s"
    using tw.reachable_inv [OF _ assms(1)] unfolding tw_inv_def by blast
  have "pc s i = Finished" if "i < N" for i
    using sim assms(2) that unfolding tw_sim_def tw_final_def by blast
  with sim_rest [OF sim] assms(2) that show thesis by (simp add: tw_final_def iterations_def)
qed

text \<open>The number of iterations in all.\<close>

lemma works_length:
  assumes "fst ` set ws \<subseteq> {..<N}" "\<And>i. i < N \<Longrightarrow> map snd (filter (\<lambda>w. fst w = i) ws) = [0..<c]"
  shows "length ws = N * c"
proof -
  have "length (filter (\<lambda>w. fst w = i) ws) = c" if "i < N" for i
    using arg_cong [OF assms(2) [OF that], of length] by simp
  then have "(\<Sum>i<N. length (filter (\<lambda>w. fst w = i) ws)) = N * c" by simp
  moreover have "(\<Sum>i<N. length (filter (\<lambda>w. fst w = i) ws)) = length ws"
    using assms(1)
  proof (induction ws)
    case (Cons w ws)
    then have "(\<Sum>i<N. length (filter (\<lambda>x. fst x = i) (w # ws))) =
        (\<Sum>i<N. of_bool (fst w = i) + length (filter (\<lambda>x. fst x = i) ws))"
      by (intro sum.cong) auto
    also have "\<dots> = 1 + length ws" using Cons by (simp add: sum.distrib)
    finally show ?case by simp
  qed simp
  ultimately show ?thesis by simp
qed

end
