(* ===== verification/Atomic_Bench.thy ===== *)
theory Atomic_Bench
  imports Timed_Workers Striping
begin

text \<open>
  Model of \<open>atomic_bench\<close>: the threads increment one \<open>std::atomic<uint64_t>\<close> in the frame of theory
  \<open>Timed_Workers\<close>. The program checks the final count and reports the rate.
\<close>

section \<open>Arguments\<close>

definition atomic_defaults :: "(string \<times> string) list" where
  "atomic_defaults = [(''nthreads'', ''1''), (''count'', ''1K'')]"

record atomic_args =
  at_nthreads :: u64
  at_total :: u64

definition atomic_parse :: "parsed \<Rightarrow> ended + atomic_args" where
  "atomic_parse r =
     (if opt_count r ''help'' \<noteq> 0 then Inl (Exited 0)
      else case prettyTo 1024 (opt_text r ''nthreads'') of
        Inl e \<Rightarrow> Inl (Exited (-1))
      | Inr n \<Rightarrow> (case prettyTo 1024 (opt_text r ''count'') of
          Inl e \<Rightarrow> Inl (Exited (-1))
        | Inr t \<Rightarrow>
            if n = 0 then Inl (Uncaught Undefined)
            else if t mod n \<noteq> 0 then Inl (Exited 1)
            else Inr \<lparr>at_nthreads = n, at_total = t\<rparr>))"

definition count_per_thread :: "atomic_args \<Rightarrow> u64" where
  "count_per_thread a = at_total a div at_nthreads a"

section \<open>Run and report\<close>

text \<open>\<open>counter++\<close> is one atomic step, whichever thread does it.\<close>

definition atomic_inc :: "nat \<Rightarrow> nat \<Rightarrow> u64 \<Rightarrow> u64" where
  "atomic_inc i j counter = counter + 1"

definition atomic_step :: "atomic_args \<Rightarrow> u64 tw \<Rightarrow> u64 tw \<Rightarrow> bool" where
  "atomic_step a = tw_step (unat (at_nthreads a)) (unat (count_per_thread a)) atomic_inc"

record atomic_report =
  rp_nthreads :: u64
  rp_total :: u64
  success :: bool
  rp_time :: rat
  throughput :: "rat option"
  iops :: "rat option"

text \<open>The report before the run, and the one printed. A rate over no time is infinite (\<open>None\<close>).\<close>

definition atomic_report_new :: "atomic_args \<Rightarrow> atomic_report" where
  "atomic_report_new a =
     \<lparr>rp_nthreads = at_nthreads a, rp_total = at_total a, success = False, rp_time = 0,
      throughput = Some 0, iops = Some 0\<rparr>"

definition rate :: "nat \<Rightarrow> rat \<Rightarrow> rat option" where
  "rate n sec = (if sec = 0 then None else Some (of_nat n / sec))"

text \<open>
  After joining: a wrong count is a \<open>logic_error\<close>, which the handler of \<open>main\<close> turns into the exit
  status -1. The timer is frozen, so that the time of the call does not matter.
\<close>

definition atomic_finish :: "atomic_args \<Rightarrow> elapsed_time \<Rightarrow> u64 \<Rightarrow> ended + atomic_report" where
  "atomic_finish a et counter =
     (if counter \<noteq> at_total a then Inl (Exited (-1))
      else let sec = et_sec 0 et in
        Inr ((atomic_report_new a)\<lparr>success := True, rp_time := sec,
               throughput := rate (unat (at_total a * 8)) sec,
               iops := rate (unat (at_total a)) sec\<rparr>))"

section \<open>Properties\<close>

lemma fold_atomic_inc: "fold (\<lambda>(i, j). atomic_inc i j) ws c = c + of_nat (length ws)"
  by (induction ws arbitrary: c) (auto simp: atomic_inc_def)

lemma atomic_parse_total:
  assumes "atomic_parse r = Inr a"
  shows "unat (at_nthreads a) * unat (count_per_thread a) = unat (at_total a)"
proof -
  have "at_total a mod at_nthreads a = 0"
    using assms unfolding atomic_parse_def
    by (simp split: if_splits sum.splits; metis atomic_args.select_convs)
  then have "unat (at_total a) mod unat (at_nthreads a) = 0" by (metis unat_0 unat_mod)
  then show ?thesis by (auto simp: count_per_thread_def unat_div)
qed

text \<open>
  C16. The atomic counter benchmark counts right and measures right. For every accepted command
  line, however the threads interleave, a run in which the main thread has joined its workers has
  counted to the requested total, so that the check never throws and the report says success; and
  every one of the increments, the requested number for every worker, happened between the two
  clock readings whose difference is reported.
\<close>

theorem atomic_bench_counts:
  assumes "atomic_parse r = Inr a" and "(atomic_step a)\<^sup>*\<^sup>* (tw_new 0) s"
    and "tw_final (unat (at_nthreads a)) s"
  shows "shared s = at_total a \<and>
    (\<exists>ws. trace s = [ClockStart] @ works ws @ [ClockStop] \<and> length ws = unat (at_total a) \<and>
      (\<forall>i < unat (at_nthreads a). map snd (filter (\<lambda>w. fst w = i) ws) = [0..<unat (count_per_thread a)])) \<and>
    (\<exists>rep. atomic_finish a et (shared s) = Inr rep \<and> success rep \<and> rp_time rep = et_sec 0 et)"
proof -
  obtain ws where ws: "trace s = [ClockStart] @ works ws @ [ClockStop]"
    "fst ` set ws \<subseteq> {..<unat (at_nthreads a)}"
    "\<And>i. i < unat (at_nthreads a) \<Longrightarrow> map snd (filter (\<lambda>w. fst w = i) ws) = [0..<unat (count_per_thread a)]"
    "shared s = fold (\<lambda>(i, j). atomic_inc i j) ws 0"
    using tw_result [OF assms(2) [unfolded atomic_step_def] assms(3)] by metis
  have len: "length ws = unat (at_total a)"
    using works_length [OF ws(2,3)] atomic_parse_total [OF assms(1)] by simp
  then have "shared s = at_total a" by (simp add: ws(4) fold_atomic_inc)
  with ws len show ?thesis by (auto simp: atomic_finish_def Let_def)
qed

theorem atomic_bench_counts_witness:
  "\<exists>a s ws. atomic_parse (command_line atomic_defaults [(''nthreads'', ''2''), (''count'', ''4'')] []) = Inr a \<and>
     (atomic_step a)\<^sup>*\<^sup>* (tw_new 0) s \<and> tw_final 2 s \<and> shared s = 4 \<and>
     trace s = [ClockStart] @ works ws @ [ClockStop] \<and> length ws = 4"
proof -
  let ?r = "command_line atomic_defaults [(''nthreads'', ''2''), (''count'', ''4'')] []"
  have a: "atomic_parse ?r = Inr \<lparr>at_nthreads = 2, at_total = 4\<rparr>"
    by (simp add: atomic_parse_def command_line_def pretty_eval)
  let ?a = "\<lparr>at_nthreads = 2, at_total = 4\<rparr>"
  obtain s where s: "(atomic_step ?a)\<^sup>*\<^sup>* (tw_new 0) s" "tw_final 2 s"
    using tw.reachable_can_finish [of "tw_new 0" 0 2 "unat (count_per_thread ?a)" atomic_inc "tw_new 0"]
    by (auto simp: atomic_step_def)
  then have "tw_final (unat (at_nthreads ?a)) s" by simp
  from atomic_bench_counts [OF a s(1) this, of "et_new 0"] obtain ws where
    "shared s = 4" "trace s = [ClockStart] @ works ws @ [ClockStop]" "length ws = 4" by auto
  with a s show ?thesis by blast
qed

end
