(* ===== verification/Small_Libraries.thy ===== *)
theory Small_Libraries
  imports Complex_Main Prelude
begin

text \<open>
  The small libraries: random alphanumeric strings (\<open>gen_random_string.hpp\<close>), the point type and
  the protocol of an address (\<open>hello_thallium\<close>), and the greetings (\<open>hellolib\<close>,
  \<open>hello_header_only\<close>). Random engines and distributions are parameters.
\<close>

section \<open>Random strings\<close>

text \<open>\<open>std::generate_n\<close> with a generator that has a state.\<close>

fun generate_n :: "('g \<Rightarrow> 'a \<times> 'g) \<Rightarrow> nat \<Rightarrow> 'g \<Rightarrow> 'a list \<times> 'g" where
  "generate_n f 0 g = ([], g)"
| "generate_n f (Suc n) g =
     (case f g of (x, g') \<Rightarrow> case generate_n f n g' of (xs, g'') \<Rightarrow> (x # xs, g''))"

text \<open>
  An engine of \<open>state_size\<close> words of \<open>word_bytes\<close> bytes is seeded with as many 4-byte numbers of the
  random device \<open>dev\<close>; \<open>make\<close> is the engine's constructor from a seed sequence.
\<close>

definition randomGenerator :: "nat \<Rightarrow> nat \<Rightarrow> ('d \<Rightarrow> 32 word \<times> 'd) \<Rightarrow> (32 word list \<Rightarrow> 'g) \<Rightarrow> 'd \<Rightarrow> 'g \<times> 'd" where
  "randomGenerator word_bytes state_size dev make d =
     (let kSeedBytes = word_bytes * state_size; kSeedLen = kSeedBytes div 4 in
      case generate_n dev kSeedLen d of (seed, d') \<Rightarrow> (make seed, d'))"

definition kChars :: string where
  "kChars = ''0123456789ABCDEFGHIJKLMNOPQRSTUVWXYZabcdefghijklmnopqrstuvwxyz''"

text \<open>\<open>draw m\<close> draws a number between 0 and \<open>m\<close>.\<close>

definition generateRandomAlphanumericString ::
  "(nat \<Rightarrow> 'g \<Rightarrow> nat \<times> 'g) \<Rightarrow> nat \<Rightarrow> 'g \<Rightarrow> string \<times> 'g" where
  "generateRandomAlphanumericString draw len rng =
     generate_n (\<lambda>g. case draw (length kChars - 1) g of (k, g') \<Rightarrow> (kChars ! k, g')) len rng"

lemma generate_n_length: "length (fst (generate_n f n g)) = n"
  by (induction n arbitrary: g) (simp_all add: case_prod_beta)

lemma generate_n_all:
  "(\<And>g. P (fst (f g))) \<Longrightarrow> x \<in> set (fst (generate_n f n g)) \<Longrightarrow> P x"
  by (induction n arbitrary: g) (auto simp: case_prod_beta)

text \<open>The documented range of \<open>std::uniform_int_distribution\<close>.\<close>

definition in_range :: "(nat \<Rightarrow> 'g \<Rightarrow> nat \<times> 'g) \<Rightarrow> bool" where
  "in_range draw \<longleftrightarrow> (\<forall>m g. fst (draw m g) \<le> m)"

definition is_alnum :: "char \<Rightarrow> bool" where
  "is_alnum c \<longleftrightarrow>
     (let n = of_char c :: nat in 48 \<le> n \<and> n \<le> 57 \<or> 65 \<le> n \<and> n \<le> 90 \<or> 97 \<le> n \<and> n \<le> 122)"

lemma kChars_alnum: "list_all is_alnum kChars"
  by (simp add: kChars_def is_alnum_def)

text \<open>The seed is as long as the state of the engine, whatever the width of its words.\<close>

lemma randomGenerator_seed:
  "randomGenerator w n dev length d = (w * n div 4, snd (generate_n dev (w * n div 4) d))"
  by (simp add: randomGenerator_def generate_n_length case_prod_beta Let_def)

section \<open>Points and addresses\<close>

record point =
  px :: real
  py :: real
  pz :: real

text \<open>
  \<open>serialize\<close> visits the members in this order, whether the archive \<open>A\<close> writes or reads: the
  archive's operator is a parameter that may replace the member.
\<close>

definition serialize :: "('ar \<Rightarrow> real \<Rightarrow> 'ar \<times> real) \<Rightarrow> 'ar \<Rightarrow> point \<Rightarrow> 'ar \<times> point" where
  "serialize amp ar p =
     (let (ar, x') = amp ar (px p); (ar, y') = amp ar (py p); (ar, z') = amp ar (pz p)
      in (ar, p\<lparr>px := x', py := y', pz := z'\<rparr>))"

text \<open>An archive that writes numbers to a list, and one that reads them back.\<close>

definition out_archive :: "real list \<Rightarrow> real \<Rightarrow> real list \<times> real" where
  "out_archive ar v = (ar @ [v], v)"

fun in_archive :: "real list \<Rightarrow> real \<Rightarrow> real list \<times> real" where
  "in_archive [] v = ([], v)"
| "in_archive (a # ar) v = (ar, a)"

lemma serialize_roundtrip:
  "serialize in_archive (fst (serialize out_archive [] p)) q = ([], q\<lparr>px := px p, py := py p, pz := pz p\<rparr>)"
  by (simp add: serialize_def out_archive_def)

text \<open>
  \<open>find_first_of\<close> looks for the first of the characters of its argument, not for the argument; with
  none found, the whole address is returned.
\<close>

definition protocol :: "string \<Rightarrow> string" where
  "protocol addr = takeWhile (\<lambda>c. c \<notin> set ''://'') addr"

lemma protocol_of_address:
  assumes "list_all (\<lambda>c. c \<noteq> CHR '':'' \<and> c \<noteq> CHR ''/'') proto"
  shows "protocol (proto @ ''://'' @ rest) = proto"
  using assms by (induction proto) (simp_all add: protocol_def)

section \<open>Greetings\<close>

definition say :: string where
  "say = ''Hello''"

definition doubleHello :: "string \<Rightarrow> string" where
  "doubleHello hello = hello @ '' '' @ hello @ ''\<newline>''"

section \<open>Generated strings\<close>

text \<open>
  A generated string has exactly the requested length and consists of letters and digits only,
  for every engine whose distribution keeps to its documented range; in particular the character
  table is never read out of bounds.
\<close>

lemma random_string_alnum:
  assumes "in_range draw"
  shows "length (fst (generateRandomAlphanumericString draw len rng)) = len \<and>
    list_all is_alnum (fst (generateRandomAlphanumericString draw len rng)) \<and>
    (\<forall>g. fst (draw (length kChars - 1) g) < length kChars)"
proof -
  have b: "fst (draw (length kChars - 1) g) < length kChars" for g
    using assms by (simp add: in_range_def kChars_def less_Suc_eq_le)
  have "is_alnum (fst (case draw (length kChars - 1) g of (k, g') \<Rightarrow> (kChars ! k, g')))" for g
    using b [of g] kChars_alnum by (auto simp: list_all_length split: prod.splits)
  then have "list_all is_alnum (fst (generateRandomAlphanumericString draw len rng))"
    unfolding generateRandomAlphanumericString_def list_all_iff
    by (metis (no_types, lifting) generate_n_all)
  with b show ?thesis by (simp add: generateRandomAlphanumericString_def generate_n_length)
qed

end
