(* ===== verification/Counters.thy ===== *)
theory Counters
  imports Prelude
begin

text \<open>
  The counter programs: \<open>ppm_ch14_1_counter\<close> (ten threads increment a persistent integer, each in a
  transaction), \<open>ppm_ch14_2_counter_fixed_but_still_buggy\<close> (the same under a mutex that is released
  before the transaction commits) and \<open>pmem_distributed_counter\<close> (one persistent counter per
  thread). Transactions give atomicity after a crash by an undo log per thread and no isolation.
\<close>

section \<open>The shared counter\<close>

text \<open>
  The steps of \<open>increment\<close>: the lock (second program only), \<open>get_rw\<close>, which puts the old value into
  the undo log, the read and the write of \<open>+= 1\<close>, the destructor of the lock, the commit.
\<close>

datatype inc_pc = CLock | CSnap | CRead | CWrite int | CUnlock | CCommit | CDone

record counter_state =
  counter :: int
  mtx :: "nat option"
  undo :: "nat \<Rightarrow> int option"
  inc_at :: "nat \<Rightarrow> inc_pc"
  overflow :: bool

definition int_max :: int where
  "int_max = 2 ^ 31 - 1"

definition set_inc :: "nat \<Rightarrow> inc_pc \<Rightarrow> counter_state \<Rightarrow> counter_state" where
  "set_inc i p s = s\<lparr>inc_at := (inc_at s)(i := p)\<rparr>"

definition increment_exec :: "bool \<Rightarrow> nat \<Rightarrow> counter_state \<Rightarrow> counter_state option" where
  "increment_exec locking i s =
     (case inc_at s i of
        CLock \<Rightarrow>
          if \<not> locking then Some (set_inc i CSnap s)
          else if mtx s = None then Some (set_inc i CSnap (s\<lparr>mtx := Some i\<rparr>))
          else None
      | CSnap \<Rightarrow> Some (set_inc i CRead (s\<lparr>undo := (undo s)(i := Some (counter s))\<rparr>))
      | CRead \<Rightarrow> Some (set_inc i (CWrite (counter s)) s)
      | CWrite v \<Rightarrow>
          if v < int_max then Some (set_inc i CUnlock (s\<lparr>counter := v + 1\<rparr>))
          else Some (set_inc i CUnlock (s\<lparr>overflow := True\<rparr>))
      | CUnlock \<Rightarrow>
          Some (set_inc i CCommit (if locking then s\<lparr>mtx := None\<rparr> else s))
      | CCommit \<Rightarrow> Some (set_inc i CDone (s\<lparr>undo := (undo s)(i := None)\<rparr>))
      | CDone \<Rightarrow> None)"

inductive increment_step :: "bool \<Rightarrow> nat \<Rightarrow> counter_state \<Rightarrow> counter_state \<Rightarrow> bool" for locking N where
  "i < N \<Longrightarrow> increment_exec locking i s = Some t \<Longrightarrow> increment_step locking N s t"

inductive_cases increment_stepE: "increment_step locking N s t"

definition counter_new :: "int \<Rightarrow> counter_state" where
  "counter_new c = \<lparr>counter = c, mtx = None, undo = (\<lambda>_. None), inc_at = (\<lambda>_. CLock), overflow = False\<rparr>"

definition all_joined :: "nat \<Rightarrow> counter_state \<Rightarrow> bool" where
  "all_joined N s \<longleftrightarrow> list_all (\<lambda>i. inc_at s i = CDone) [0..<N]"

text \<open>\<open>main\<close> starts ten threads and prints the counter before and after.\<close>

definition num_workers :: nat where
  "num_workers = 10"

definition counter_printed :: "counter_state \<Rightarrow> counter_state \<Rightarrow> int list" where
  "counter_printed before after = [counter before, counter after]"

text \<open>The pool is opened, which may throw, ten threads run and are joined, the counter is printed twice.\<close>

inductive counter_main :: "bool \<Rightarrow> int res \<Rightarrow> int list \<Rightarrow> ended \<Rightarrow> bool" for locking where
  not_opened: "counter_main locking (Inl e) [] (Uncaught e)"
| counted: "(increment_step locking num_workers)\<^sup>*\<^sup>* (counter_new c) s \<Longrightarrow> all_joined num_workers s \<Longrightarrow>
    \<not> overflow s \<Longrightarrow> counter_main locking (Inr c) (counter_printed (counter_new c) s) (Exited 0)"
| overflowed: "(increment_step locking num_workers)\<^sup>*\<^sup>* (counter_new c) s \<Longrightarrow> overflow s \<Longrightarrow>
    counter_main locking (Inr c) [] (Uncaught Undefined)"

text \<open>
  What a restart finds after a crash: the undo logs of the transactions that had not committed are
  applied, here in the order of the threads.
\<close>

definition recovered :: "nat \<Rightarrow> counter_state \<Rightarrow> int" where
  "recovered N s = fold (\<lambda>i c. case undo s i of None \<Rightarrow> c | Some v \<Rightarrow> v) [0..<N] (counter s)"

definition committed :: "nat \<Rightarrow> counter_state \<Rightarrow> nat" where
  "committed N s = length (filter (\<lambda>i. inc_at s i = CDone) [0..<N])"

section \<open>Invariants\<close>

fun written :: "inc_pc \<Rightarrow> bool" where
  "written CUnlock = True" | "written CCommit = True" | "written CDone = True" | "written _ = False"

definition writes :: "nat \<Rightarrow> counter_state \<Rightarrow> nat" where
  "writes N s = (\<Sum>i<N. of_bool (written (inc_at s i)))"

lemma writes_upd:
  "i < N \<Longrightarrow> inc_at t = (inc_at s)(i := p) \<Longrightarrow>
     writes N t + of_bool (written (inc_at s i)) = writes N s + of_bool (written p)"
  using sum_fun_upd [of i N "\<lambda>p. of_bool (written p)" "inc_at s" p] by (simp add: writes_def)

lemma writes_le: "writes N s \<le> N"
  using sum_bounded_above [of "{..<N}" "\<lambda>i. of_bool (written (inc_at s i)) :: nat" 1]
  by (simp add: writes_def)

lemma writes_less: "i < N \<Longrightarrow> \<not> written (inc_at s i) \<Longrightarrow> writes N s < N"
  using writes_upd [of i N "set_inc i CDone s" s CDone] writes_le [of N "set_inc i CDone s"]
  by (simp add: set_inc_def)

text \<open>
  Without the lock the counter stays between one and the number of writes above its start; with
  the lock it counts the writes.
\<close>

definition unlocked_inv :: "int \<Rightarrow> nat \<Rightarrow> counter_state \<Rightarrow> bool" where
  "unlocked_inv c N s \<longleftrightarrow> \<not> overflow s \<and>
     counter s \<le> c + int (writes N s) \<and> (if writes N s = 0 then c \<le> counter s else c < counter s) \<and>
     (\<forall>i<N. \<forall>v. inc_at s i = CWrite v \<longrightarrow> c \<le> v \<and> v \<le> c + int (writes N s))"

fun holding :: "inc_pc \<Rightarrow> bool" where
  "holding CSnap = True" | "holding CRead = True" | "holding (CWrite v) = True"
| "holding CUnlock = True" | "holding _ = False"

definition locked_inv :: "int \<Rightarrow> nat \<Rightarrow> counter_state \<Rightarrow> bool" where
  "locked_inv c N s \<longleftrightarrow> \<not> overflow s \<and> counter s = c + int (writes N s) \<and>
     (\<forall>i<N. holding (inc_at s i) \<longleftrightarrow> mtx s = Some i) \<and>
     (\<forall>i<N. \<forall>v. inc_at s i = CWrite v \<longrightarrow> v = counter s)"

text \<open>What every step but the write does.\<close>

lemma quiet_step:
  assumes i: "i < N" and e: "increment_exec locking i s = Some t" and q: "\<nexists>v. inc_at s i = CWrite v"
    and h: "locking \<Longrightarrow> holding (inc_at s i) \<longleftrightarrow> mtx s = Some i"
  obtains p where "inc_at t = (inc_at s)(i := p)" "counter t = counter s" "overflow t = overflow s"
    "writes N t = writes N s" "\<And>v. p = CWrite v \<Longrightarrow> v = counter s"
    "locking \<Longrightarrow> (holding p \<longleftrightarrow> mtx t = Some i) \<and> (mtx t = mtx s \<or> mtx s = None \<or> holding (inc_at s i))"
    "locking \<Longrightarrow> mtx t = mtx s \<or> mtx t = None \<or> mtx t = Some i"
proof -
  have p: "inc_at t = (inc_at s)(i := inc_at t i)" "counter t = counter s" "overflow t = overflow s"
    "written (inc_at t i) = written (inc_at s i)" "\<And>v. inc_at t i = CWrite v \<Longrightarrow> v = counter s"
    "locking \<Longrightarrow> (holding (inc_at t i) \<longleftrightarrow> mtx t = Some i) \<and> (mtx t = mtx s \<or> mtx s = None \<or> holding (inc_at s i))"
    "locking \<Longrightarrow> mtx t = mtx s \<or> mtx t = None \<or> mtx t = Some i"
    using e q h by (auto simp: increment_exec_def set_inc_def split: inc_pc.splits if_splits)
  with writes_upd [OF i p(1)] show thesis by (intro that [of "inc_at t i"]) simp_all
qed

text \<open>And what the write does.\<close>

lemma write_step:
  assumes i: "i < N" and e: "increment_exec locking i s = Some t" and w: "inc_at s i = CWrite v"
    and v: "v < int_max"
  shows "inc_at t = (inc_at s)(i := CUnlock)" "counter t = v + 1" "overflow t = overflow s"
    "mtx t = mtx s" "writes N t = writes N s + 1" "writes N s < N"
proof -
  have t: "t = set_inc i CUnlock (s\<lparr>counter := v + 1\<rparr>)" using e w v by (simp add: increment_exec_def)
  then show p: "inc_at t = (inc_at s)(i := CUnlock)" "counter t = v + 1" "overflow t = overflow s"
    "mtx t = mtx s" by (simp_all add: set_inc_def)
  show "writes N t = writes N s + 1" using writes_upd [OF i p(1)] w by simp
  show "writes N s < N" using writes_less [OF i, of s] w by simp
qed

lemma unlocked_step:
  assumes inv: "unlocked_inv c N s" and c: "c + int N \<le> int_max" and st: "increment_step False N s t"
  shows "unlocked_inv c N t"
  using st
proof (rule increment_stepE)
  fix i assume i: "i < N" and e: "increment_exec False i s = Some t"
  show ?thesis
  proof (cases "\<exists>v. inc_at s i = CWrite v")
    case True
    then obtain v where w: "inc_at s i = CWrite v" by blast
    with inv i have v: "c \<le> v" "v \<le> c + int (writes N s)" by (auto simp: unlocked_inv_def)
    moreover have "writes N s < N" using writes_less [OF i, of s] w by simp
    ultimately have "v < int_max" using c by linarith
    note t = write_step [OF i e w this]
    show ?thesis unfolding unlocked_inv_def t using inv v by (force simp: unlocked_inv_def)
  next
    case False
    obtain p where p: "inc_at t = (inc_at s)(i := p)" "counter t = counter s" "overflow t = overflow s"
      "writes N t = writes N s" "\<And>v. p = CWrite v \<Longrightarrow> v = counter s"
      by (rule quiet_step [OF i e False]) simp_all
    show ?thesis unfolding unlocked_inv_def p(1-4) using inv p(5)
      by (auto simp: unlocked_inv_def split: if_splits)
  qed
qed

lemma locked_step:
  assumes inv: "locked_inv c N s" and c: "c + int N \<le> int_max" and st: "increment_step True N s t"
  shows "locked_inv c N t"
  using st
proof (rule increment_stepE)
  fix i assume i: "i < N" and e: "increment_exec True i s = Some t"
  have h: "\<And>k. k < N \<Longrightarrow> holding (inc_at s k) \<longleftrightarrow> mtx s = Some k" using inv by (simp add: locked_inv_def)
  show ?thesis
  proof (cases "\<exists>v. inc_at s i = CWrite v")
    case True
    then obtain v where w: "inc_at s i = CWrite v" by blast
    with inv i have v: "v = c + int (writes N s)" by (auto simp: locked_inv_def)
    moreover have "writes N s < N" using writes_less [OF i, of s] w by simp
    ultimately have "v < int_max" using c by linarith
    note t = write_step [OF i e w this]
    have other: "inc_at s k \<noteq> CWrite u" if "k < N" "k \<noteq> i" for k u
      using h [OF i] h [OF that(1)] w that by auto
    show ?thesis
      unfolding locked_inv_def t using inv v h [OF i] w i other by (auto simp: locked_inv_def)
  next
    case False
    obtain p where p: "inc_at t = (inc_at s)(i := p)" "counter t = counter s" "overflow t = overflow s"
      "writes N t = writes N s" "\<And>v. p = CWrite v \<Longrightarrow> v = counter s"
      "holding p \<longleftrightarrow> mtx t = Some i" "mtx t = mtx s \<or> mtx s = None \<or> holding (inc_at s i)"
      "mtx t = mtx s \<or> mtx t = None \<or> mtx t = Some i"
      by (rule quiet_step [OF i e False]) (simp_all add: h [OF i])
    have "holding (((inc_at s)(i := p)) k) \<longleftrightarrow> mtx t = Some k" if "k < N" for k
      using h [OF that] h [OF i] p(6-8) by (cases "k = i") auto
    then show ?thesis unfolding locked_inv_def p(1-4) using inv p(5) by (auto simp: locked_inv_def)
  qed
qed

lemma counter_new_inv: "unlocked_inv c N (counter_new c)" "locked_inv c N (counter_new c)"
  by (simp_all add: unlocked_inv_def locked_inv_def counter_new_def writes_def)

text \<open>What a thread still has to do, and who can do it.\<close>

fun inc_rank :: "inc_pc \<Rightarrow> nat" where
  "inc_rank CLock = 6" | "inc_rank CSnap = 5" | "inc_rank CRead = 4" | "inc_rank (CWrite v) = 3"
| "inc_rank CUnlock = 2" | "inc_rank CCommit = 1" | "inc_rank CDone = 0"

definition inc_work :: "nat \<Rightarrow> counter_state \<Rightarrow> nat" where
  "inc_work N s = (\<Sum>i<N. inc_rank (inc_at s i))"

lemma inc_decreases:
  assumes "increment_step locking N s t"
  shows "inc_work N t < inc_work N s"
  using assms
proof (rule increment_stepE)
  fix i assume i: "i < N" and e: "increment_exec locking i s = Some t"
  then obtain p where p: "inc_at t = (inc_at s)(i := p)" and r: "inc_rank p < inc_rank (inc_at s i)"
    by (auto simp: increment_exec_def set_inc_def split: inc_pc.splits if_splits)
  show ?thesis
    using sum_fun_upd [OF i, of inc_rank "inc_at s" p] r by (simp add: inc_work_def p)
qed

lemma inc_enabled:
  assumes "i < N" "inc_at s i \<noteq> CDone" "locking \<Longrightarrow> inc_at s i = CLock \<Longrightarrow> mtx s = None"
  shows "\<exists>t. increment_step locking N s t"
proof -
  have "\<exists>t. increment_exec locking i s = Some t"
    using assms(2,3) by (cases "inc_at s i") (auto simp: increment_exec_def)
  with assms(1) show ?thesis by (auto intro: increment_step.intros)
qed

text \<open>The mutex is held by a worker.\<close>

definition mtx_worker :: "nat \<Rightarrow> counter_state \<Rightarrow> bool" where
  "mtx_worker N s \<longleftrightarrow> (case mtx s of None \<Rightarrow> True | Some i \<Rightarrow> i < N)"

lemma counter_new_worker: "mtx_worker N (counter_new c)"
  by (simp add: mtx_worker_def counter_new_def)

lemma mtx_worker_step: "mtx_worker N s \<Longrightarrow> increment_step locking N s t \<Longrightarrow> mtx_worker N t"
  by (elim increment_stepE)
     (auto simp: mtx_worker_def increment_exec_def set_inc_def split: inc_pc.splits if_splits option.splits)

lemma locked_enabled:
  assumes inv: "locked_inv c N s" "mtx_worker N s" and nj: "\<not> all_joined N s"
  shows "\<exists>t. increment_step True N s t"
proof (cases "mtx s")
  case None
  from nj obtain i where "i < N" "inc_at s i \<noteq> CDone" by (auto simp: all_joined_def list_all_iff)
  with None show ?thesis by (intro inc_enabled) simp_all
next
  case (Some i)
  with inv have i: "i < N" by (simp add: mtx_worker_def)
  with inv(1) Some have "holding (inc_at s i)" by (simp add: locked_inv_def)
  with i show ?thesis by (intro inc_enabled [of i]) auto
qed

lemma unlocked_enabled: "\<not> all_joined N s \<Longrightarrow> \<exists>t. increment_step False N s t"
  by (auto simp: all_joined_def list_all_iff intro: inc_enabled)

interpretation unlocked: terminating_system "\<lambda>s. s = counter_new c \<and> c + int N \<le> int_max"
  "increment_step False N" "\<lambda>s. c + int N \<le> int_max \<and> unlocked_inv c N s" "all_joined N" "inc_work N" for c N
  by unfold_locales (auto intro: counter_new_inv unlocked_step inc_decreases unlocked_enabled)

interpretation locked: terminating_system "\<lambda>s. s = counter_new c \<and> c + int N \<le> int_max"
  "increment_step True N" "\<lambda>s. c + int N \<le> int_max \<and> locked_inv c N s \<and> mtx_worker N s" "all_joined N" "inc_work N" for c N
  by unfold_locales
     (auto intro: counter_new_inv counter_new_worker locked_step mtx_worker_step inc_decreases locked_enabled)

lemma all_joined_writes: "all_joined N s \<Longrightarrow> writes N s = N"
  by (simp add: all_joined_def writes_def list_all_iff)

section \<open>Schedules\<close>

text \<open>The execution given by the list of the threads that move.\<close>

fun increment_run :: "bool \<Rightarrow> nat list \<Rightarrow> counter_state \<Rightarrow> counter_state option" where
  "increment_run locking [] s = Some s"
| "increment_run locking (i # is) s =
     (case increment_exec locking i s of None \<Rightarrow> None | Some t \<Rightarrow> increment_run locking is t)"

lemma increment_run_steps:
  "increment_run locking is s = Some t \<Longrightarrow> set is \<subseteq> {..<N} \<Longrightarrow> (increment_step locking N)\<^sup>*\<^sup>* s t"
proof (induction "is" arbitrary: s)
  case (Cons i "is")
  then obtain u where "increment_exec locking i s = Some u" "increment_run locking is u = Some t"
    by (auto split: option.splits)
  with Cons show ?case
    by (intro converse_rtranclp_into_rtranclp [of _ s u]) (auto intro: increment_step.intros)
qed simp

lemmas increment_eval = increment_exec_def set_inc_def counter_new_def int_max_def

section \<open>One counter per thread\<close>

text \<open>
  \<open>enumerable_thread_specific::local\<close> gives every thread an entry of its own, a zeroed one at its
  first call after \<open>clear\<close>. Each of the thousand increments is a transaction; one that throws ends
  the thread and with it the program.
\<close>

record dist_state =
  tls :: "nat \<Rightarrow> u64 option"
  rounds :: "nat \<Rightarrow> nat"
  terminated :: bool

definition kRounds :: nat where
  "kRounds = 1000"

definition inc_body :: "u64 \<Rightarrow> u64 \<times> unit res" where
  "inc_body c = (c + 1, Inr ())"

definition dist_exec :: "(u64, unit) tx_run \<Rightarrow> nat \<Rightarrow> dist_state \<Rightarrow> dist_state option" where
  "dist_exec run i s =
     (case tls s i of
        None \<Rightarrow> Some (s\<lparr>tls := (tls s)(i := Some 0)\<rparr>)
      | Some c \<Rightarrow>
          if rounds s i < kRounds
          then (case run inc_body c of
                  (c', Inr u) \<Rightarrow>
                    Some (s\<lparr>tls := (tls s)(i := Some c'), rounds := (rounds s)(i := rounds s i + 1)\<rparr>)
                | (c', Inl e) \<Rightarrow> Some (s\<lparr>tls := (tls s)(i := Some c'), terminated := True\<rparr>))
          else None)"

inductive dist_step :: "(u64, unit) tx_run \<Rightarrow> nat \<Rightarrow> dist_state \<Rightarrow> dist_state \<Rightarrow> bool" for run N where
  "i < N \<Longrightarrow> \<not> terminated s \<Longrightarrow> dist_exec run i s = Some t \<Longrightarrow> dist_step run N s t"

inductive_cases dist_stepE: "dist_step run N s t"

definition dist_nthreads :: "nat \<Rightarrow> nat option \<Rightarrow> nat" where
  "dist_nthreads hardware_concurrency arg = (case arg of None \<Rightarrow> hardware_concurrency | Some n \<Rightarrow> n)"

text \<open>What the previous run left is printed, then the entries are cleared.\<close>

definition dist_start :: "u64 list \<Rightarrow> u64 list \<times> dist_state" where
  "dist_start prev = (prev, \<lparr>tls = (\<lambda>_. None), rounds = (\<lambda>_. 0), terminated = False\<rparr>)"

definition dist_joined :: "nat \<Rightarrow> dist_state \<Rightarrow> bool" where
  "dist_joined N s \<longleftrightarrow> \<not> terminated s \<and> list_all (\<lambda>i. tls s i \<noteq> None \<and> rounds s i = kRounds) [0..<N]"

definition dist_counters :: "nat \<Rightarrow> dist_state \<Rightarrow> u64 list" where
  "dist_counters N s = map (\<lambda>i. the (tls s i)) (filter (\<lambda>i. tls s i \<noteq> None) [0..<N])"

definition dist_sum :: "nat \<Rightarrow> dist_state \<Rightarrow> u64" where
  "dist_sum N s = fold (\<lambda>c acc. acc + c) (dist_counters N s) 0"

definition dist_inv :: "nat \<Rightarrow> dist_state \<Rightarrow> bool" where
  "dist_inv N s \<longleftrightarrow> \<not> terminated s \<and>
     (\<forall>i. rounds s i \<le> kRounds \<and> (tls s i = Some (of_nat (rounds s i)) \<or> tls s i = None \<and> rounds s i = 0))"

definition dist_work :: "nat \<Rightarrow> dist_state \<Rightarrow> nat" where
  "dist_work N s = (\<Sum>i<N. (kRounds - rounds s i) + of_bool (tls s i = None))"

lemma inc_body_run: "tx_commits run \<Longrightarrow> run inc_body c = (c + 1, Inr ())"
  using tx_commits_run [of run inc_body c "c + 1" "()"] by (simp add: inc_body_def)

lemma dist_exec_cases:
  assumes "tx_commits run" "dist_exec run i s = Some t"
  obtains (local) "tls s i = None" "t = s\<lparr>tls := (tls s)(i := Some 0)\<rparr>"
    | (inc) c where "tls s i = Some c" "rounds s i < kRounds"
      "t = s\<lparr>tls := (tls s)(i := Some (c + 1)), rounds := (rounds s)(i := rounds s i + 1)\<rparr>"
proof (cases "tls s i")
  case None
  with assms(2) show thesis by (intro local) (simp_all add: dist_exec_def)
next
  case (Some c)
  with assms(2) have "rounds s i < kRounds" by (simp add: dist_exec_def split: if_splits)
  with Some assms show thesis by (intro inc) (auto simp: dist_exec_def inc_body_run)
qed

lemma dist_work_less:
  assumes "i < N" "tls t = (tls s)(i := c)" "rounds t = (rounds s)(i := r)"
    and "(kRounds - r) + of_bool (c = None) < (kRounds - rounds s i) + of_bool (tls s i = None)"
  shows "dist_work N t < dist_work N s"
proof -
  let ?f = "\<lambda>(c, r). (kRounds - r) + of_bool (c = (None :: u64 option)) :: nat"
    and ?p = "\<lambda>k. (tls s k, rounds s k)"
  have "dist_work N t = (\<Sum>k<N. ?f ((?p(i := (c, r))) k))"
    unfolding dist_work_def assms(2,3) by (rule sum.cong) auto
  moreover have "dist_work N s = (\<Sum>k<N. ?f (?p k))" by (simp add: dist_work_def)
  ultimately show ?thesis using sum_fun_upd [OF assms(1), of ?f ?p "(c, r)"] assms(4) by simp
qed

lemma dist_step_inv:
  assumes "tx_commits run" "dist_inv N s" "i < N" "dist_exec run i s = Some t"
  shows "dist_inv N t \<and> dist_work N t < dist_work N s"
  using assms(1,4)
proof (cases rule: dist_exec_cases)
  case local
  have "rounds s i = 0" using assms(2) local(1) by (auto simp: dist_inv_def dest!: spec [of _ i])
  with local(2) assms(2) have "dist_inv N t" by (auto simp: dist_inv_def)
  moreover have "dist_work N t < dist_work N s"
    by (rule dist_work_less [OF assms(3), of _ _ "Some 0" "rounds s i"]) (simp_all add: local)
  ultimately show ?thesis ..
next
  case (inc c)
  have "c = of_nat (rounds s i)" using assms(2) inc(1) by (auto simp: dist_inv_def dest!: spec [of _ i])
  with inc(2,3) assms(2) have "dist_inv N t" by (auto simp: dist_inv_def)
  moreover have "dist_work N t < dist_work N s"
    by (rule dist_work_less [OF assms(3), of _ _ "Some (c + 1)" "rounds s i + 1"])
       (use inc(1,2) in \<open>simp_all add: inc(3)\<close>)
  ultimately show ?thesis ..
qed

interpretation dist: terminating_system "\<lambda>s. tx_commits run \<and> s = snd (dist_start prev)"
  "dist_step run N" "\<lambda>s. tx_commits run \<and> dist_inv N s" "dist_joined N" "dist_work N" for run prev N
proof unfold_locales
  show "tx_commits run \<and> dist_inv N s" if "tx_commits run \<and> s = snd (dist_start prev)" for s
    using that by (simp add: dist_inv_def dist_start_def)
  fix s t assume inv: "tx_commits run \<and> dist_inv N s" and st: "dist_step run N s t"
  show "tx_commits run \<and> dist_inv N t" "dist_work N t < dist_work N s"
  proof -
    obtain i where "i < N" "dist_exec run i s = Some t" using st by (rule dist_stepE)
    with inv dist_step_inv [of run N s i t]
    show "tx_commits run \<and> dist_inv N t" "dist_work N t < dist_work N s" by simp_all
  qed
next
  fix s assume inv: "tx_commits run \<and> dist_inv N s" and nj: "\<not> dist_joined N s"
  then obtain i where i: "i < N" "tls s i = None \<or> rounds s i < kRounds"
    by (auto simp: dist_joined_def dist_inv_def list_all_iff order_less_le)
  with inv have "\<exists>t. dist_exec run i s = Some t"
    by (cases "tls s i") (auto simp: dist_exec_def inc_body_run)
  with i inv show "\<exists>t. dist_step run N s t" by (auto simp: dist_inv_def intro: dist_step.intros)
qed

section \<open>Properties\<close>

text \<open>
  Transactions do not isolate. For a counter that cannot overflow, every execution of
  \<open>ppm_ch14_1_counter\<close> ends with a counter above its start and at most ten above it, and there is
  an execution in which nine of the ten increments are lost.
\<close>

theorem counter_lost_update:
  assumes "c + 10 \<le> int_max"
  shows "(\<forall>s. (increment_step False num_workers)\<^sup>*\<^sup>* (counter_new c) s \<longrightarrow> all_joined num_workers s \<longrightarrow>
      \<not> overflow s \<and> c < counter s \<and> counter s \<le> c + 10) \<and>
    (\<exists>s. (increment_step False num_workers)\<^sup>*\<^sup>* (counter_new c) s \<and> all_joined num_workers s \<and>
      counter_printed (counter_new c) s = [c, c + 1])"
proof (intro conjI allI impI)
  fix s assume r: "(increment_step False num_workers)\<^sup>*\<^sup>* (counter_new c) s" "all_joined num_workers s"
  have "unlocked_inv c num_workers s"
    using unlocked.reachable_inv [of "counter_new c" c num_workers s] r(1) assms
    by (simp add: num_workers_def)
  with all_joined_writes [OF r(2)] show "\<not> overflow s" "c < counter s" "counter s \<le> c + 10"
    by (simp_all add: unlocked_inv_def num_workers_def)
next
  let ?sched = "concat (map (replicate 3) ([0..<10] @ [0..<10]))"
  have "c < int_max" using assms by simp
  then obtain t where t: "increment_run False ?sched (counter_new c) = Some t" "counter t = c + 1"
    "list_all (\<lambda>i. inc_at t i = CDone) [0..<10]"
    by (simp add: increment_exec_def set_inc_def counter_new_def upt_rec numeral_3_eq_3)
  moreover have "set ?sched \<subseteq> {..<10}" by auto
  ultimately show "\<exists>s. (increment_step False num_workers)\<^sup>*\<^sup>* (counter_new c) s \<and> all_joined num_workers s \<and>
      counter_printed (counter_new c) s = [c, c + 1]"
    using increment_run_steps [OF t(1), of 10]
    by (auto simp: num_workers_def all_joined_def counter_printed_def counter_new_def)
qed

theorem counter_lost_update_witness:
  "\<exists>s. (increment_step False num_workers)\<^sup>*\<^sup>* (counter_new 5) s \<and> all_joined num_workers s \<and>
     counter_printed (counter_new 5) s = [5, 6]"
  using counter_lost_update [of 5] by (simp add: int_max_def)

text \<open>
  C25. The mutex of \<open>ppm_ch14_2_counter_fixed_but_still_buggy\<close> makes every execution that is not
  interrupted count to exactly ten more, without overflow: the threads never run forever, \<open>main\<close>
  always ends with status 0, and it prints the counter and the counter plus ten. But the mutex is
  released before the transaction commits: there is a moment at which one increment has been
  committed and a crash brings the counter back to its start.
\<close>

theorem counter_fixed_but_buggy:
  assumes "c + 10 \<le> int_max"
  shows "(\<forall>out e. counter_main True (Inr c) out e \<longleftrightarrow> out = [c, c + 10] \<and> e = Exited 0) \<and>
    (\<nexists>f. f 0 = counter_new c \<and> (\<forall>n. increment_step True num_workers (f n) (f (Suc n)))) \<and>
    (\<exists>s. (increment_step True num_workers)\<^sup>*\<^sup>* (counter_new c) s \<and>
      committed num_workers s = 1 \<and> recovered num_workers s = c)"
proof (intro conjI)
  have ends: "\<not> overflow s \<and> (all_joined num_workers s \<longrightarrow> counter_printed (counter_new c) s = [c, c + 10])"
    if "(increment_step True num_workers)\<^sup>*\<^sup>* (counter_new c) s" for s
    using locked.reachable_inv [of "counter_new c" c num_workers s] that assms all_joined_writes [of num_workers s]
    by (simp add: locked_inv_def num_workers_def counter_printed_def counter_new_def)
  obtain s where s: "(increment_step True num_workers)\<^sup>*\<^sup>* (counter_new c) s" "all_joined num_workers s"
    using locked.reachable_can_finish [of "counter_new c" c num_workers "counter_new c"] assms
    by (auto simp: num_workers_def)
  show "\<forall>out e. counter_main True (Inr c) out e \<longleftrightarrow> out = [c, c + 10] \<and> e = Exited 0"
    using ends counted [OF s] s by (auto elim!: counter_main.cases)
  show "\<nexists>f. f 0 = counter_new c \<and> (\<forall>n. increment_step True num_workers (f n) (f (Suc n)))"
    using locked.no_infinite_run [of _ c num_workers] assms by (force simp: num_workers_def)
  let ?sched = "[0, 0, 0, 0, 0, 1, 1, 1, 1, 1, 1]"
  have c: "c < int_max" "c + 1 < int_max" using assms by simp_all
  define t where "t = \<lparr>counter = c + 2, mtx = None, undo = (\<lambda>_. None)(0 := Some c),
    inc_at = (\<lambda>_. CLock)(0 := CCommit, 1 := CDone), overflow = False\<rparr>"
  have "increment_run True ?sched (counter_new c) = Some t"
    using c by (simp add: increment_exec_def set_inc_def counter_new_def t_def fun_eq_iff)
  then have "(increment_step True num_workers)\<^sup>*\<^sup>* (counter_new c) t"
    by (rule increment_run_steps) (simp add: num_workers_def)
  moreover have "committed num_workers t = 1" "recovered num_workers t = c"
    by (simp_all add: committed_def recovered_def t_def num_workers_def upt_rec)
  ultimately show "\<exists>s. (increment_step True num_workers)\<^sup>*\<^sup>* (counter_new c) s \<and>
      committed num_workers s = 1 \<and> recovered num_workers s = c" by blast
qed

theorem counter_fixed_but_buggy_witness:
  "\<exists>s. (increment_step True num_workers)\<^sup>*\<^sup>* (counter_new 0) s \<and>
     committed num_workers s = 1 \<and> recovered num_workers s = 0"
  using counter_fixed_but_buggy [of 0] by (simp add: int_max_def)

text \<open>
  The distributed counter loses nothing: with transactions that commit, there is no infinite
  execution, and whenever no thread can go on every thread's own counter is 1000 and the printed
  sum is 1000 times the number of threads.
\<close>

theorem distributed_counter_sum:
  assumes "tx_commits run"
  shows "(\<nexists>f. f 0 = snd (dist_start prev) \<and> (\<forall>n. dist_step run N (f n) (f (Suc n)))) \<and>
    (\<forall>s. (dist_step run N)\<^sup>*\<^sup>* (snd (dist_start prev)) s \<and> (\<nexists>t. dist_step run N s t) \<longrightarrow>
      dist_joined N s \<and> dist_counters N s = replicate N 1000 \<and> dist_sum N s = of_nat (1000 * N))"
proof (intro conjI allI impI)
  show "\<nexists>f. f 0 = snd (dist_start prev) \<and> (\<forall>n. dist_step run N (f n) (f (Suc n)))"
    using dist.no_infinite_run [of run _ prev N] assms by blast
  fix s assume s: "(dist_step run N)\<^sup>*\<^sup>* (snd (dist_start prev)) s \<and> (\<nexists>t. dist_step run N s t)"
  then show j: "dist_joined N s"
    using dist.stuck_final [of run "snd (dist_start prev)" prev N s] assms by simp
  have inv: "dist_inv N s"
    using dist.reachable_inv [of run "snd (dist_start prev)" prev N s] assms s by simp
  have "tls s i = Some 1000" if "i < N" for i
    using j inv that by (auto simp: dist_joined_def dist_inv_def list_all_iff kRounds_def dest!: spec [of _ i])
  then have "dist_counters N s = map (\<lambda>_. 1000) [0..<N]" by (simp add: dist_counters_def)
  then show c: "dist_counters N s = replicate N 1000" by (simp add: map_replicate_const)
  have "fold (\<lambda>c acc. acc + c) (replicate n 1000) a = a + of_nat (1000 * n)" for n and a :: u64
    by (induction n arbitrary: a) (simp_all add: algebra_simps)
  from this [of N 0] show "dist_sum N s = of_nat (1000 * N)" by (simp add: dist_sum_def c)
qed

theorem distributed_counter_sum_witness:
  "{s. (dist_step tx_plain 3)\<^sup>*\<^sup>* (snd (dist_start [7])) s \<and> (\<nexists>t. dist_step tx_plain 3 s t)} \<subseteq>
   {s. dist_counters 3 s = [1000, 1000, 1000] \<and> dist_sum 3 s = 3000}"
  using distributed_counter_sum [OF tx_plain_commits, of "[7]" 3] by (auto simp: numeral_3_eq_3)

end
