(* ===== verification/Work_Pool.thy ===== *)
theory Work_Pool
  imports Fifo
begin

text \<open>
  The custom work pool and scheduler of \<open>thallium_custom_schedulers_and_pools\<close>: \<open>MyUnit\<close>,
  \<open>MyPool\<close>, \<open>MyScheduler\<close> and the assignment of pools to schedulers in \<open>main\<close>. Every pool
  operation runs under the pool's mutex and is one step. The random numbers of the stealing, the
  units that other threads push and the answers of \<open>has_to_stop\<close> are inputs.
\<close>

section \<open>Units and pools\<close>

datatype unit_type = ThreadUnit | TaskUnit

text \<open>A unit keeps a handle of the thread or of the task it stands for; the other is empty.\<close>

record my_unit =
  getThread :: "nat option"
  getTask :: "nat option"
  getType :: unit_type
  isInPool :: bool

definition unit_of_thread :: "nat \<Rightarrow> my_unit" where
  "unit_of_thread t = \<lparr>getThread = Some t, getTask = None, getType = ThreadUnit, isInPool = False\<rparr>"

definition unit_of_task :: "nat \<Rightarrow> my_unit" where
  "unit_of_task t = \<lparr>getThread = None, getTask = Some t, getType = TaskUnit, isInPool = False\<rparr>"

text \<open>A pool with the units its pointers refer to.\<close>

type_synonym unit_heap = "addr \<Rightarrow> my_unit"

definition mark :: "bool \<Rightarrow> addr \<Rightarrow> unit_heap \<Rightarrow> unit_heap" where
  "mark b u h = h(u := (h u)\<lparr>isInPool := b\<rparr>)"

definition getSize :: "unit_heap \<times> addr list \<Rightarrow> nat" where
  "getSize p = length (snd p)"

definition pool_push :: "addr \<Rightarrow> unit_heap \<times> addr list \<Rightarrow> unit_heap \<times> addr list" where
  "pool_push u p = (mark True u (fst p), snd p @ [u])"

text \<open>\<open>None\<close> is the null pointer.\<close>

definition pool_pop :: "unit_heap \<times> addr list \<Rightarrow> (unit_heap \<times> addr list) \<times> addr option" where
  "pool_pop p =
     (case snd p of
        [] \<Rightarrow> (p, None)
      | u # us \<Rightarrow> ((mark False u (fst p), us), Some u))"

definition pool_remove :: "addr \<Rightarrow> unit_heap \<times> addr list \<Rightarrow> unit_heap \<times> addr list" where
  "pool_remove u p = (if u \<in> set (snd p) then (mark False u (fst p), remove1 u (snd p)) else p)"

section \<open>The scheduler\<close>

record sched =
  heap :: unit_heap
  pools :: "addr list list"
  executed :: "(nat \<times> addr) list"

definition steal_target :: "nat \<Rightarrow> nat \<Rightarrow> nat" where
  "steal_target n r = (if n = 2 then 1 else r mod (n - 1) + 1)"

text \<open>Pop from pool \<open>k\<close> and run what was popped; the flag says whether there was a unit.\<close>

definition run_from :: "nat \<Rightarrow> sched \<Rightarrow> sched \<times> bool" where
  "run_from k s =
     (case pool_pop (heap s, pools s ! k) of
        ((h, us), None) \<Rightarrow> (s, False)
      | ((h, us), Some u) \<Rightarrow>
          (s\<lparr>heap := h, pools := (pools s)[k := us], executed := executed s @ [(k, u)]\<rparr>, True))"

definition sched_iter :: "nat \<Rightarrow> sched \<Rightarrow> sched" where
  "sched_iter r s =
     (let n = length (pools s); (s', found) = run_from 0 s in
      if found then s'
      else if n > 1 then fst (run_from (steal_target n r) s')
      else s')"

definition arrive :: "nat \<times> addr \<Rightarrow> sched \<Rightarrow> sched" where
  "arrive ku s =
     (let (h, us) = pool_push (snd ku) (heap s, pools s ! fst ku)
      in s\<lparr>heap := h, pools := (pools s)[fst ku := us]\<rparr>)"

text \<open>
  The loop: in every round the units that others pushed meanwhile, the random number and the
  answer of \<open>has_to_stop\<close>. \<open>None\<close>: still running when the inputs end.
\<close>

type_synonym round = "(nat \<times> addr) list \<times> nat \<times> bool"

fun sched_run :: "round list \<Rightarrow> sched \<Rightarrow> sched option" where
  "sched_run [] s = None"
| "sched_run ((arrivals, r, stop) # ins) s =
     (let s' = sched_iter r (fold arrive arrivals s)
      in if stop then Some s' else sched_run ins s')"

text \<open>The pools of scheduler \<open>i\<close> in \<open>main\<close>, as indices into the vector of pools.\<close>

definition NUM_XSTREAMS :: nat where "NUM_XSTREAMS = 1"
definition NUM_THREADS :: nat where "NUM_THREADS = 16"

definition poolsForSched :: "nat \<Rightarrow> nat \<Rightarrow> nat list" where
  "poolsForSched n i = map (\<lambda>j. j + i mod n) [0..<n]"

definition xstream_of :: "nat \<Rightarrow> nat \<Rightarrow> nat" where
  "xstream_of n i = i mod n"

section \<open>The pool is a queue\<close>

definition push_res :: "addr \<Rightarrow> unit_heap \<times> addr list \<Rightarrow> (unit_heap \<times> addr list) \<times> unit res" where
  "push_res u p = (pool_push u p, Inr ())"

definition pop_res :: "unit_heap \<times> addr list \<Rightarrow> (unit_heap \<times> addr list) \<times> addr res" where
  "pop_res p = (case pool_pop p of (p', None) \<Rightarrow> (p', Inl no_elements) | (p', Some u) \<Rightarrow> (p', Inr u))"

interpretation pool: fifo push_res pop_res "\<lambda>p us. snd p = us"
  by unfold_locales
     (auto simp: push_res_def pop_res_def pool_push_def pool_pop_def no_elements_def split: list.splits)

text \<open>The flag of a unit tells whether it is in the pool.\<close>

definition flags_ok :: "unit_heap \<Rightarrow> addr list \<Rightarrow> bool" where
  "flags_ok h us \<longleftrightarrow> distinct us \<and> (\<forall>u. isInPool (h u) \<longleftrightarrow> u \<in> set us)"

lemma mark_sel [simp]: "isInPool (mark b u h v) = (if v = u then b else isInPool (h v))"
  by (simp add: mark_def)

lemma push_flags: "flags_ok (fst p) (snd p) \<Longrightarrow> u \<notin> set (snd p) \<Longrightarrow>
    flags_ok (fst (pool_push u p)) (snd (pool_push u p))"
  by (auto simp: flags_ok_def pool_push_def)

lemma pop_flags: "flags_ok (fst p) (snd p) \<Longrightarrow>
    flags_ok (fst (fst (pool_pop p))) (snd (fst (pool_pop p)))"
  by (auto simp: flags_ok_def pool_pop_def split: list.splits)

lemma remove_flags: "flags_ok (fst p) (snd p) \<Longrightarrow>
    flags_ok (fst (pool_remove u p)) (snd (pool_remove u p)) \<and> u \<notin> set (snd (pool_remove u p)) \<and>
    getSize (pool_remove u p) = getSize p - of_bool (u \<in> set (snd p))"
  by (auto simp: flags_ok_def pool_remove_def getSize_def length_remove1)

section \<open>The scheduler loses nothing\<close>

lemma steal_target_bounds: "1 < n \<Longrightarrow> 1 \<le> steal_target n r \<and> steal_target n r < n"
proof (cases "n = 2")
  case False
  moreover assume "1 < n"
  ultimately have "r mod (n - 1) < n - 1" by (intro mod_less_divisor) simp
  with False show ?thesis by (simp add: steal_target_def)
qed (simp add: steal_target_def)

text \<open>\<open>xs\<close> are all units that have been in the pools; each of them was pushed once.\<close>

definition sched_ok :: "addr list \<Rightarrow> sched \<Rightarrow> bool" where
  "sched_ok xs s \<longleftrightarrow> pools s \<noteq> [] \<and> distinct xs \<and>
     mset (map snd (executed s)) + mset (concat (pools s)) = mset xs \<and>
     (\<forall>u. isInPool (heap s u) \<longleftrightarrow> u \<in> set (concat (pools s)))"

lemma mset_concat_upd:
  "k < length ps \<Longrightarrow> mset (concat (ps[k := us])) + mset (ps ! k) = mset (concat ps) + mset us"
proof (induction ps arbitrary: k)
  case (Cons p ps)
  then show ?case by (cases k) (auto simp: add.left_commute add.assoc)
qed simp

lemma run_from_ok:
  assumes "sched_ok xs s" "k < length (pools s)"
  shows "sched_ok xs (fst (run_from k s)) \<and> length (pools (fst (run_from k s))) = length (pools s)"
proof (cases "pools s ! k")
  case Nil
  with assms show ?thesis by (simp add: run_from_def pool_pop_def)
next
  case (Cons u us)
  let ?ps = "(pools s)[k := us]"
  have m: "mset (concat (pools s)) = add_mset u (mset (concat ?ps))"
    using mset_concat_upd [OF assms(2), of us] Cons by simp
  have d: "distinct (map snd (executed s) @ concat (pools s))"
    using assms(1) mset_eq_imp_distinct_iff [of "map snd (executed s) @ concat (pools s)" xs]
    by (simp add: sched_ok_def)
  have "distinct (u # concat ?ps)"
    using d m mset_eq_imp_distinct_iff [of "concat (pools s)" "u # concat ?ps"] by simp
  moreover have "set (concat (pools s)) = insert u (set (concat ?ps))"
    using arg_cong [OF m, of set_mset] by simp
  ultimately have "isInPool (mark False u (heap s) v) \<longleftrightarrow> v \<in> set (concat ?ps)" for v
    using assms(1) by (auto simp: sched_ok_def)
  with assms m Cons show ?thesis by (simp add: run_from_def pool_pop_def sched_ok_def)
qed

lemma sched_iter_ok:
  assumes "sched_ok xs s"
  shows "sched_ok xs (sched_iter r s) \<and> length (pools (sched_iter r s)) = length (pools s)"
proof -
  obtain s' found where f: "run_from 0 s = (s', found)" by fastforce
  have 0: "sched_ok xs s'" "length (pools s') = length (pools s)"
    using run_from_ok [OF assms, of 0] assms f by (simp_all add: sched_ok_def)
  show ?thesis
  proof (cases "\<not> found \<and> length (pools s) > 1")
    case True
    with run_from_ok [OF 0(1)] steal_target_bounds [of "length (pools s)" r] 0(2) f show ?thesis
      by (simp add: sched_iter_def)
  qed (use 0 f in \<open>auto simp: sched_iter_def Let_def\<close>)
qed

lemma arrive_ok:
  assumes "sched_ok xs s" "k < length (pools s)" "u \<notin> set xs"
  shows "sched_ok (xs @ [u]) (arrive (k, u) s) \<and> length (pools (arrive (k, u) s)) = length (pools s)"
proof -
  let ?ps = "(pools s)[k := pools s ! k @ [u]]"
  have m: "mset (concat ?ps) = add_mset u (mset (concat (pools s)))"
    using mset_concat_upd [OF assms(2), of "pools s ! k @ [u]"] by simp
  have "set (concat ?ps) = insert u (set (concat (pools s)))"
    using arg_cong [OF m, of set_mset] by simp
  with assms m show ?thesis by (auto simp: arrive_def pool_push_def sched_ok_def)
qed

lemma arrivals_ok:
  "\<lbrakk>sched_ok xs s; distinct (xs @ map snd arrivals); list_all (\<lambda>a. fst a < length (pools s)) arrivals\<rbrakk> \<Longrightarrow>
   sched_ok (xs @ map snd arrivals) (fold arrive arrivals s) \<and>
   length (pools (fold arrive arrivals s)) = length (pools s)"
proof (induction arrivals arbitrary: s xs)
  case (Cons a arrivals)
  obtain k u where a: "a = (k, u)" by (cases a)
  with Cons.prems arrive_ok [OF Cons.prems(1), of k u]
  have "sched_ok (xs @ [u]) (arrive a s)" "length (pools (arrive a s)) = length (pools s)" by auto
  with Cons.IH [of "xs @ [u]" "arrive a s"] Cons.prems a show ?case by simp
qed simp

text \<open>The rounds up to the one in which the scheduler is told to stop.\<close>

fun rounds_run :: "round list \<Rightarrow> round list" where
  "rounds_run [] = []"
| "rounds_run ((a, r, stop) # ins) = (a, r, stop) # (if stop then [] else rounds_run ins)"

definition arrived :: "round list \<Rightarrow> addr list" where
  "arrived ins = concat (map (\<lambda>i. map snd (fst i)) (rounds_run ins))"

lemma sched_run_ok:
  "\<lbrakk>sched_ok xs s; distinct (xs @ arrived ins);
    list_all (\<lambda>i. list_all (\<lambda>a. fst a < length (pools s)) (fst i)) ins;
    \<exists>i\<in>set ins. snd (snd i)\<rbrakk> \<Longrightarrow>
   \<exists>s'. sched_run ins s = Some s' \<and> sched_ok (xs @ arrived ins) s'"
proof (induction ins arbitrary: s xs)
  case (Cons i ins)
  obtain a r stop where i: "i = (a, r, stop)" by (cases i)
  let ?s = "sched_iter r (fold arrive a s)"
  have arr: "arrived (i # ins) = map snd a @ (if stop then [] else arrived ins)"
    by (simp add: arrived_def i)
  have "sched_ok (xs @ map snd a) (fold arrive a s) \<and> length (pools (fold arrive a s)) = length (pools s)"
    using Cons.prems i arr by (intro arrivals_ok) auto
  then have ok: "sched_ok (xs @ map snd a) ?s" "length (pools ?s) = length (pools s)"
    using sched_iter_ok [of "xs @ map snd a" "fold arrive a s" r] by auto
  show ?case
  proof (cases stop)
    case False
    with Cons.prems i arr ok have "\<exists>s'. sched_run ins ?s = Some s' \<and> sched_ok ((xs @ map snd a) @ arrived ins) s'"
      by (intro Cons.IH) auto
    with False i arr show ?thesis by simp
  qed (use i arr ok in simp)
qed simp

section \<open>Property\<close>


definition small_sched :: sched where
  "small_sched = \<lparr>heap = (\<lambda>u. if u < 3 then (unit_of_thread u)\<lparr>isInPool := True\<rparr> else unit_of_task u),
     pools = [[0], [1, 2]], executed = []\<rparr>"


text \<open>
  With one pool the index expression of \<open>main\<close> is in range; with more, the modulus binds tighter
  than the sum and the second scheduler's last pool is out of range.
\<close>

lemma poolsForSched_range:
  "poolsForSched NUM_XSTREAMS 0 = [0]" "1 < n \<Longrightarrow> last (poolsForSched n 1) = n"
  by (simp_all add: poolsForSched_def NUM_XSTREAMS_def last_map)

end
