(* ===== verification/Record_Log.thy ===== *)
theory Record_Log
  imports Pmem
begin

text \<open>
  Model of \<open>ppm_ch12_38_out_of_order_bug\<close>: ten records, each made valid after its name was
  flushed, and a counter of records that is flushed only at the end. The model emits the stores
  and flushes of \<open>main\<close> in program order; a power failure can strike between any two.
\<close>

section \<open>The stores of the program\<close>

datatype rloc = Counter | NameByte nat nat | Valid nat

definition kRecords :: nat where "kRecords = 10"
definition kNameSize :: nat where "kNameSize = 63"

text \<open>\<open>snprintf\<close> with \<open>"record #%u"\<close>: the text cut to the buffer, and the terminating zero.\<close>

fun decimal :: "nat \<Rightarrow> string" where
  "decimal n = (if n < 10 then [char_of (48 + n)] else decimal (n div 10) @ [char_of (48 + n mod 10)])"

declare decimal.simps [simp del]

definition record_name :: "nat \<Rightarrow> nat list" where
  "record_name i = map of_char (take (kNameSize - 1) (''record #'' @ decimal (i + 1))) @ [0]"

text \<open>One round of the loop; \<open>named i\<close> is the outcome of \<open>rand() % 2 == 0\<close>.\<close>

definition record_code :: "(nat \<Rightarrow> bool) \<Rightarrow> nat \<Rightarrow> (rloc, nat) instr list" where
  "record_code named i =
     [Store Counter (i + 1)] @
     (if named i
      then map (\<lambda>k. Store (NameByte i k) (record_name i ! k)) [0..<length (record_name i)] @
           [Persist (map (NameByte i) [0..<kNameSize]), Store (Valid i) 2]
      else [Store (Valid i) 1]) @
     [Persist [Valid i]]"

definition loop_code :: "(nat \<Rightarrow> bool) \<Rightarrow> nat \<Rightarrow> (rloc, nat) instr list" where
  "loop_code named n = Store Counter 0 # concat (map (record_code named) [0..<n])"

definition main_code :: "(nat \<Rightarrow> bool) \<Rightarrow> (rloc, nat) instr list" where
  "main_code named = loop_code named kRecords @ [Persist [Counter]]"

text \<open>The memory after the transaction that allocates header and records, all zero.\<close>

definition records_new :: "(rloc, nat) pmem" where
  "records_new = quiescent (\<lambda>_. 0)"

section \<open>What is on the medium\<close>

lemma record_name_length: "length (record_name i) \<le> kNameSize"
  by (simp add: record_name_def kNameSize_def)

text \<open>
  After \<open>n\<close> rounds the names of the named records are on the medium, no other record can be found
  with a name, and nothing has been stored to the validity of later records.
\<close>

definition log_inv :: "(nat \<Rightarrow> bool) \<Rightarrow> nat \<Rightarrow> (rloc, nat) pmem \<Rightarrow> bool" where
  "log_inv named n s \<longleftrightarrow>
     (\<forall>i<n. if named i then (\<forall>k<length (record_name i). pending s (NameByte i k) = {record_name i ! k})
            else 2 \<notin> pending s (Valid i)) \<and>
     (\<forall>i\<ge>n. pending s (Valid i) = {0})"

definition names_ok :: "(nat \<Rightarrow> bool) \<Rightarrow> (rloc \<Rightarrow> nat) \<Rightarrow> bool" where
  "names_ok named m \<longleftrightarrow>
     (\<forall>i. m (Valid i) = 2 \<longrightarrow> named i \<and> (\<forall>k<length (record_name i). m (NameByte i k) = record_name i ! k))"

lemma log_inv_crash: "log_inv named n s \<Longrightarrow> crash_image s m \<Longrightarrow> names_ok named m"
proof -
  assume inv: "log_inv named n s" and m: "crash_image s m"
  have "named i \<and> (\<forall>k<length (record_name i). m (NameByte i k) = record_name i ! k)" if "m (Valid i) = 2" for i
  proof -
    have p: "2 \<in> pending s (Valid i)" using m that by (metis crash_image_def)
    with inv have "i < n" by (force simp: log_inv_def not_less [symmetric])
    with inv p have "named i \<and> (\<forall>k<length (record_name i). pending s (NameByte i k) = {record_name i ! k})"
      by (auto simp: log_inv_def split: if_splits)
    with m show ?thesis by (metis crash_image_def singletonD)
  qed
  then show ?thesis by (simp add: names_ok_def)
qed

text \<open>Stores to the counter and to the name of record \<open>n\<close> keep the invariant.\<close>

lemma log_inv_stores:
  assumes inv: "log_inv named n s" and "stores_in ({Counter} \<union> range (NameByte n)) is"
  shows "log_inv named n (exec is s)"
proof -
  have "pending (exec is s) (Valid i) = pending s (Valid i)" for i
    using stores_in_exec(2) [OF assms(2), of "Valid i" s] by auto
  moreover have "pending (exec is s) (NameByte i k) = pending s (NameByte i k)" if "i < n" for i k
    using stores_in_exec(2) [OF assms(2), of "NameByte i k" s] that by auto
  ultimately show ?thesis using inv by (simp add: log_inv_def)
qed

lemma crashes_in_stores:
  assumes inv: "log_inv named n s" and st: "stores_in ({Counter} \<union> range (NameByte n)) is"
    and c: "crashes_in is s m"
  shows "names_ok named m"
proof -
  from c obtain k where "crash_image (exec (take k is) s) m" by (auto simp: crashes_in_def)
  with log_inv_crash log_inv_stores [OF inv stores_in_take [OF st]] show ?thesis by blast
qed

text \<open>A store to the validity of record \<open>n\<close>, and its flush, once the name is flushed.\<close>

lemma log_inv_valid:
  assumes inv: "log_inv named n s"
    and n: "if named n then v = 2 \<and> (\<forall>k<length (record_name n). pending s (NameByte n k) = {record_name n ! k})
            else v = 1"
  shows "log_inv named (Suc n) (exec1 (Store (Valid n) v) s)"
    and "log_inv named (Suc n) (exec1 (Persist [Valid n]) (exec1 (Store (Valid n) v) s))"
proof -
  have z: "pending s (Valid n) = {0}" using inv by (simp add: log_inv_def)
  show "log_inv named (Suc n) (exec1 (Store (Valid n) v) s)"
    using inv n z by (auto simp: log_inv_def less_Suc_eq split: if_splits)
  then show "log_inv named (Suc n) (exec1 (Persist [Valid n]) (exec1 (Store (Valid n) v) s))"
    using n by (auto simp: log_inv_def less_Suc_eq split: if_splits)
qed

lemma record_code_ok:
  assumes inv: "log_inv named n s"
  shows "log_inv named (Suc n) (exec (record_code named n) s) \<and>
    (crashes_in (record_code named n) s m \<longrightarrow> names_ok named m)"
proof (cases "named n")
  case False
  let ?s = "exec1 (Store Counter (n + 1)) s"
  have 1: "log_inv named n ?s" using log_inv_stores [OF inv, of "[Store Counter (n + 1)]"] by simp
  note 2 = log_inv_valid [OF 1, of 1]
  have code: "record_code named n = [Store Counter (n + 1), Store (Valid n) 1, Persist [Valid n]]"
    using False by (simp add: record_code_def)
  show ?thesis
    unfolding code using 1 2 inv False log_inv_crash
    by (auto simp: crashes_in_Cons simp del: exec1.simps)
next
  case True
  let ?js = "[0..<length (record_name n)]"
  define w where "w = Store Counter (n + 1) # map (\<lambda>k. Store (NameByte n k) (record_name n ! k)) ?js"
  define p :: "(rloc, nat) instr" where "p = Persist (map (NameByte n) [0..<kNameSize])"
  have st: "stores_in ({Counter} \<union> range (NameByte n)) w" by (auto simp: stores_in_def w_def)
  have vis: "visible (exec w s) (NameByte n k) = record_name n ! k" if "k < length (record_name n)" for k
    using visible_stores [of "NameByte n" ?js k "\<lambda>k. record_name n ! k"] that
    by (simp add: distinct_map inj_on_def w_def)
  have 1: "log_inv named n (exec w s)" by (rule log_inv_stores [OF inv st])
  have 2: "log_inv named n (exec1 p (exec w s))" using 1 by (auto simp: log_inv_def p_def)
  have flushed: "pending (exec1 p (exec w s)) (NameByte n k) = {record_name n ! k}"
    if "k < length (record_name n)" for k
    using vis [OF that] that record_name_length [of n] by (auto simp: p_def)
  have 3: "log_inv named (Suc n) (exec1 (Store (Valid n) 2) (exec1 p (exec w s)))"
    "log_inv named (Suc n) (exec1 (Persist [Valid n]) (exec1 (Store (Valid n) 2) (exec1 p (exec w s))))"
    using log_inv_valid [OF 2, of 2] True flushed by simp_all
  have code: "record_code named n = w @ [p, Store (Valid n) 2, Persist [Valid n]]"
    using True by (simp add: record_code_def w_def p_def)
  have "names_ok named m" if "crashes_in (record_code named n) s m"
  proof -
    from that consider "crashes_in w s m" | "crash_image (exec w s) m" | "crash_image (exec1 p (exec w s)) m"
      | "crash_image (exec1 (Store (Valid n) 2) (exec1 p (exec w s))) m"
      | "crash_image (exec1 (Persist [Valid n]) (exec1 (Store (Valid n) 2) (exec1 p (exec w s)))) m"
      unfolding code by (auto simp: crashes_in_append crashes_in_Cons simp del: exec1.simps)
    then show ?thesis
      using crashes_in_stores [OF inv st] log_inv_crash [OF 1] log_inv_crash [OF 2]
        log_inv_crash [OF 3(1)] log_inv_crash [OF 3(2)] by cases
  qed
  with 3(2) show ?thesis unfolding code by (simp del: exec1.simps)
qed

lemma loop_code_Suc: "loop_code named (Suc n) = loop_code named n @ record_code named n"
  by (simp add: loop_code_def)

lemma loop_code_ok:
  "log_inv named n (exec (loop_code named n) records_new) \<and>
   (crashes_in (loop_code named n) records_new m \<longrightarrow> names_ok named m)"
proof (induction n)
  case 0
  have "log_inv named 0 records_new" by (simp add: log_inv_def records_new_def)
  then have "log_inv named 0 (exec [Store Counter 0] records_new)"
    by (rule log_inv_stores) simp
  with \<open>log_inv named 0 records_new\<close> show ?case
    by (auto simp: loop_code_def crashes_in_Cons simp del: exec1.simps dest: log_inv_crash)
next
  case (Suc n)
  with record_code_ok [of named n "exec (loop_code named n) records_new" m] show ?case
    by (simp add: loop_code_Suc crashes_in_append)
qed

text \<open>What the program has stored at the end of the loop, flushed or not.\<close>

lemma record_code_visible:
  "visible (exec (record_code named n) s) (Valid i) =
     (if i = n then if named n then 2 else 1 else visible s (Valid i))"
  "visible (exec (record_code named n) s) Counter = n + 1"
proof -
  let ?w = "map (\<lambda>k. Store (NameByte n k) (record_name n ! k)) [0..<length (record_name n)]"
  have st: "stores_in (range (NameByte n)) ?w" by (auto simp: stores_in_def)
  have "visible (exec ?w t) (Valid i) = visible t (Valid i)" "visible (exec ?w t) Counter = visible t Counter" for t
    by (rule stores_in_exec(1) [OF st]; auto)+
  then show "visible (exec (record_code named n) s) (Valid i) =
     (if i = n then if named n then 2 else 1 else visible s (Valid i))"
    "visible (exec (record_code named n) s) Counter = n + 1"
    by (auto simp: record_code_def)
qed

lemma loop_code_visible:
  "visible (exec (loop_code named n) records_new) (Valid i) =
     (if i < n then if named i then 2 else 1 else 0)"
  "visible (exec (loop_code named n) records_new) Counter = n"
  by (induction n)
     (simp_all add: loop_code_Suc record_code_visible, simp_all add: loop_code_def records_new_def less_Suc_eq)

lemma loop_code_counter: "0 \<in> pending (exec (loop_code named n) records_new) Counter"
  by (rule pending_unflushed) (auto simp: loop_code_def record_code_def records_new_def split: if_splits)

lemma main_code_final:
  "crash_image (exec (main_code named) records_new) m \<Longrightarrow> m Counter = kRecords"
proof -
  assume "crash_image (exec (main_code named) records_new) m"
  then have "m Counter \<in> pending (exec (main_code named) records_new) Counter"
    by (simp add: crash_image_def)
  then show ?thesis by (simp add: main_code_def loop_code_visible)
qed

section \<open>Property\<close>

text \<open>
  C21. What survives a power failure of \<open>ppm_ch12_38\<close>. Wherever it strikes and whatever the random
  choices were, a record found with validity 2 has its complete name; but the counter is not
  ordered with the records: there is a failure after which all ten records are valid and the
  counter is still zero. Only after the last flush is the counter ten.
\<close>

theorem record_log_crash:
  "(\<forall>m. crashes_in (main_code named) records_new m \<longrightarrow> names_ok named m) \<and>
   (\<exists>m. crashes_in (main_code named) records_new m \<and> m Counter = 0 \<and>
        (\<forall>i<kRecords. m (Valid i) = (if named i then 2 else 1))) \<and>
   (\<forall>m. crash_image (exec (main_code named) records_new) m \<longrightarrow> m Counter = kRecords)"
proof (intro conjI allI impI)
  let ?s = "exec (loop_code named kRecords) records_new"
  show "names_ok named m" if "crashes_in (main_code named) records_new m" for m
  proof -
    have inv: "log_inv named kRecords ?s" using loop_code_ok by blast
    then have "log_inv named kRecords (exec1 (Persist [Counter]) ?s)" by (simp add: log_inv_def)
    with that inv loop_code_ok [of named kRecords m] show ?thesis
      by (auto simp: main_code_def crashes_in_append crashes_in_Cons simp del: exec1.simps
          dest: log_inv_crash)
  qed
  let ?m = "(visible ?s)(Counter := 0)"
  have "\<forall>l. visible records_new l \<in> pending records_new l" by (simp add: records_new_def)
  then have "crash_image ?s ?m"
    using visible_pending [of records_new "loop_code named kRecords"] loop_code_counter
    by (simp add: crash_image_def)
  then have "crashes_in (main_code named) records_new ?m"
    unfolding main_code_def crashes_in_append by (simp add: crashes_in_now)
  then show "\<exists>m. crashes_in (main_code named) records_new m \<and> m Counter = 0 \<and>
        (\<forall>i<kRecords. m (Valid i) = (if named i then 2 else 1))"
    by (intro exI [of _ ?m]) (simp add: loop_code_visible)
qed (rule main_code_final)

theorem record_log_crash_witness:
  "{m. crashes_in (main_code (\<lambda>i. i = 3)) records_new m} \<subseteq> {m. names_ok (\<lambda>i. i = 3) m} \<and>
   (\<exists>m. crashes_in (main_code (\<lambda>i. i = 3)) records_new m \<and> m Counter = 0 \<and> m (Valid 3) = 2 \<and> m (Valid 9) = 1)"
  using record_log_crash [of "\<lambda>i. i = 3"] by (auto simp: kRecords_def)

end
