(* ===== verification/Accounts.thy ===== *)
theory Accounts
  imports Prelude
begin

text \<open>
  Models of \<open>ppm_ch7_6\<close> and \<open>ppm_ch7_7\<close>: two bank accounts are created with the reserve and publish
  interface of libpmemobj, then an amount is transferred, in the first program by publishing two
  value changes together, in the second in a transaction. What is published together becomes
  durable together; what is only reserved is gone after a failure. The model keeps the sequence
  of durable states, one of which a failure leaves.
\<close>

section \<open>Pool and actions\<close>

datatype obj = Str string | Account addr u64

type_synonym pool = "addr \<rightharpoonup> obj"

datatype action = Publish addr obj | SetBalance addr u64

fun apply_action :: "action \<Rightarrow> pool \<Rightarrow> pool" where
  "apply_action (Publish a x) p = p(a \<mapsto> x)"
| "apply_action (SetBalance a v) p =
     (case p a of Some (Account n b) \<Rightarrow> p(a \<mapsto> Account n v) | _ \<Rightarrow> p)"

text \<open>
  \<open>pmemobj_publish\<close> is a parameter; documented is that it makes all actions of the list durable, in
  one step.
\<close>

type_synonym publish_fn = "action list \<Rightarrow> pool \<Rightarrow> pool"

definition publishes :: "publish_fn \<Rightarrow> bool" where
  "publishes pub \<longleftrightarrow> (\<forall>acts p. pub acts p = fold apply_action acts p)"

text \<open>\<open>pmemobj_reserve\<close> is a parameter: an object outside the given ones, or none if memory is short.\<close>

definition fresh_reserve :: "(addr set \<Rightarrow> addr option) \<Rightarrow> bool" where
  "fresh_reserve reserve \<longleftrightarrow> (\<forall>U a. reserve U = Some a \<longrightarrow> a \<notin> U)"

section \<open>Creating accounts\<close>

definition new_account :: "publish_fn \<Rightarrow> (addr set \<Rightarrow> addr option) \<Rightarrow> string \<Rightarrow> int \<Rightarrow> pool \<Rightarrow> ended + addr \<times> pool" where
  "new_account pub reserve name deposit p =
     (case reserve (dom p) of
        None \<Rightarrow> Inl (Exited 1)
      | Some str \<Rightarrow>
          (case reserve (insert str (dom p)) of
             None \<Rightarrow> Inl (Exited 1)
           | Some acc \<Rightarrow>
               Inr (acc, pub [Publish str (Str name), Publish acc (Account str (of_int deposit))] p)))"

definition balance :: "pool \<Rightarrow> addr \<Rightarrow> u64" where
  "balance p a = (case p a of Some (Account n b) \<Rightarrow> b | _ \<Rightarrow> 0)"

definition price :: u64 where "price = 42"

text \<open>The transfer of the first program.\<close>

definition transfer_publish :: "publish_fn \<Rightarrow> addr \<Rightarrow> addr \<Rightarrow> pool \<Rightarrow> pool" where
  "transfer_publish pub a b p =
     pub [SetBalance a (balance p a - price), SetBalance b (balance p b + price)] p"

text \<open>The body of the transaction of the second, one assignment after the other.\<close>

definition transfer_body :: "addr \<Rightarrow> addr \<Rightarrow> pool \<Rightarrow> pool \<times> unit res" where
  "transfer_body a b p =
     (let p = apply_action (SetBalance a (balance p a - price)) p;
          p = apply_action (SetBalance b (balance p b + price)) p in (p, Inr ()))"

section \<open>The programs\<close>

definition open_accounts :: "publish_fn \<Rightarrow> (addr set \<Rightarrow> addr option) \<Rightarrow> bool \<Rightarrow> pool list \<times> (ended + addr \<times> addr \<times> pool)" where
  "open_accounts pub reserve created =
     (if \<not> created then ([], Inl (Exited 1))
      else case new_account pub reserve ''Julius Caesar'' 100 Map.empty of
        Inl e \<Rightarrow> ([Map.empty], Inl e)
      | Inr (a, p1) \<Rightarrow>
          (case new_account pub reserve ''Mark Anthony'' 50 p1 of
             Inl e \<Rightarrow> ([Map.empty, p1], Inl e)
           | Inr (b, p2) \<Rightarrow> ([Map.empty, p1, p2], Inr (a, b, p2))))"

definition main_publish :: "publish_fn \<Rightarrow> (addr set \<Rightarrow> addr option) \<Rightarrow> bool \<Rightarrow> pool list \<times> ended" where
  "main_publish pub reserve created =
     (case open_accounts pub reserve created of
        (ds, Inl e) \<Rightarrow> (ds, e)
      | (ds, Inr (a, b, p)) \<Rightarrow> (ds @ [transfer_publish pub a b p], Exited 0))"

text \<open>A transaction that aborts leaves the pool as it was; the program goes on and exits normally.\<close>

definition main_tx :: "publish_fn \<Rightarrow> (pool, unit) tx_run \<Rightarrow> (addr set \<Rightarrow> addr option) \<Rightarrow> bool \<Rightarrow> pool list \<times> ended" where
  "main_tx pub run reserve created =
     (case open_accounts pub reserve created of
        (ds, Inl e) \<Rightarrow> (ds, e)
      | (ds, Inr (a, b, p)) \<Rightarrow> (ds @ [fst (run (transfer_body a b) p)], Exited 0))"

section \<open>Consistency\<close>

text \<open>Every account has its name, and the balances add up to \<open>n\<close>.\<close>

definition total :: "pool \<Rightarrow> nat" where
  "total p = (\<Sum>a\<in>dom p. unat (balance p a))"

definition names_there :: "pool \<Rightarrow> bool" where
  "names_there p \<longleftrightarrow> (\<forall>a n b. p a = Some (Account n b) \<longrightarrow> (\<exists>s. p n = Some (Str s)))"

text \<open>The pool with both accounts, at the given balances.\<close>

definition both :: "addr \<Rightarrow> addr \<Rightarrow> addr \<Rightarrow> addr \<Rightarrow> u64 \<Rightarrow> u64 \<Rightarrow> pool" where
  "both s a t b x y =
     [s \<mapsto> Str ''Julius Caesar'', a \<mapsto> Account s x, t \<mapsto> Str ''Mark Anthony'', b \<mapsto> Account t y]"

lemma both_ok:
  assumes "distinct [s, a, t, b]"
  shows "names_there (both s a t b x y)" "total (both s a t b x y) = unat x + unat y"
    "balance (both s a t b x y) a = x" "balance (both s a t b x y) b = y"
  using assms by (auto simp: names_there_def total_def balance_def both_def split: if_splits)

lemma transfer_both:
  assumes "distinct [s, a, t, b]" "publishes pub"
  shows "transfer_publish pub a b (both s a t b x y) = both s a t b (x - price) (y + price)"
    "transfer_body a b (both s a t b x y) = (both s a t b (x - price) (y + price), Inr ())"
  using assms
  by (auto simp: transfer_publish_def transfer_body_def publishes_def both_def balance_def fun_eq_iff)

lemma open_accounts_cases:
  assumes "fresh_reserve reserve" "publishes pub" "open_accounts pub reserve created = (ds, r)"
  obtains (failed) e where "r = Inl e" "e = Exited 1" "\<forall>d\<in>set ds. names_there d \<and> total d \<in> {0, 100}"
    | (opened) s a t b d1 where "distinct [s, a, t, b]" "r = Inr (a, b, both s a t b 100 50)"
      "ds = [Map.empty, d1, both s a t b 100 50]" "names_there d1" "total d1 = 100"
proof -
  have empty: "names_there Map.empty" "total Map.empty = 0" by (simp_all add: names_there_def total_def)
  have pub: "\<And>acts p. pub acts p = fold apply_action acts p" using assms(2) by (simp add: publishes_def)
  have fresh: "\<And>U a. reserve U = Some a \<Longrightarrow> a \<notin> U" using assms(1) by (simp add: fresh_reserve_def)
  show thesis
  proof (cases "new_account pub reserve ''Julius Caesar'' 100 Map.empty")
    case (Inl e)
    then have "e = Exited 1" by (auto simp: new_account_def split: option.splits)
    with Inl assms(3) empty show thesis
      by (intro failed) (auto simp: open_accounts_def split: if_splits)
  next
    case (Inr ap)
    then obtain s a where a: "reserve {} = Some s" "reserve {s} = Some a"
      "ap = (a, [s \<mapsto> Str ''Julius Caesar'', a \<mapsto> Account s 100])"
      by (auto simp: new_account_def pub split: option.splits)
    have sa: "a \<noteq> s" using fresh [OF a(2)] by simp
    let ?p1 = "[s \<mapsto> Str ''Julius Caesar'', a \<mapsto> Account s 100]"
    have p1: "names_there ?p1" "total ?p1 = 100"
      using sa by (auto simp: names_there_def total_def balance_def)
    show thesis
    proof (cases "new_account pub reserve ''Mark Anthony'' 50 ?p1")
      case (Inl e)
      then have "e = Exited 1" by (auto simp: new_account_def split: option.splits)
      with Inl \<open>new_account pub reserve ''Julius Caesar'' 100 Map.empty = Inr ap\<close> a assms(3) empty p1
      show thesis by (intro failed) (auto simp: open_accounts_def split: if_splits)
    next
      case (Inr bp)
      then obtain t b where b: "reserve (dom ?p1) = Some t" "reserve (insert t (dom ?p1)) = Some b"
        "bp = (b, both s a t b 100 50)"
        by (auto simp: new_account_def pub both_def split: option.splits)
      have d: "distinct [s, a, t, b]" using fresh [OF b(1)] fresh [OF b(2)] sa by auto
      with Inr b \<open>new_account pub reserve ''Julius Caesar'' 100 Map.empty = Inr ap\<close> a assms(3) p1
      show thesis
        by (cases created) (auto simp: open_accounts_def intro: failed opened)
    qed
  qed
qed

section \<open>Property\<close>



end
