(* ===== verification/Subcommands.thy ===== *)
theory Subcommands
  imports Prelude "HOL-Library.List_Lexorder" "HOL-Library.Char_ord"
begin

text \<open>
  The subcommand front end that \<open>pmemobjstorage\<close> and \<open>example_cxxopts_subcmd\<close> share, up to their
  texts: a table of subcommands with their options, the choice by \<open>argv[1]\<close>, help and errors. The
  option parser \<open>cxxopts\<close> is library code and a parameter, with its rendering of the help text.
\<close>

section \<open>Tables\<close>

record cxx_opt =
  opt_name :: string
  opt_desc :: string
  opt_type :: "(string \<times> string option) option"

record cxx_options =
  prog :: string
  descr :: string
  opts :: "cxx_opt list"

definition help_opt :: cxx_opt where
  "help_opt = \<lparr>opt_name = ''h,help'', opt_desc = ''Print help and exit.'', opt_type = None\<rparr>"

definition oid_opt :: cxx_opt where
  "oid_opt = \<lparr>opt_name = ''oid'', opt_desc = ''object ID'', opt_type = Some (''uint64_t'', None)\<rparr>"

definition size_opt :: cxx_opt where
  "size_opt = \<lparr>opt_name = ''s,size'', opt_desc = ''object size'', opt_type = Some (''string'', Some ''2M'')\<rparr>"

definition subcmd_options :: "string \<Rightarrow> (string \<times> cxx_options) list" where
  "subcmd_options kDescription =
     [(''create'', \<lparr>prog = ''pmemobjstorage create'', descr = kDescription, opts = [help_opt, size_opt]\<rparr>),
      (''remove'', \<lparr>prog = ''pmemobjstorage remove'', descr = kDescription, opts = [help_opt, oid_opt]\<rparr>),
      (''get'', \<lparr>prog = ''pmemobjstorage get'', descr = kDescription, opts = [help_opt, oid_opt]\<rparr>),
      (''set'', \<lparr>prog = ''pmemobjstorage set'', descr = kDescription, opts = [help_opt, oid_opt]\<rparr>)]"

text \<open>\<open>std::map\<close> iterates in the order of the keys.\<close>

definition std_map :: "(string \<times> 'a) list \<Rightarrow> (string \<times> 'a) list" where
  "std_map kvs = sort_key fst kvs"

definition subcmd_names :: "string \<Rightarrow> string list" where
  "subcmd_names d = fold (\<lambda>i acc. acc @ [fst i]) (std_map (subcmd_options d)) []"

section \<open>The front end\<close>

datatype con = Out string | Err string

datatype 'p parse_end = Exit int | Returned string 'p | Thrown string | Aborted exn

fun join :: "string \<Rightarrow> string list \<Rightarrow> string" where
  "join sep [] = []"
| "join sep [x] = x"
| "join sep (x # y # xs) = x @ sep @ join sep (y # xs)"

text \<open>
  The usage message. \<open>argv[0]\<close> is a null pointer when there are no arguments at all, which the
  formatting library refuses with the exception \<open>null_exn\<close>.
\<close>

definition print_global_help :: "exn \<Rightarrow> string \<Rightarrow> string \<Rightarrow> string list \<Rightarrow> con list \<times> exn option" where
  "print_global_help null_exn title d argv =
     (let intro = [Out (title @ ''\<newline>''), Out ''Usage:\<newline>''] in
      case argv of
        [] \<Rightarrow> (intro, Some null_exn)
      | a # _ \<Rightarrow>
          (intro @ [Out (''  '' @ a @ '' '' @ join ''|'' (subcmd_names d) @ '' [OPTION...]\<newline>\<newline>'')], None))"

record program =
  title :: string
  description :: string

definition storage_program :: program where
  "storage_program = \<lparr>title = ''Persistent memory resident object storage.'',
     description = ''Persistent memory resident object storage.''\<rparr>"

definition example_program :: program where
  "example_program = \<lparr>title = ''Subcommand style option parser using cxxopts'',
     description = ''cxxopts subccommand example''\<rparr>"

text \<open>
  \<open>cxx_parse\<close> is the library's \<open>parse\<close>, an option error or the parsed options; \<open>wants_help\<close> tells
  whether the help flag was given, \<open>help_text\<close> renders the help.
\<close>

definition parse ::
  "exn \<Rightarrow> (cxx_options \<Rightarrow> string list \<Rightarrow> string + 'p) \<Rightarrow> ('p \<Rightarrow> bool) \<Rightarrow> (cxx_options \<Rightarrow> string) \<Rightarrow>
   program \<Rightarrow> string list \<Rightarrow> con list \<times> 'p parse_end"
where
  "parse null_exn cxx_parse wants_help help_text pr argv =
     (let d = description pr; options = std_map (subcmd_options d);
          global_help = print_global_help null_exn (title pr) d argv in
      if length argv < 2
      then (fst global_help, case snd global_help of Some e \<Rightarrow> Aborted e | None \<Rightarrow> Exit 0)
      else let subcmd_name = argv ! 1 in
        case map_of options subcmd_name of
          None \<Rightarrow>
            (fst global_help @ [Err (''Error: unknown subcommand '' @ subcmd_name @ ''\<newline>'')], Exit 1)
        | Some subcmd_option \<Rightarrow>
            (case cxx_parse subcmd_option argv of
               Inl e \<Rightarrow> ([], Thrown e)
             | Inr p \<Rightarrow>
                 if wants_help p then ([Out (help_text subcmd_option @ ''\<newline>'')], Exit 0)
                 else ([], Returned subcmd_name p)))"

definition subcmd_main ::
  "exn \<Rightarrow> (cxx_options \<Rightarrow> string list \<Rightarrow> string + 'p) \<Rightarrow> ('p \<Rightarrow> bool) \<Rightarrow> (cxx_options \<Rightarrow> string) \<Rightarrow>
   program \<Rightarrow> string list \<Rightarrow> con list \<times> ended"
where
  "subcmd_main null_exn cxx_parse wants_help help_text pr argv =
     (case parse null_exn cxx_parse wants_help help_text pr argv of
        (out, Exit c) \<Rightarrow> (out, Exited c)
      | (out, Returned n p) \<Rightarrow> (out, Exited 0)
      | (out, Thrown e) \<Rightarrow> (out @ [Err (''Error parsing options: '' @ e @ ''\<newline>'')], Exited 1)
      | (out, Aborted e) \<Rightarrow> (out, Uncaught e))"

section \<open>\<open>example_cxxopts_subcmd\<close>\<close>

text \<open>The example has a table and names of its own, made the same way, and calls \<open>parse\<close> in its \<open>main\<close>.\<close>

definition example_options :: "(string \<times> cxx_options) list" where
  "example_options =
     [(''create'', \<lparr>prog = ''pmemobjstorage create'', descr = ''cxxopts subccommand example'',
         opts = [help_opt, \<lparr>opt_name = ''s,size'', opt_desc = ''object size'', opt_type = Some (''string'', Some ''2M'')\<rparr>]\<rparr>),
      (''remove'', \<lparr>prog = ''pmemobjstorage remove'', descr = ''cxxopts subccommand example'', opts = [help_opt, oid_opt]\<rparr>),
      (''get'', \<lparr>prog = ''pmemobjstorage get'', descr = ''cxxopts subccommand example'', opts = [help_opt, oid_opt]\<rparr>),
      (''set'', \<lparr>prog = ''pmemobjstorage set'', descr = ''cxxopts subccommand example'', opts = [help_opt, oid_opt]\<rparr>)]"

definition example_names :: "string list" where
  "example_names = fold (\<lambda>i acc. acc @ [fst i]) (std_map example_options) []"

definition example_main ::
  "exn \<Rightarrow> (cxx_options \<Rightarrow> string list \<Rightarrow> string + 'p) \<Rightarrow> ('p \<Rightarrow> bool) \<Rightarrow> (cxx_options \<Rightarrow> string) \<Rightarrow>
   string list \<Rightarrow> con list \<times> ended"
where
  "example_main null_exn cxx_parse wants_help help_text argv =
     (case parse null_exn cxx_parse wants_help help_text example_program argv of
        (out, Thrown e) \<Rightarrow> (out @ [Err (''Error parsing options: '' @ e @ ''\<newline>'')], Exited 1)
      | (out, Exit c) \<Rightarrow> (out, Exited c)
      | (out, Returned subcmd p) \<Rightarrow> (out, Exited 0)
      | (out, Aborted e) \<Rightarrow> (out, Uncaught e))"

section \<open>Properties\<close>

text \<open>The example is the front end of \<open>pmemobjstorage\<close> with other texts.\<close>

lemma example_same:
  "example_options = subcmd_options (description example_program)"
  "example_names = subcmd_names (description example_program)"
  "example_main null_exn cxx_parse wants_help help_text argv =
     subcmd_main null_exn cxx_parse wants_help help_text example_program argv"
  by (simp_all add: example_options_def subcmd_options_def example_program_def size_opt_def example_names_def
      subcmd_names_def example_main_def subcmd_main_def split: prod.splits parse_end.splits)

lemma subcmd_names_sorted: "subcmd_names d = [''create'', ''get'', ''remove'', ''set'']"
  by (simp add: subcmd_names_def std_map_def subcmd_options_def insort_key_def)

text \<open>Sorting a table with distinct keys does not change what is found in it.\<close>

lemma map_of_std_map: "distinct (map fst kvs) \<Longrightarrow> map_of (std_map kvs) = map_of kvs"
proof (rule ext)
  fix k assume d: "distinct (map fst kvs)"
  have "mset (map fst (std_map kvs)) = mset (map fst kvs)" by (simp add: std_map_def)
  with d have d': "distinct (map fst (std_map kvs))" using mset_eq_imp_distinct_iff by blast
  have s: "set (std_map kvs) = set kvs" by (simp add: std_map_def)
  show "map_of (std_map kvs) k = map_of kvs k"
  proof (cases "map_of kvs k")
    case None
    with s have "map_of (std_map kvs) k = None" by (simp add: map_of_eq_None_iff)
    with None show ?thesis by simp
  next
    case (Some v)
    with s have "(k, v) \<in> set (std_map kvs)" by (simp add: map_of_SomeD)
    with Some d' show ?thesis by (simp add: map_of_is_SomeI)
  qed
qed

lemma subcmd_lookup: "map_of (std_map (subcmd_options d)) = map_of (subcmd_options d)"
  by (rule map_of_std_map) (simp add: subcmd_options_def)

fun to_stderr :: "con \<Rightarrow> bool" where
  "to_stderr (Err _) = True" | "to_stderr (Out _) = False"

text \<open>
  Both front ends dispatch on the four subcommands and report errors consistently. With no
  argument they print the usage, which lists the subcommands in alphabetical order, and succeed;
  an unknown subcommand is an error whatever follows it; a known one succeeds exactly if the
  library accepts the arguments for the options of that very subcommand. The exit status is 1
  exactly if something was written to the error stream. Only an empty argument vector, where there
  is no program name, ends in an exception.
\<close>

theorem subcmd_status:
  "subcmd_main null_exn cxx_parse wants_help help_text pr argv = (out, st) \<Longrightarrow>
   st = (case argv of
           [] \<Rightarrow> Uncaught null_exn
         | [a] \<Rightarrow> Exited 0
         | a # name # rest \<Rightarrow>
             (if name \<in> set [''create'', ''get'', ''remove'', ''set'']
              then case cxx_parse (the (map_of (subcmd_options (description pr)) name)) argv of
                     Inl e \<Rightarrow> Exited 1 | Inr p \<Rightarrow> Exited 0
              else Exited 1)) \<and>
   (st = Exited 1 \<longleftrightarrow> list_ex to_stderr out)"
proof (cases argv)
  case Nil
  assume "subcmd_main null_exn cxx_parse wants_help help_text pr argv = (out, st)"
  with Nil show ?thesis by (auto simp: subcmd_main_def parse_def print_global_help_def Let_def)
next
  case (Cons a as)
  assume m: "subcmd_main null_exn cxx_parse wants_help help_text pr argv = (out, st)"
  show ?thesis
  proof (cases as)
    case Nil
    with Cons m show ?thesis by (auto simp: subcmd_main_def parse_def print_global_help_def Let_def)
  next
    case (Cons name rest)
    note argv = \<open>argv = a # as\<close> Cons
    show ?thesis
    proof (cases "map_of (subcmd_options (description pr)) name")
      case None
      then have "name \<notin> set [''create'', ''get'', ''remove'', ''set'']"
        by (auto simp: map_of_eq_None_iff subcmd_options_def)
      with None argv m show ?thesis
        by (auto simp: subcmd_main_def parse_def print_global_help_def Let_def subcmd_lookup)
    next
      case (Some o')
      then have "name \<in> set [''create'', ''get'', ''remove'', ''set'']"
        by (auto simp: subcmd_options_def split: if_splits)
      with Some argv m show ?thesis
        by (auto simp: subcmd_main_def parse_def Let_def subcmd_lookup split: sum.splits if_splits)
    qed
  qed
qed

theorem subcmd_status_witness:
  "subcmd_main Undefined (\<lambda>o' argv. if length argv = 2 then Inr False else Inl ''too many'') id (\<lambda>_. [])
     storage_program [''pmemobjstorage'', ''get'', ''x''] =
     ([Err ''Error parsing options: too many\<newline>''], Exited 1) \<and>
   list_ex to_stderr [Err ''Error parsing options: too many\<newline>'']"
proof -
  have m: "subcmd_main Undefined (\<lambda>o' argv. if length argv = 2 then Inr False else Inl ''too many'') id (\<lambda>_. [])
     storage_program [''pmemobjstorage'', ''get'', ''x''] =
     ([Err ''Error parsing options: too many\<newline>''], Exited 1)"
    by (simp add: subcmd_main_def parse_def Let_def subcmd_lookup) (simp add: subcmd_options_def)
  from subcmd_status [OF m] m show ?thesis by simp
qed

end
