(* ===== verification/Pool_Programs.thy ===== *)
theory Pool_Programs
  imports Striping Burst_Buffer
begin

text \<open>
  The programs that work on a libpmemobj pool given on the command line: the beginning of \<open>main\<close>
  that \<open>pmembb_list\<close>, \<open>pmem_distributed_counter\<close>, \<open>pmemobj_atomic_ops\<close>, \<open>mpsc_queue_bench\<close> and
  \<open>pmemobj_ctl\<close> share, and what the last three do with the pool. The pool library, the allocator and
  the random strings are parameters.
\<close>

section \<open>Opening or creating the pool\<close>

record 'p pool_lib =
  pool_check :: "string \<Rightarrow> string \<Rightarrow> int"
  pool_open :: "string \<Rightarrow> string \<Rightarrow> 'p res"
  pool_create :: "string \<Rightarrow> string \<Rightarrow> u64 \<Rightarrow> 'p res"

definition open_or_create :: "'p pool_lib \<Rightarrow> string \<Rightarrow> string \<Rightarrow> u64 \<Rightarrow> 'p res" where
  "open_or_create lib path layout n =
     (if pool_check lib path layout = 1 then pool_open lib path layout
      else pool_create lib path layout n)"

text \<open>The handler around \<open>main\<close> turns every \<open>std::exception\<close> into the exit status -1.\<close>

definition catch_all :: "'a res \<Rightarrow> ended + 'a" where
  "catch_all r =
     (case r of
        Inr v \<Rightarrow> Inr v
      | Inl e \<Rightarrow> Inl (if e = Undefined then Uncaught Undefined else Exited (-1)))"

definition start_pool :: "'p pool_lib \<Rightarrow> string \<Rightarrow> string \<Rightarrow> parsed \<Rightarrow> ended + 'p" where
  "start_pool lib layout size_opt r =
     (if opt_count r ''help'' \<noteq> 0 then Inl (Exited 0)
      else catch_all
        (case prettyTo 1024 (opt_text r size_opt) of
           Inl e \<Rightarrow> Inl e
         | Inr n \<Rightarrow> open_or_create lib (opt_text r ''path'') layout n))"

text \<open>An existing pool is opened and never created anew, whatever size was asked for.\<close>

lemma start_pool_keeps:
  assumes "pool_check lib (opt_text r ''path'') layout = 1"
  shows "start_pool (lib\<lparr>pool_create := c\<rparr>) layout size_opt r = start_pool lib layout size_opt r"
  using assms by (simp add: start_pool_def open_or_create_def split: sum.splits)

definition bb_start :: "'p pool_lib \<Rightarrow> parsed \<Rightarrow> ended + 'p" where
  "bb_start lib r = start_pool lib ''pmembb_list'' ''pool_size'' r"

definition dist_pool :: "'p pool_lib \<Rightarrow> parsed \<Rightarrow> ended + 'p" where
  "dist_pool lib r = start_pool lib ''mpsc_queue_bench'' ''pool_size'' r"

definition ops_start :: "'p pool_lib \<Rightarrow> parsed \<Rightarrow> ended + 'p" where
  "ops_start lib r = start_pool lib ''pmemobj_atomic_ops'' ''pool_size'' r"

definition mpsc_start :: "'p pool_lib \<Rightarrow> parsed \<Rightarrow> ended + u64 \<times> 'p" where
  "mpsc_start lib r =
     (if opt_count r ''help'' \<noteq> 0 then Inl (Exited 0)
      else catch_all
        (case prettyTo 1024 (opt_text r ''pool_size'') of Inl e \<Rightarrow> Inl e | Inr n \<Rightarrow>
         case prettyTo 1024 (opt_text r ''queue_size'') of Inl e \<Rightarrow> Inl e | Inr q \<Rightarrow>
         case open_or_create lib (opt_text r ''path'') ''mpsc_queue_bench'' n of
           Inl e \<Rightarrow> Inl e | Inr p \<Rightarrow> Inr (q, p)))"

text \<open>
  Closing the pool at the end of \<open>main\<close>: a \<open>std::logic_error\<close>, or an exception derived from it, is
  printed and forgotten; any other exception reaches the handler around \<open>main\<close>.
\<close>

fun logic_error :: "exn \<Rightarrow> string option" where
  "logic_error (LogicError m) = Some m"
| "logic_error (OutOfRange m) = Some m"
| "logic_error (InvalidArgument m) = Some m"
| "logic_error _ = None"

definition close_pool :: "unit res \<Rightarrow> string list \<times> ended" where
  "close_pool r =
     (case r of
        Inr _ \<Rightarrow> ([], Exited 0)
      | Inl e \<Rightarrow>
          (case logic_error e of
             Some m \<Rightarrow> ([m], Exited 0)
           | None \<Rightarrow> ([], if e = Undefined then Uncaught Undefined else Exited (-1))))"

text \<open>The burst buffer of the root object, made on the first run, then initialised.\<close>

definition bb_setup :: "xalloc \<Rightarrow> bb_persistent option \<Rightarrow> bb_persistent \<times> burst_buffer res" where
  "bb_setup xalloc bb =
     (let p = (case bb of None \<Rightarrow> bb_persistent_new | Some p \<Rightarrow> p) in runtimeInitialize xalloc p)"

section \<open>\<open>pmemobj_atomic_ops\<close>\<close>

record inline_write_request =
  ir_offset :: int
  ir_size :: nat
  ir_data :: string

definition request_create :: "string \<times> int \<Rightarrow> inline_write_request" where
  "request_create arg = \<lparr>ir_offset = snd arg, ir_size = length (fst arg), ir_data = fst arg\<rparr>"

text \<open>The live objects of the pool and the three pointers of the root object.\<close>

record ops_pool =
  live :: "addr \<rightharpoonup> inline_write_request"
  ptrs :: "addr option list"

type_synonym ops_alloc = "(addr \<rightharpoonup> inline_write_request) \<Rightarrow> nat \<Rightarrow> int + addr"

definition request_makePersistentAtomic ::
  "ops_alloc \<Rightarrow> nat \<Rightarrow> string \<Rightarrow> int \<Rightarrow> ops_pool \<Rightarrow> ops_pool \<times> unit res" where
  "request_makePersistentAtomic xalloc k data offset p =
     (let req_capacity = 16 + length data in
      case xalloc (live p) req_capacity of
        Inl errno \<Rightarrow> (p, Inl (SystemError errno))
      | Inr a \<Rightarrow>
          (p\<lparr>live := (live p)(a \<mapsto> request_create (data, offset)), ptrs := (ptrs p)[k := Some a]\<rparr>, Inr ()))"

fun ops_allocs :: "ops_alloc \<Rightarrow> string \<Rightarrow> nat list \<Rightarrow> ops_pool \<Rightarrow> ops_pool \<times> unit res" where
  "ops_allocs xalloc data [] p = (p, Inr ())"
| "ops_allocs xalloc data (k # ks) p =
     (case request_makePersistentAtomic xalloc k data 0 p of
        (p', Inl e) \<Rightarrow> (p', Inl e)
      | (p', Inr _) \<Rightarrow> ops_allocs xalloc data ks p')"

text \<open>The transaction deletes the three objects; the pointers keep their values.\<close>

definition ops_delete :: "ops_pool \<Rightarrow> ops_pool \<times> unit res" where
  "ops_delete p =
     (if list_all (\<lambda>q. q \<noteq> None) (ptrs p)
      then (p\<lparr>live := live p |` (- set (map the (ptrs p)))\<rparr>, Inr ())
      else (p, Inl Undefined))"

definition ops_round :: "ops_alloc \<Rightarrow> string \<Rightarrow> ops_pool \<Rightarrow> ops_pool \<times> unit res" where
  "ops_round xalloc data p =
     (case ops_allocs xalloc data [0, 1, 2] p of
        (p', Inl e) \<Rightarrow> (p', Inl e)
      | (p', Inr _) \<Rightarrow> ops_delete p')"

text \<open>The endless loop ends only by an exception; \<open>n\<close> rounds of it.\<close>

fun ops_rounds :: "ops_alloc \<Rightarrow> string \<Rightarrow> nat \<Rightarrow> ops_pool \<Rightarrow> ops_pool \<times> unit res" where
  "ops_rounds xalloc data 0 p = (p, Inr ())"
| "ops_rounds xalloc data (Suc n) p =
     (case ops_round xalloc data p of
        (p', Inl e) \<Rightarrow> (p', Inl e)
      | (p', Inr _) \<Rightarrow> ops_rounds xalloc data n p')"

definition fresh_ops :: "ops_alloc \<Rightarrow> bool" where
  "fresh_ops xalloc \<longleftrightarrow> (\<forall>h n a. xalloc h n = Inr a \<longrightarrow> h a = None)"

lemma ops_round_frees:
  assumes "fresh_ops xalloc" "length (ptrs p) = 3" "ops_round xalloc data p = (p', r)"
  shows "length (ptrs p') = 3 \<and> r \<noteq> Inl Undefined \<and> (r = Inr () \<longrightarrow> live p' = live p)"
proof -
  have fr: "xalloc h n = Inr a \<Longrightarrow> h a = None" for h n a using assms(1) by (simp add: fresh_ops_def)
  obtain x y z where xs: "ptrs p = [x, y, z]"
    using assms(2) by (auto simp: numeral_3_eq_3 length_Suc_conv)
  show ?thesis
  proof (cases "ops_allocs xalloc data [0, 1, 2] p")
    case (Pair p1 r1)
    show ?thesis
    proof (cases r1)
      case (Inl e)
      with Pair assms(3) xs show ?thesis
        by (auto simp: ops_round_def request_makePersistentAtomic_def Let_def split: sum.splits)
    next
      case (Inr u)
      with Pair xs obtain a b c where abc: "live p a = None" "live p b = None" "live p c = None"
        "live p1 = (live p)(a \<mapsto> request_create (data, 0), b \<mapsto> request_create (data, 0), c \<mapsto> request_create (data, 0))"
        "ptrs p1 = [Some a, Some b, Some c]"
        by (auto simp: request_makePersistentAtomic_def Let_def split: sum.splits dest!: fr split: if_splits)
      then have "live p1 |` (- {a, b, c}) = live p"
        by (auto simp: restrict_map_def fun_eq_iff)
      with Pair Inr assms(3) abc show ?thesis by (auto simp: ops_round_def ops_delete_def)
    qed
  qed
qed

text \<open>Rounds that complete leave no object behind, and none is ever undefined.\<close>

lemma ops_rounds_no_leak:
  "\<lbrakk>fresh_ops xalloc; length (ptrs p) = 3; ops_rounds xalloc data n p = (p', r)\<rbrakk> \<Longrightarrow>
   r \<noteq> Inl Undefined \<and> (r = Inr () \<longrightarrow> live p' = live p)"
proof (induction n arbitrary: p)
  case (Suc n)
  obtain p1 r1 where 1: "ops_round xalloc data p = (p1, r1)" by fastforce
  note f = ops_round_frees [OF Suc.prems(1,2) 1]
  show ?case
  proof (cases r1)
    case (Inr u)
    with 1 Suc.prems have "ops_rounds xalloc data n p1 = (p', r)" by simp
    from Suc.IH [OF Suc.prems(1) _ this] f Inr show ?thesis by simp
  qed (use 1 Suc.prems f in auto)
qed auto

section \<open>\<open>mpsc_queue_bench\<close>\<close>

text \<open>
  The queue is library code: \<open>produce\<close> is \<open>try_produce\<close>, with its success, and \<open>consume\<close> is
  \<open>try_consume_batch\<close>, with the strings it hands to the callback, which prints them.
\<close>

definition values_to_produce :: "string list" where
  "values_to_produce = [''xxx'', ''aaaaaaa'', ''bbbbb'', ''cccc'', ''ddddddddddd'']"

fun produce_consume ::
  "(string \<Rightarrow> 'q \<Rightarrow> 'q \<times> bool) \<Rightarrow> ('q \<Rightarrow> 'q \<times> string list) \<Rightarrow> string list \<Rightarrow> 'q \<Rightarrow> 'q \<times> string list"
where
  "produce_consume produce consume [] q = (q, [])"
| "produce_consume produce consume (v # vs) q =
     (let (q, _) = produce v q; (q, out) = consume q;
          (q, out') = produce_consume produce consume vs q in (q, out @ out'))"

definition singleThreaded ::
  "(string \<Rightarrow> 'q \<Rightarrow> 'q \<times> bool) \<Rightarrow> ('q \<Rightarrow> 'q \<times> string list) \<Rightarrow> 'q \<Rightarrow> 'q \<times> string list"
where
  "singleThreaded produce consume q =
     (let (q, out) = consume q;
          (q, out') = produce_consume produce consume values_to_produce q;
          (q, _) = produce ''Left for next run'' q in (q, out @ out'))"

text \<open>
  The documented behaviour of the queue: it holds the strings produced and not yet consumed, also
  between runs; a string for which the log has no \<open>room\<close> is not produced; a batch is everything.
\<close>

definition mpsc_contract ::
  "(string \<Rightarrow> 'q \<Rightarrow> 'q \<times> bool) \<Rightarrow> ('q \<Rightarrow> 'q \<times> string list) \<Rightarrow> ('q \<Rightarrow> string list) \<Rightarrow>
   (string list \<Rightarrow> string \<Rightarrow> bool) \<Rightarrow> bool"
where
  "mpsc_contract produce consume held room \<longleftrightarrow>
     (\<forall>v q. held (fst (produce v q)) = (if room (held q) v then held q @ [v] else held q)) \<and>
     (\<forall>q. held (fst (consume q)) = [] \<and> snd (consume q) = held q)"

lemma produce_consume_empty:
  assumes "mpsc_contract produce consume held room"
  shows "held q = [] \<Longrightarrow> held (fst (produce_consume produce consume vs q)) = [] \<and>
     snd (produce_consume produce consume vs q) = filter (room []) vs"
proof (induction vs arbitrary: q)
  case (Cons v vs)
  have "held (fst (consume (fst (produce v q)))) = []" using assms by (simp add: mpsc_contract_def)
  from Cons.IH [OF this] Cons.prems assms show ?case
    by (simp add: case_prod_beta mpsc_contract_def)
qed simp

text \<open>
  Every run prints what the last one left and then its own values in order; a value that does not
  fit an empty log is dropped silently.
\<close>

lemma singleThreaded_prints:
  assumes "mpsc_contract produce consume held room"
  shows "held (fst (singleThreaded produce consume q)) =
     (if room [] ''Left for next run'' then [''Left for next run''] else []) \<and>
   snd (singleThreaded produce consume q) = held q @ filter (room []) values_to_produce"
proof -
  have "held (fst (consume q)) = []" using assms by (simp add: mpsc_contract_def)
  from produce_consume_empty [OF assms this, of values_to_produce] assms show ?thesis
    by (simp add: singleThreaded_def case_prod_beta mpsc_contract_def)
qed

text \<open>A log of bounded length satisfies the contract; two runs on it follow each other.\<close>

definition log_produce :: "nat \<Rightarrow> string \<Rightarrow> string list \<Rightarrow> string list \<times> bool" where
  "log_produce n v q = (if length (concat (q @ [v])) \<le> n then (q @ [v], True) else (q, False))"

lemma two_runs:
  "snd (singleThreaded (log_produce 1024) (\<lambda>q. ([], q))
     (fst (singleThreaded (log_produce 1024) (\<lambda>q. ([], q)) []))) =
   ''Left for next run'' # values_to_produce"
proof -
  have c: "mpsc_contract (log_produce 1024) (\<lambda>q. ([], q)) (\<lambda>q. q) (\<lambda>q v. length (concat (q @ [v])) \<le> 1024)"
    by (simp add: mpsc_contract_def log_produce_def)
  from singleThreaded_prints [OF c] show ?thesis by (simp add: values_to_produce_def)
qed

text \<open>
  The log of the root object is made on the first run, in a transaction; \<open>make_log\<close> is its constructor.
  The pool is represented by this pointer and what it points to.
\<close>

definition mpsc_init :: "('q option, unit) tx_run \<Rightarrow> (u64 \<Rightarrow> 'q res) \<Rightarrow> u64 \<Rightarrow> 'q option \<Rightarrow> 'q option \<times> unit res" where
  "mpsc_init run make_log queue_size root =
     (case root of
        Some q \<Rightarrow> (root, Inr ())
      | None \<Rightarrow> run (\<lambda>l. case make_log queue_size of Inl e \<Rightarrow> (l, Inl e) | Inr q \<Rightarrow> (Some q, Inr ())) root)"

definition mpsc_main ::
  "'q option pool_lib \<Rightarrow> ('q option, unit) tx_run \<Rightarrow> (u64 \<Rightarrow> 'q res) \<Rightarrow> (string \<Rightarrow> 'q \<Rightarrow> 'q \<times> bool) \<Rightarrow>
   ('q \<Rightarrow> 'q \<times> string list) \<Rightarrow> unit res \<Rightarrow> parsed \<Rightarrow> 'q option \<times> string list \<times> ended"
where
  "mpsc_main lib run make_log produce consume close r =
     (case mpsc_start lib r of
        Inl e \<Rightarrow> (None, [], e)
      | Inr (queue_size, root) \<Rightarrow>
          (case mpsc_init run make_log queue_size root of
             (root, Inl e) \<Rightarrow> (root, [], if e = Undefined then Uncaught Undefined else Exited (-1))
           | (None, Inr _) \<Rightarrow> (None, [], Uncaught Undefined)
           | (Some q, Inr _) \<Rightarrow>
               (let (q, out) = singleThreaded produce consume q; (err, e) = close_pool close in (Some q, out @ err, e))))"

text \<open>
  A run on a pool that holds a log prints what was left in it and its own values; a run that makes the
  log, which is empty then, prints its own values. Either leaves the same message to the next run.
\<close>

lemma mpsc_main_prints:
  assumes c: "mpsc_contract produce consume held room" and m: "tx_commits run" "make_log n = Inr q0" "held q0 = []"
    and st: "mpsc_start lib r = Inr (n, root)"
  shows "\<exists>q. mpsc_main lib run make_log produce consume (Inr ()) r =
      (Some q, (case root of None \<Rightarrow> [] | Some q1 \<Rightarrow> held q1) @ filter (room []) values_to_produce, Exited 0) \<and>
    held q = (if room [] ''Left for next run'' then [''Left for next run''] else [])"
proof -
  obtain q1 where init: "mpsc_init run make_log n root = (Some q1, Inr ())"
    and q1: "held q1 = (case root of None \<Rightarrow> [] | Some q1 \<Rightarrow> held q1)"
  proof (cases root)
    case None
    then have "mpsc_init run make_log n root = (Some q0, Inr ())"
      using tx_commits_run [OF m(1), of "\<lambda>l. case make_log n of Inl e \<Rightarrow> (l, Inl e) | Inr q \<Rightarrow> (Some q, Inr ())" root "Some q0" "()"]
      by (simp add: mpsc_init_def m(2))
    then show thesis using that None m(3) by simp
  qed (use that in \<open>simp add: mpsc_init_def\<close>)
  have "mpsc_main lib run make_log produce consume (Inr ()) r =
      (Some (fst (singleThreaded produce consume q1)), snd (singleThreaded produce consume q1), Exited 0)"
    by (simp add: mpsc_main_def st init close_pool_def case_prod_beta)
  with singleThreaded_prints [OF c, of q1] show ?thesis by (simp add: q1)
qed

end
