(* ===== verification/Pmemobj_Ctl.thy ===== *)
theory Pmemobj_Ctl
  imports Pool_Programs
begin

text \<open>
  Model of \<open>pmemobj_ctl\<close>: the arguments, the description of the allocation class that is registered,
  and the write and read of one object. The allocator, \<open>ctl_set\<close> and the random strings are
  parameters.
\<close>

section \<open>Arguments\<close>

definition ctl_defaults :: "(string \<times> string) list" where
  "ctl_defaults =
     [(''path'', ''./pmemobjbench.pool''), (''file_size'', ''1G''), (''unit'', ''512''), (''nunits'', ''1K''),
      (''align'', ''0''), (''header'', ''compact''), (''block'', ''512'')]"

record ctl_args =
  ctl_file_size :: u64
  ctl_block :: u64
  ctl_unit :: u64
  ctl_align :: u64
  ctl_nunits :: u64
  ctl_header :: string
  ctl_read :: bool
  ctl_write :: bool

definition ctl_parse :: "parsed \<Rightarrow> ended + ctl_args" where
  "ctl_parse r =
     (if opt_count r ''help'' \<noteq> 0 then Inl (Exited 0)
      else case
        catch_all
          (case prettyTo 1024 (opt_text r ''file_size'') of Inl e \<Rightarrow> Inl e | Inr f \<Rightarrow>
           case prettyTo 1024 (opt_text r ''block'') of Inl e \<Rightarrow> Inl e | Inr b \<Rightarrow>
           case prettyTo 1024 (opt_text r ''unit'') of Inl e \<Rightarrow> Inl e | Inr u \<Rightarrow>
           case prettyTo 1024 (opt_text r ''align'') of Inl e \<Rightarrow> Inl e | Inr a \<Rightarrow>
           case prettyTo 1024 (opt_text r ''nunits'') of Inl e \<Rightarrow> Inl e | Inr n \<Rightarrow>
             Inr \<lparr>ctl_file_size = f, ctl_block = b, ctl_unit = u, ctl_align = a, ctl_nunits = n,
                  ctl_header = opt_text r ''header'', ctl_read = opt_count r ''read'' \<noteq> 0,
                  ctl_write = opt_count r ''write'' \<noteq> 0\<rparr>)
        of Inl e \<Rightarrow> Inl e
         | Inr a \<Rightarrow> if \<not> ctl_read a \<and> \<not> ctl_write a then Inl (Exited 1) else Inr a)"

definition ctl_pool :: "'p pool_lib \<Rightarrow> string \<Rightarrow> ctl_args \<Rightarrow> ended + 'p" where
  "ctl_pool lib path a = catch_all (open_or_create lib path ''pmemobjbench'' (ctl_file_size a))"

section \<open>The allocation class\<close>

datatype header_type = HeaderCompact | HeaderNone

record alloc_class_desc =
  header_type :: header_type
  alignment :: u64
  unit_size :: u64
  units_per_block :: "32 word"
  class_id :: nat

text \<open>The number of units is cut to 32 bits.\<close>

definition ctl_desc :: "ctl_args \<Rightarrow> alloc_class_desc" where
  "ctl_desc a =
     \<lparr>header_type = (if ctl_header a = ''compact'' then HeaderCompact else HeaderNone),
      alignment = ctl_align a, unit_size = ctl_unit a, units_per_block = ucast (ctl_nunits a),
      class_id = 0\<rparr>"

section \<open>Write and read\<close>

text \<open>
  The root object: the length of its vector, and the usable bytes of the object in slot 0, if there
  is one. A failed allocation changes nothing.
\<close>

record ctl_root =
  nobjs :: nat
  obj0 :: "string option"

datatype ctl_out = ClassId nat | Wrote nat string | ReadBack string

definition ctl_memcpyConstructor :: "string \<Rightarrow> string \<Rightarrow> string" where
  "ctl_memcpyConstructor src dest = src @ drop (length src) dest"

definition ctl_write_obj :: "(nat \<Rightarrow> string option) \<Rightarrow> string \<Rightarrow> ctl_root \<Rightarrow> ctl_root \<times> (ended + ctl_out)" where
  "ctl_write_obj xalloc buffer root =
     (case xalloc (length buffer) of
        None \<Rightarrow> (root, Inl (Exited (-1)))
      | Some mem \<Rightarrow>
          let obj = ctl_memcpyConstructor buffer mem in
          (root\<lparr>obj0 := Some obj\<rparr>, Inr (Wrote (length obj) (take 16 buffer))))"

text \<open>The copy is of \<open>block_size\<close> bytes, whatever the object holds.\<close>

definition ctl_read_obj :: "nat \<Rightarrow> ctl_root \<Rightarrow> ended + ctl_out" where
  "ctl_read_obj bs root =
     (case obj0 root of
        None \<Rightarrow> if bs = 0 then Inr (ReadBack []) else Inl (Uncaught Undefined)
      | Some obj \<Rightarrow>
          if length obj < bs then Inl (Uncaught Undefined)
          else Inr (ReadBack (take 16 (take bs obj))))"

definition ctl_main ::
  "(alloc_class_desc \<Rightarrow> nat res) \<Rightarrow> (nat \<Rightarrow> string) \<Rightarrow> (nat \<Rightarrow> string option) \<Rightarrow> ctl_args \<Rightarrow> ctl_root \<Rightarrow>
   ctl_root \<times> ctl_out list \<times> ended"
where
  "ctl_main ctl_set rand xalloc a root =
     (case catch_all (ctl_set (ctl_desc a)) of
        Inl e \<Rightarrow> (root, [], e)
      | Inr i \<Rightarrow>
          let root = root\<lparr>nobjs := 100\<rparr>; buffer = rand (unat (ctl_block a));
              (root, w) = (if ctl_write a then (case ctl_write_obj xalloc buffer root of (r, x) \<Rightarrow> (r, Some x))
                           else (root, None)) in
          case w of
            Some (Inl e) \<Rightarrow> (root, [ClassId i], e)
          | _ \<Rightarrow>
              let out = ClassId i # (case w of Some (Inr x) \<Rightarrow> [x] | _ \<Rightarrow> []) in
              if ctl_read a
              then (case ctl_read_obj (unat (ctl_block a)) root of
                      Inl e \<Rightarrow> (root, out, e)
                    | Inr x \<Rightarrow> (root, out @ [x], Exited 0))
              else (root, out, Exited 0))"

section \<open>Property\<close>

text \<open>
  \<open>pmemobj_ctl\<close> reads back what it has written. With strings of the requested length and an
  allocator whose objects are large enough, a run that writes and reads shows the same first
  sixteen characters twice and succeeds, and a later run that only reads a block of the same size
  shows them again. A run that only reads a pool in which nothing was written, or a larger block
  than was allocated, copies from a null pointer or past the object.
\<close>

theorem ctl_write_read:
  assumes "\<And>n. length (rand n) = n" and "\<And>n mem. xalloc n = Some mem \<Longrightarrow> n \<le> length mem"
    and "ctl_set (ctl_desc a) = Inr i" and "xalloc (unat (ctl_block a)) = Some mem"
    and "0 < unat (ctl_block a)"
  shows "\<exists>root'. ctl_main ctl_set rand xalloc (a\<lparr>ctl_write := True, ctl_read := True\<rparr>) root =
      (root', [ClassId i, Wrote (length mem) (take 16 (rand (unat (ctl_block a)))),
               ReadBack (take 16 (rand (unat (ctl_block a))))], Exited 0) \<and>
    ctl_main ctl_set rand' xalloc (a\<lparr>ctl_write := False, ctl_read := True\<rparr>) root' =
      (root', [ClassId i, ReadBack (take 16 (rand (unat (ctl_block a))))], Exited 0) \<and>
    snd (snd (ctl_main ctl_set rand xalloc (a\<lparr>ctl_write := False, ctl_read := True\<rparr>) \<lparr>nobjs = n, obj0 = None\<rparr>)) =
      Uncaught Undefined"
proof -
  let ?n = "unat (ctl_block a)"
  have l: "length (rand ?n) = ?n" and m: "?n \<le> length mem" by (rule assms(1), rule assms(2) [OF assms(4)])
  have d: "ctl_desc (a\<lparr>ctl_write := w, ctl_read := True\<rparr>) = ctl_desc a" for w by (simp add: ctl_desc_def)
  let ?obj = "ctl_memcpyConstructor (rand ?n) mem"
  have o: "length ?obj = length mem" "take ?n ?obj = rand ?n"
    using l m by (simp_all add: ctl_memcpyConstructor_def)
  define root' where "root' = root\<lparr>nobjs := 100, obj0 := Some ?obj\<rparr>"
  have k: "root'\<lparr>nobjs := 100\<rparr> = root'" by (simp add: root'_def)
  have w: "ctl_write_obj xalloc (rand ?n) (root\<lparr>nobjs := 100\<rparr>) =
      (root', Inr (Wrote (length mem) (take 16 (rand ?n))))"
    using assms(4) l o by (simp add: ctl_write_obj_def root'_def)
  have r: "ctl_read_obj ?n root' = Inr (ReadBack (take 16 (rand ?n)))"
    using o m by (simp add: ctl_read_obj_def root'_def)
  show ?thesis
    using assms(3,5)
    by (intro exI [of _ root'])
       (simp add: ctl_main_def d catch_all_def Let_def w r k ctl_read_obj_def [of _ "\<lparr>nobjs = _, obj0 = None\<rparr>"])
qed

theorem ctl_write_read_witness:
  "\<exists>a root'. ctl_parse (command_line ctl_defaults [(''block'', ''4'')] [''write'', ''read'']) = Inr a \<and>
     ctl_main (\<lambda>_. Inr 7) (\<lambda>n. replicate n CHR ''q'') (\<lambda>n. Some (replicate (n + 3) CHR ''-''))
       a \<lparr>nobjs = 0, obj0 = None\<rparr> =
     (root', [ClassId 7, Wrote 7 ''qqqq'', ReadBack ''qqqq''], Exited 0)"
proof -
  let ?a = "\<lparr>ctl_file_size = 1024 * 1024 * 1024, ctl_block = 4, ctl_unit = 512, ctl_align = 0, ctl_nunits = 1024,
    ctl_header = ''compact'', ctl_read = True, ctl_write = True\<rparr> :: ctl_args"
  have a: "ctl_parse (command_line ctl_defaults [(''block'', ''4'')] [''write'', ''read'']) = Inr ?a"
    by (simp add: ctl_parse_def command_line_def ctl_defaults_def catch_all_def pretty_eval)
  have "\<exists>root'. ctl_main (\<lambda>_. Inr 7) (\<lambda>n. replicate n CHR ''q'') (\<lambda>n. Some (replicate (n + 3) CHR ''-''))
       (?a\<lparr>ctl_write := True, ctl_read := True\<rparr>) \<lparr>nobjs = 0, obj0 = None\<rparr> =
     (root', [ClassId 7, Wrote (length (replicate 7 CHR ''-'')) (take 16 (replicate (unat (ctl_block ?a)) CHR ''q'')),
       ReadBack (take 16 (replicate (unat (ctl_block ?a)) CHR ''q''))], Exited 0)"
    using ctl_write_read [of "\<lambda>n. replicate n CHR ''q''" "\<lambda>n. Some (replicate (n + 3) CHR ''-'')"
        "\<lambda>_. Inr 7" ?a 7 "replicate 7 CHR ''-''" "\<lparr>nobjs = 0, obj0 = None\<rparr>"]
    by fastforce
  moreover have "length (replicate 7 CHR ''-'') = 7" by simp
  moreover have "take 16 (replicate (unat (ctl_block ?a)) CHR ''q'') = ''qqqq''"
    by simp (simp add: numeral_eq_Suc)
  moreover have "?a\<lparr>ctl_write := True, ctl_read := True\<rparr> = ?a" by simp
  ultimately show ?thesis using a by metis
qed

end
