(* ===== verification/Byte_Memory.thy ===== *)
theory Byte_Memory
  imports Pmem
begin

text \<open>
  Bytes in persistent memory, as the C programs of \<open>ppm_ch3\<close>, \<open>ppm_ch6\<close> and \<open>ppm_ch7\<close> use them:
  strings that end in a null byte, and copies of a buffer into memory, byte by byte, with or without
  a flush, on the memory of theory \<open>Pmem\<close>.
\<close>

section \<open>C strings\<close>

abbreviation NUL :: char where "NUL \<equiv> CHR 0x00"

text \<open>\<open>strlen\<close> of a buffer: a buffer without a null byte is read past its end.\<close>

definition strlen :: "string \<Rightarrow> nat res" where
  "strlen b = (if NUL \<in> set b then Inr (length (takeWhile (\<lambda>c. c \<noteq> NUL) b)) else Inl Undefined)"

text \<open>\<open>char b[n] = s\<close>: the rest of the array is zero.\<close>

definition char_array :: "nat \<Rightarrow> string \<Rightarrow> string" where
  "char_array n s = s @ replicate (n - length s) NUL"

lemma strlen_char_array:
  assumes "NUL \<notin> set s" "length s < n"
  shows "strlen (char_array n s) = Inr (length s)" "length (char_array n s) = n"
    "take (length s) (char_array n s) = s"
proof -
  obtain k where k: "n - length s = Suc k" using assms(2) by (metis Suc_diff_Suc)
  have "takeWhile (\<lambda>c. c \<noteq> NUL) (s @ replicate (n - length s) NUL) = s"
    using assms(1) by (subst takeWhile_append2) (auto simp: k)
  then show "strlen (char_array n s) = Inr (length s)" by (auto simp: strlen_def char_array_def k)
qed (use assms in \<open>auto simp: char_array_def\<close>)

lemma strlen_le: "strlen b = Inr n \<Longrightarrow> n < length b"
proof -
  assume "strlen b = Inr n"
  then have "NUL \<in> set b" and n: "n = length (takeWhile (\<lambda>c. c \<noteq> NUL) b)"
    by (auto simp: strlen_def split: if_splits)
  then have "takeWhile (\<lambda>c. c \<noteq> NUL) b \<noteq> b" by (auto simp: takeWhile_eq_all_conv)
  moreover have "n \<le> length b" unfolding n by (rule length_takeWhile_le)
  ultimately show ?thesis
    unfolding n by (metis le_neq_implies_less takeWhile_eq_take take_all_iff order_refl)
qed

text \<open>A buffer whose \<open>strlen\<close> is \<open>n\<close> has a null byte at \<open>n\<close> and none before.\<close>

lemma strlen_nth:
  assumes "strlen b = Inr n"
  shows "b ! n = NUL" and "i < n \<Longrightarrow> b ! i \<noteq> NUL"
proof -
  have n: "n = length (takeWhile (\<lambda>c. c \<noteq> NUL) b)" using assms by (auto simp: strlen_def split: if_splits)
  show "b ! n = NUL" using nth_length_takeWhile [of "\<lambda>c. c \<noteq> NUL" b] strlen_le [OF assms] n by auto
  show "b ! i \<noteq> NUL" if "i < n"
    using that set_takeWhileD [of "b ! i" "\<lambda>c. c \<noteq> NUL" b] takeWhile_nth [of i "\<lambda>c. c \<noteq> NUL" b] n
    by (metis nth_mem)
qed

section \<open>Copies\<close>

text \<open>
  \<open>memcpy\<close> to the locations \<open>at 0\<close>, \<open>at 1\<close>, ... of the bytes of \<open>s\<close>, each stored as \<open>enc\<close> says, and
  the range a flush of the copy covers.
\<close>

definition memcpy_code :: "(nat \<Rightarrow> 'l) \<Rightarrow> (char \<Rightarrow> 'v) \<Rightarrow> string \<Rightarrow> ('l, 'v) instr list" where
  "memcpy_code at enc s = map (\<lambda>i. Store (at i) (enc (s ! i))) [0..<length s]"

definition region :: "(nat \<Rightarrow> 'l) \<Rightarrow> nat \<Rightarrow> 'l list" where
  "region at n = map at [0..<n]"

lemma memcpy_stores_in: "length s \<le> n \<Longrightarrow> stores_in (set (region at n)) (memcpy_code at enc s)"
  by (auto simp: stores_in_def memcpy_code_def region_def)

lemma memcpy_Store: "Store l x \<in> set (memcpy_code at enc s) \<longleftrightarrow> (\<exists>i<length s. l = at i \<and> x = enc (s ! i))"
  by (auto simp: memcpy_code_def)

lemma memcpy_crash:
  assumes "crashes_in (memcpy_code at enc s @ js) (quiescent m) m'" "inj at" "\<And>l x. Store l x \<notin> set js"
  shows "m' (at i) = m (at i) \<or> i < length s \<and> m' (at i) = enc (s ! i)"
    and "(\<And>i. i < length s \<Longrightarrow> l \<noteq> at i) \<Longrightarrow> m' l = m l"
proof -
  have c: "m' l = m l \<or> (\<exists>i<length s. l = at i \<and> m' l = enc (s ! i))" for l
    using crash_values [OF assms(1), of l] assms(3) by (simp add: memcpy_Store)
  show "m' (at i) = m (at i) \<or> i < length s \<and> m' (at i) = enc (s ! i)"
    using c [of "at i"] injD [OF assms(2), of i] by blast
  show "m' l = m l" if "\<And>i. i < length s \<Longrightarrow> l \<noteq> at i" using c [of l] that by blast
qed

lemma memcpy_visible_other:
  "(\<And>i. i < length s \<Longrightarrow> l \<noteq> at i) \<Longrightarrow> visible (exec (memcpy_code at enc s) t) l = visible t l"
  by (rule stores_in_exec(1) [OF memcpy_stores_in [OF order_refl]]) (fastforce simp: region_def)

lemma memcpy_visible_at:
  assumes "inj at"
  shows "visible (exec (memcpy_code at enc s) t) (at i) = (if i < length s then enc (s ! i) else visible t (at i))"
proof (cases "i < length s")
  case True
  have "distinct (map at [0..<length s])" using assms by (auto simp: distinct_map inj_on_def dest: injD)
  with True visible_stores [of at "[0..<length s]" i "\<lambda>i. enc (s ! i)" t] show ?thesis
    by (simp add: memcpy_code_def)
next
  case False
  then show ?thesis using assms by (auto dest: injD intro!: memcpy_visible_other)
qed

text \<open>A copy that is flushed: while it runs a byte is old or new, afterwards all are new, for good.\<close>

lemma memcpy_persist_quiescent:
  assumes "length s \<le> n"
  shows "exec (memcpy_code at enc s @ [Persist (region at n)]) (quiescent m) =
    quiescent (visible (exec (memcpy_code at enc s) (quiescent m)))"
  by (rule persist_quiescent) (rule memcpy_stores_in [OF assms])

end
