(* ===== verification/Pool_Writer.thy ===== *)
theory Pool_Writer
  imports Byte_Memory
begin

text \<open>
  Models of \<open>ppm_ch7_1\<close> (writes a string to the root object of a new pool), \<open>ppm_ch7_2\<close> (reads it
  back) and \<open>ppm_ch7_5\<close> (loads and shoots the six chambers of a paintball gun). Opening and creating
  pools and the allocator are parameters; the stores and flushes of the writer run on the memory of
  theory \<open>Pmem\<close>.
\<close>

section \<open>The root object\<close>

text \<open>
  \<open>struct my_root\<close>: an aligned 8-byte length, which reaches the medium as a whole, and 31 bytes.
\<close>

definition MAX_BUF_LEN :: nat where "MAX_BUF_LEN = 31"

datatype my_root = RLen | RBuf nat
datatype cell_value = SizeT (as_size: nat) | Byte (as_char: char)

text \<open>\<open>pmemobj_root\<close> returns a zeroed object the first time.\<close>

definition zero_root :: "my_root \<Rightarrow> cell_value" where
  "zero_root l = (case l of RLen \<Rightarrow> SizeT 0 | RBuf i \<Rightarrow> Byte NUL)"

definition root_buf :: "(my_root \<Rightarrow> cell_value) \<Rightarrow> string" where
  "root_buf m = map (\<lambda>i. as_char (m (RBuf i))) [0..<MAX_BUF_LEN]"

section \<open>The writer, \<open>ppm_ch7_1\<close>\<close>

datatype pool_out = Usage string | Perror string | Line string | Die string

text \<open>The length is stored and flushed first, then as many bytes of the string, without the null byte.\<close>

definition pwriter_code :: "string \<Rightarrow> (my_root, cell_value) instr list res" where
  "pwriter_code buf =
     (case strlen buf of
        Inl e \<Rightarrow> Inl e
      | Inr n \<Rightarrow> Inr (Store RLen (SizeT n) # Persist [RLen] #
                     memcpy_code RBuf Byte (take n buf) @ [Persist (region RBuf n)]))"

definition hello_buf :: string where
  "hello_buf = char_array MAX_BUF_LEN ''Hello PMEM World''"

text \<open>\<open>root_of\<close> is \<open>pmemobj_root\<close> and \<open>pmemobj_direct\<close>; a null result is used unchecked.\<close>

definition pwriter_main ::
  "(string \<Rightarrow> string \<Rightarrow> 'p option) \<Rightarrow> ('p \<Rightarrow> (my_root \<Rightarrow> cell_value) option) \<Rightarrow> string list \<Rightarrow>
   (my_root, cell_value) pmem option \<times> pool_out list \<times> ended"
where
  "pwriter_main create root_of argv =
     (if length argv \<noteq> 2 then (None, [Usage (concat (take 1 argv))], Exited 1)
      else case create (argv ! 1) ''rweg'' of
        None \<Rightarrow> (None, [Perror ''pmemobj_create''], Exited 1)
      | Some pop \<Rightarrow>
          (case root_of pop of
             None \<Rightarrow> (None, [], Uncaught Undefined)
           | Some m \<Rightarrow>
               (case pwriter_code hello_buf of
                  Inl e \<Rightarrow> (Some (quiescent m), [], Uncaught e)
                | Inr code \<Rightarrow> (Some (exec code (quiescent m)), [], Exited 0))))"

section \<open>The reader, \<open>ppm_ch7_2\<close>\<close>

definition preader_text :: "(my_root \<Rightarrow> cell_value) \<Rightarrow> string option res" where
  "preader_text m =
     (case strlen (root_buf m) of
        Inl e \<Rightarrow> Inl e
      | Inr n \<Rightarrow> Inr (if as_size (m RLen) = n then Some (take n (root_buf m)) else None))"

definition preader_main ::
  "(string \<Rightarrow> string \<Rightarrow> 'p option) \<Rightarrow> ('p \<Rightarrow> (my_root \<Rightarrow> cell_value) option) \<Rightarrow> string list \<Rightarrow>
   pool_out list \<times> ended"
where
  "preader_main open_pool root_of argv =
     (if length argv \<noteq> 2 then ([Usage (concat (take 1 argv))], Exited 1)
      else case open_pool (argv ! 1) ''rweg'' of
        None \<Rightarrow> ([Perror ''pmemobj_open''], Exited 1)
      | Some pop \<Rightarrow>
          (case root_of pop of
             None \<Rightarrow> ([], Uncaught Undefined)
           | Some m \<Rightarrow>
               (case preader_text m of
                  Inl e \<Rightarrow> ([], Uncaught e)
                | Inr t \<Rightarrow> (case t of None \<Rightarrow> [] | Some s \<Rightarrow> [Line s], Exited 0))))"

section \<open>The images a failure of the writer can leave\<close>

lemma inj_RBuf [simp]: "inj RBuf"
  by (auto simp: inj_def)

lemma length_root_buf [simp]: "length (root_buf m) = MAX_BUF_LEN"
  by (simp add: root_buf_def)

lemma root_buf_nth: "i < MAX_BUF_LEN \<Longrightarrow> root_buf m ! i = as_char (m (RBuf i))"
  by (simp add: root_buf_def)

lemma root_buf_cong: "(\<And>i. i < MAX_BUF_LEN \<Longrightarrow> m (RBuf i) = m' (RBuf i)) \<Longrightarrow> root_buf m = root_buf m'"
  by (simp add: root_buf_def)

lemma root_buf_zero: "(\<And>i. m (RBuf i) = Byte NUL) \<Longrightarrow> root_buf m = char_array MAX_BUF_LEN []"
  by (simp add: root_buf_def char_array_def map_replicate_const)

text \<open>A string is printed only if the whole of it has arrived.\<close>

lemma preader_text_Some:
  assumes "preader_text m = Inr (Some t)"
  shows "length t = as_size (m RLen)" "i < length t \<Longrightarrow> t ! i = as_char (m (RBuf i)) \<and> t ! i \<noteq> NUL"
proof -
  obtain n where n: "strlen (root_buf m) = Inr n" "as_size (m RLen) = n" "t = take n (root_buf m)"
    using assms by (auto simp: preader_text_def split: sum.splits if_splits)
  have l: "n < MAX_BUF_LEN" using strlen_le [OF n(1)] by simp
  show "length t = as_size (m RLen)" using n l by simp
  show "t ! i = as_char (m (RBuf i)) \<and> t ! i \<noteq> NUL" if "i < length t"
    using that n l strlen_nth(2) [OF n(1), of i] by (simp add: root_buf_nth)
qed

lemma preader_text_defined:
  "j < MAX_BUF_LEN \<Longrightarrow> m (RBuf j) = Byte NUL \<Longrightarrow> \<exists>t. preader_text m = Inr t"
proof -
  assume j: "j < MAX_BUF_LEN" "m (RBuf j) = Byte NUL"
  have "root_buf m ! j \<in> set (root_buf m)" using j(1) by (intro nth_mem) simp
  then have "NUL \<in> set (root_buf m)" using j by (simp add: root_buf_nth)
  then show ?thesis by (simp add: preader_text_def strlen_def)
qed

text \<open>The two phases of the writer: until the length is flushed, and the copy.\<close>

lemma pwriter_crash_phases:
  assumes "pwriter_code buf = Inr code" "crashes_in code (quiescent zero_root) m" "strlen buf = Inr n"
  shows "(\<forall>i. m (RBuf i) = Byte NUL \<or> i < n \<and> m RLen = SizeT n \<and> m (RBuf i) = Byte (buf ! i)) \<and>
    m RLen \<in> {SizeT 0, SizeT n}"
proof -
  let ?flush = "[Persist (region RBuf n)]" and ?copy = "memcpy_code RBuf Byte (take n buf)"
  define m1 where "m1 = zero_root(RLen := SizeT n)"
  have code: "code = [Store RLen (SizeT n)] @ Persist [RLen] # ?copy @ ?flush"
    using assms(1,3) by (simp add: pwriter_code_def)
  have n: "n < length buf" by (rule strlen_le [OF assms(3)])
  have "stores_in (set [RLen]) [Store RLen (SizeT n)]" by simp
  from flushed_block_crash [OF this, of "?copy @ ?flush" zero_root m] assms(2)
  consider "crashes_in [Store RLen (SizeT n)] (quiescent zero_root) m" | "crashes_in (?copy @ ?flush) (quiescent m1) m"
    unfolding code m1_def by auto
  then show ?thesis
  proof cases
    case 1
    then have "m RLen \<in> {SizeT 0, SizeT n}" "m (RBuf i) = Byte NUL" for i
      using crash_values [OF 1, of RLen] crash_values [OF 1, of "RBuf i"] by (auto simp: zero_root_def)
    then show ?thesis by simp
  next
    case 2
    have r: "m RLen = SizeT n"
      using memcpy_crash(2) [OF 2 inj_RBuf, of RLen] by (simp add: m1_def)
    have "m (RBuf i) = Byte NUL \<or> i < n \<and> m (RBuf i) = Byte (buf ! i)" for i
      using memcpy_crash(1) [OF 2 inj_RBuf, of i] n by (auto simp: m1_def zero_root_def)
    then show ?thesis using r by simp
  qed
qed

lemma pwriter_complete:
  assumes "pwriter_code buf = Inr code" "strlen buf = Inr n"
  shows "\<exists>m. exec code (quiescent zero_root) = quiescent m \<and> m RLen = SizeT n \<and>
    (\<forall>i. m (RBuf i) = Byte (if i < n then buf ! i else NUL))"
proof -
  let ?copy = "memcpy_code RBuf Byte (take n buf)"
  define m1 where "m1 = zero_root(RLen := SizeT n)"
  have n: "n < length buf" by (rule strlen_le [OF assms(2)])
  have "stores_in (set [RLen]) [Store RLen (SizeT n)]" by simp
  from persist_quiescent [OF this, of zero_root]
  have 1: "exec [Store RLen (SizeT n), Persist [RLen]] (quiescent zero_root) = quiescent m1"
    by (simp add: m1_def)
  have "code = [Store RLen (SizeT n), Persist [RLen]] @ ?copy @ [Persist (region RBuf n)]"
    using assms by (simp add: pwriter_code_def)
  then have "exec code (quiescent zero_root) = exec (?copy @ [Persist (region RBuf n)]) (quiescent m1)"
    by (simp only: exec_append 1)
  also have "\<dots> = quiescent (visible (exec ?copy (quiescent m1)))"
    by (rule memcpy_persist_quiescent) simp
  finally have "exec code (quiescent zero_root) = quiescent (visible (exec ?copy (quiescent m1)))" .
  moreover have "visible (exec ?copy (quiescent m1)) RLen = SizeT n"
    using memcpy_visible_other [of "take n buf" RLen RBuf Byte "quiescent m1"] by (simp add: m1_def)
  moreover have "visible (exec ?copy (quiescent m1)) (RBuf i) = Byte (if i < n then buf ! i else NUL)" for i
    using memcpy_visible_at [OF inj_RBuf, of Byte "take n buf" "quiescent m1" i] n
    by (simp add: m1_def zero_root_def)
  ultimately show ?thesis by blast
qed

section \<open>The paintball gun, \<open>ppm_ch7_5\<close>\<close>

text \<open>
  The root object holds six object identifiers, null or an allocated color. \<open>pmemobj_alloc\<close> and
  \<open>pmemobj_free\<close> are failure atomic: they set the identifier together with the allocation, so the
  states after a run are also the only ones a power failure can leave.
\<close>

type_synonym color = "32 word"
type_synonym paintball = "color option list"

definition paintball_new :: paintball where "paintball_new = replicate 6 None"

definition paintball_init :: "64 word \<Rightarrow> color" where
  "paintball_init now = and (ucast now) 0xffffff"

datatype shot = Reloading | Shooting color | Died string

text \<open>
  One run of the program. \<open>opened\<close> and \<open>created\<close> are the results of \<open>pmemobj_open\<close> and
  \<open>pmemobj_create\<close>, \<open>root_of\<close> of \<open>pmemobj_root\<close>, \<open>alloc_ok\<close> says whether the allocation succeeds,
  \<open>pid\<close> selects the chamber and \<open>now\<close> is the clock.
\<close>

definition paintball_main ::
  "bool \<Rightarrow> 'p option \<Rightarrow> 'p option \<Rightarrow> ('p \<Rightarrow> paintball option) \<Rightarrow> nat \<Rightarrow> 64 word \<Rightarrow>
   paintball option \<times> shot list \<times> ended"
where
  "paintball_main alloc_ok opened created root_of pid now =
     (case (case opened of Some p \<Rightarrow> Some p | None \<Rightarrow> created) of
        None \<Rightarrow> (None, [Died ''Couldn't open pool''], Exited 1)
      | Some pool \<Rightarrow>
     (case root_of pool of
        None \<Rightarrow> (None, [Died ''Couldn't access root object''], Exited 1)
      | Some gun \<Rightarrow>
          let chamber = pid mod 6 in
          (case gun ! chamber of
             None \<Rightarrow>
               if alloc_ok then (Some (gun[chamber := Some (paintball_init now)]), [Reloading], Exited 0)
               else (Some gun, [Reloading, Died ''Failed to alloc''], Exited 1)
           | Some c \<Rightarrow> (Some (gun[chamber := None]), [Shooting c], Exited 0))))"

text \<open>Runs one after the other on the same pool: the bullets loaded and the bullets shot, in order.\<close>

definition loaded :: "bool \<Rightarrow> nat \<Rightarrow> 64 word \<Rightarrow> paintball \<Rightarrow> color list" where
  "loaded ok pid now gun = (if gun ! (pid mod 6) = None \<and> ok then [paintball_init now] else [])"

definition shots :: "shot list \<Rightarrow> color list" where
  "shots out = concat (map (\<lambda>s. case s of Shooting c \<Rightarrow> [c] | _ \<Rightarrow> []) out)"

fun paintball_runs :: "(bool \<times> nat \<times> 64 word) list \<Rightarrow> paintball \<Rightarrow> paintball \<times> color list \<times> color list" where
  "paintball_runs [] gun = (gun, [], [])"
| "paintball_runs ((ok, pid, now) # rs) gun =
     (case paintball_main ok (Some gun) None Some pid now of
        (gun', out, _) \<Rightarrow>
          (case paintball_runs rs (the gun') of
             (g, ld, sh) \<Rightarrow> (g, loaded ok pid now gun @ ld, shots out @ sh)))"

definition bullets :: "paintball \<Rightarrow> color multiset" where
  "bullets gun = (\<Sum>x\<leftarrow>gun. case x of None \<Rightarrow> {#} | Some c \<Rightarrow> {#c#})"

lemma paintball_new_simps [simp]: "length paintball_new = 6" "bullets paintball_new = {#}"
  by (simp_all add: bullets_def paintball_new_def eval_nat_numeral)

lemma bullets_upd:
  "i < length gun \<Longrightarrow>
   bullets (gun[i := x]) + (case gun ! i of None \<Rightarrow> {#} | Some c \<Rightarrow> {#c#}) =
   bullets gun + (case x of None \<Rightarrow> {#} | Some c \<Rightarrow> {#c#})"
proof (induction gun arbitrary: i)
  case (Cons g gun)
  show ?case
  proof (cases i)
    case (Suc j)
    with Cons.prems Cons.IH [of j] show ?thesis by (simp add: bullets_def add.assoc)
  qed (simp add: bullets_def ac_simps)
qed simp

lemma paintball_run:
  assumes "length gun = 6"
  shows "\<exists>gun' out e. paintball_main ok (Some gun) None Some pid now = (Some gun', out, e) \<and> length gun' = 6 \<and>
    mset (shots out) + bullets gun' = mset (loaded ok pid now gun) + bullets gun \<and>
    set (loaded ok pid now gun) \<subseteq> range paintball_init"
proof -
  have i: "pid mod 6 < length gun" using assms by simp
  show ?thesis
    using bullets_upd [OF i, of None] bullets_upd [OF i, of "Some (paintball_init now)"] assms
    by (cases "gun ! (pid mod 6)") (simp_all add: paintball_main_def loaded_def shots_def)
qed

text \<open>The two programs one after the other, with whatever image the medium holds in between.\<close>

lemma pool_write_then_read:
  assumes "create f ''rweg'' = Some p" "root_of p = Some zero_root" "open_pool f ''rweg'' = Some p'"
    "root_of' p' = Some m" "pwriter_main create root_of [prog, f] = (Some s, out, e)" "crash_image s m"
    "strlen hello_buf = Inr 16"
  shows "e = Exited 0 \<and> preader_main open_pool root_of' [prog', f] = ([Line ''Hello PMEM World''], Exited 0)"
proof -
  obtain code where code: "pwriter_code hello_buf = Inr code" using assms(7) by (simp add: pwriter_code_def)
  then have s: "s = exec code (quiescent zero_root)" "e = Exited 0" using assms(1,2,5) by (simp_all add: pwriter_main_def)
  obtain m1 where m1: "exec code (quiescent zero_root) = quiescent m1" "m1 RLen = SizeT 16"
      "\<forall>i. m1 (RBuf i) = Byte (if i < 16 then hello_buf ! i else NUL)"
    using pwriter_complete [OF code assms(7)] by blast
  have m: "m = m1" using assms(6) s m1(1) by simp
  have "length hello_buf = 31" by (simp add: hello_buf_def char_array_def MAX_BUF_LEN_def)
  moreover have "hello_buf ! i = NUL" if "16 \<le> i" "i < 31" for i
    using that by (simp add: hello_buf_def char_array_def MAX_BUF_LEN_def nth_append nth_Cons')
  ultimately have "root_buf m = hello_buf"
    using m1(3) by (intro nth_equalityI) (auto simp: root_buf_nth m MAX_BUF_LEN_def not_less)
  moreover have "take 16 hello_buf = ''Hello PMEM World''" by (simp add: hello_buf_def char_array_def)
  ultimately have "preader_text m = Inr (Some ''Hello PMEM World'')"
    using m1(2) assms(7) by (simp add: preader_text_def m)
  then show ?thesis using s(2) assms(3,4) by (simp add: preader_main_def)
qed

section \<open>Property\<close>

text \<open>
  C22. Writer and reader agree, also across a power failure. Let the writer run on a new pool with a
  string shorter than the buffer. Whenever the power fails, and whatever part of the unflushed bytes
  has reached the medium, the reader does not read past its buffer and prints either nothing, or
  the whole string, or an empty line if the length had not been stored yet; it never prints a torn
  string. Once the writer has ended, the string is on the medium and the reader prints it.
\<close>

theorem pool_writer_crash:
  assumes "NUL \<notin> set s" "length s < MAX_BUF_LEN" "pwriter_code (char_array MAX_BUF_LEN s) = Inr code"
  shows "(crashes_in code (quiescent zero_root) m \<longrightarrow>
      preader_text m = Inr None \<or> preader_text m = Inr (Some s) \<or> preader_text m = Inr (Some []) \<and> m RLen = SizeT 0) \<and>
    (crash_image (exec code (quiescent zero_root)) m \<longrightarrow> preader_text m = Inr (Some s))"
proof (intro conjI impI)
  let ?n = "length s" and ?buf = "char_array MAX_BUF_LEN s"
  note len = strlen_char_array [OF assms(1,2)]
  have nth: "?buf ! i = s ! i" if "i < ?n" for i using that by (simp add: char_array_def nth_append)
  show "preader_text m = Inr None \<or> preader_text m = Inr (Some s) \<or> preader_text m = Inr (Some []) \<and> m RLen = SizeT 0"
    if "crashes_in code (quiescent zero_root) m"
  proof -
    note ph = pwriter_crash_phases [OF assms(3) that len(1)]
    have "m (RBuf ?n) = Byte NUL" using ph by auto
    then obtain t where t: "preader_text m = Inr t" using preader_text_defined [OF assms(2)] by blast
    show ?thesis
    proof (cases t)
      case (Some u)
      note u = preader_text_Some [OF t [unfolded Some]]
      show ?thesis
      proof (cases "m RLen = SizeT 0")
        case False
        then have l: "length u = ?n" using ph u(1) by auto
        have "u ! i = s ! i" if "i < ?n" for i
          using spec [OF conjunct1 [OF ph], of i] u(2) [of i] that l nth [OF that] by auto
        then have "u = s" using l by (intro nth_equalityI) auto
        then show ?thesis using t Some by simp
      qed (use t Some u(1) in simp)
    qed (use t in simp)
  qed
  show "preader_text m = Inr (Some s)" if "crash_image (exec code (quiescent zero_root)) m"
  proof -
    obtain m1 where m1: "exec code (quiescent zero_root) = quiescent m1" "m1 RLen = SizeT ?n"
      "\<forall>i. m1 (RBuf i) = Byte (if i < ?n then ?buf ! i else NUL)"
      using pwriter_complete [OF assms(3) len(1)] by blast
    have m: "m = m1" using that m1(1) by simp
    have "root_buf m = ?buf"
      using len(2) m1(3) assms(2)
      by (intro nth_equalityI) (auto simp: root_buf_nth m char_array_def nth_append)
    then show ?thesis using m1(2) len by (simp add: preader_text_def m)
  qed
qed

theorem pool_writer_crash_witness:
  "pwriter_code hello_buf = Inr (Store RLen (SizeT 16) # Persist [RLen] #
      memcpy_code RBuf Byte ''Hello PMEM World'' @ [Persist (region RBuf 16)]) \<and>
   preader_text (zero_root(RLen := SizeT 16, RBuf 0 := Byte (CHR ''H''))) \<noteq> Inr (Some ''H'') \<and>
   preader_text (visible (exec (Store RLen (SizeT 16) # Persist [RLen] #
      memcpy_code RBuf Byte ''Hello PMEM World'' @ [Persist (region RBuf 16)]) (quiescent zero_root))) =
     Inr (Some ''Hello PMEM World'')"
proof -
  let ?s = "''Hello PMEM World''"
  let ?c = "Store RLen (SizeT 16) # Persist [RLen] # memcpy_code RBuf Byte ?s @ [Persist (region RBuf 16)]"
  have s: "NUL \<notin> set ?s" "length ?s < MAX_BUF_LEN" by (simp_all add: MAX_BUF_LEN_def)
  have l: "strlen hello_buf = Inr 16" using strlen_char_array(1) [OF s] by (simp add: hello_buf_def)
  have c: "pwriter_code hello_buf = Inr ?c"
    using strlen_char_array [OF s] by (simp add: pwriter_code_def hello_buf_def eval_nat_numeral)
  note c' = c [unfolded hello_buf_def]
  obtain m where m: "exec ?c (quiescent zero_root) = quiescent m" using pwriter_complete [OF c l] by blast
  have q: "crash_image (exec ?c (quiescent zero_root)) (visible (exec ?c (quiescent zero_root)))"
    unfolding m by simp
  let ?torn = "zero_root(RLen := SizeT 16, RBuf 0 := Byte (CHR ''H''))"
  have "crash_image (exec (take 3 ?c) (quiescent zero_root)) ?torn"
    by (auto simp: memcpy_code_def upt_rec crash_image_def)
  then have k: "crashes_in ?c (quiescent zero_root) ?torn"
    unfolding crashes_in_def by (intro exI [of _ 3]) (simp add: memcpy_code_def)
  have "preader_text ?torn \<noteq> Inr (Some ''H'')"
    using pool_writer_crash [OF s c', of ?torn] k by auto
  then show ?thesis using c pool_writer_crash [OF s c'] q by blast
qed

text \<open>
  The paintball gun, over any sequence of runs with any process numbers, clock readings and
  failing allocations: the gun keeps its six chambers, every bullet that was loaded has been shot
  exactly once or is still in a chamber, and every color has only its low 24 bits set, so the six
  hexadecimal digits that are printed show all of it.
\<close>

theorem paintball_conserved:
  assumes "paintball_runs rs paintball_new = (gun, ld, sh)"
  shows "length gun = 6 \<and> mset sh + bullets gun = mset ld \<and> (\<Union>c \<in> set ld. {unat c}) \<subseteq> {..<2 ^ 24}"
proof -
  have low: "unat (paintball_init now) < 2 ^ 24" for now
  proof -
    have "paintball_init now = take_bit 24 (ucast now)"
      unfolding paintball_init_def by (simp add: take_bit_eq_mask mask_eq_exp_minus_1)
    then show ?thesis
      using take_bit_nat_less_exp [of 24 "unat (ucast now :: color)"] by (simp add: unsigned_take_bit_eq)
  qed
  have "length gun = 6 \<and> mset sh + bullets gun = mset ld + bullets g \<and> set ld \<subseteq> range paintball_init"
    if "length g = 6" "paintball_runs rs g = (gun, ld, sh)" for g
    using that
  proof (induction rs arbitrary: g ld sh)
    case (Cons r rs)
    obtain ok pid now where r: "r = (ok, pid, now)" by (cases r)
    from Cons.prems(1) obtain g1 out e where m: "paintball_main ok (Some g) None Some pid now = (Some g1, out, e)"
      "length g1 = 6" "mset (shots out) + bullets g1 = mset (loaded ok pid now g) + bullets g"
      "set (loaded ok pid now g) \<subseteq> range paintball_init" using paintball_run by blast
    obtain ld' sh' where rest: "paintball_runs rs g1 = (gun, ld', sh')"
      and ls: "ld = loaded ok pid now g @ ld'" "sh = shots out @ sh'"
      using Cons.prems(2) by (auto simp: r m(1) split: prod.splits)
    note IH = Cons.IH [OF m(2) rest]
    have "mset sh + bullets gun = mset (shots out) + (mset sh' + bullets gun)" by (simp add: ls)
    also have "\<dots> = mset (shots out) + bullets g1 + mset ld'" using IH by simp
    also have "\<dots> = mset ld + bullets g" using m(3) by (simp add: ls)
    finally show ?case using IH m(4) ls by simp
  qed simp
  from this [of paintball_new] assms have "length gun = 6" "mset sh + bullets gun = mset ld"
    "set ld \<subseteq> range paintball_init" by simp_all
  then show ?thesis using low by auto
qed

theorem paintball_conserved_witness:
  "\<exists>gun ld sh. paintball_runs [(True, 7, 0x1234567), (True, 2, 5), (True, 13, 9)] paintball_new = (gun, ld, sh) \<and>
     ld = [0x234567, 5] \<and> sh = [0x234567] \<and> mset sh + bullets gun = mset ld"
proof -
  let ?rs = "[(True, 7, 0x1234567), (True, 2, 5), (True, 13, 9)]"
  have r: "paintball_runs ?rs paintball_new = ([None, None, Some 5, None, None, None], [0x234567, 5], [0x234567])"
    by code_simp
  show ?thesis
    by (intro exI conjI, rule r) (use paintball_conserved [OF r] in \<open>simp_all only: conj_assoc simp_thms\<close>)
qed

end
