(* ===== verification/Mapped_Files.thy ===== *)
theory Mapped_Files
  imports Byte_Memory
begin

text \<open>
  The programs that write to a memory-mapped file: \<open>ppm_ch3_1\<close> (\<open>mmap\<close> and \<open>msync\<close>), \<open>ppm_ch3_7\<close> and
  \<open>ppm_ch6_1\<close> (libpmem). The mapping is a byte memory in the sense of theory \<open>Pmem\<close>; the system calls
  and libpmem are parameters. A file is the list of its bytes.
\<close>

section \<open>Mappings\<close>

type_synonym mapping = "(nat, char) pmem"

definition page_size :: nat where "page_size = 4096"

text \<open>The mapping of a file: its bytes, and zeros up to the end of the last page.\<close>

definition map_bytes :: "string \<Rightarrow> mapping" where
  "map_bytes f = quiescent (\<lambda>i. if i < length f then f ! i else NUL)"

definition mapped_bytes :: "nat \<Rightarrow> nat" where
  "mapped_bytes n = (n + page_size - 1) div page_size * page_size"

text \<open>The file of length \<open>n\<close> an image of the mapping stands for.\<close>

definition file_of :: "nat \<Rightarrow> (nat \<Rightarrow> char) \<Rightarrow> string" where
  "file_of n m = map m [0..<n]"

definition new_data :: string where
  "new_data = ''This is new data written to the file''"

datatype file_out = FUsage string | FErr string | FDone

section \<open>\<open>ppm_ch3_1\<close>\<close>

text \<open>
  \<open>open_rw\<close> gives the contents of the file, \<open>fstat_ok\<close>, \<open>mmap_ok\<close> and \<open>msync_ok\<close> say whether the
  call succeeds. The string is copied with its null byte; a copy past the last mapped page is
  undefined.
\<close>

definition mmap_main ::
  "(string \<Rightarrow> string option) \<Rightarrow> (string \<Rightarrow> bool) \<Rightarrow> (nat \<Rightarrow> bool) \<Rightarrow> bool \<Rightarrow> string list \<Rightarrow>
   mapping option \<times> file_out list \<times> ended"
where
  "mmap_main open_rw fstat_ok mmap_ok msync_ok argv =
     (if length argv \<noteq> 2 then (None, [FUsage (concat (take 1 argv))], Exited 1)
      else case open_rw (argv ! 1) of
        None \<Rightarrow> (None, [FErr ''open''], Exited 1)
      | Some f \<Rightarrow>
          if \<not> fstat_ok (argv ! 1) then (None, [FErr ''stat''], Exited 1)
          else if \<not> mmap_ok (length f) then (None, [FErr ''mmap''], Exited 1)
          else let src = new_data @ [NUL] in
               if mapped_bytes (length f) < length src then (None, [], Uncaught Undefined)
               else let s = exec (memcpy_code id id src) (map_bytes f) in
                    if msync_ok then (Some (exec [Persist (region id 4096)] s), [FDone], Exited 0)
                    else (Some s, [FErr ''msync''], Exited 1))"

section \<open>\<open>ppm_ch3_7\<close>\<close>

definition PMEM_LEN :: nat where "PMEM_LEN = 4096"

text \<open>
  \<open>map_file path n\<close> is \<open>pmem_map_file\<close> with \<open>PMEM_FILE_CREATE\<close>: the bytes of the mapping and \<open>is_pmem\<close>.
  The result of \<open>pmem_msync\<close> is ignored; where it fails nothing is flushed.
\<close>

definition flush_range :: "bool \<Rightarrow> bool \<Rightarrow> nat \<Rightarrow> (nat, char) instr list" where
  "flush_range is_pmem msync_ok n = (if is_pmem \<or> msync_ok then [Persist (region id n)] else [])"

definition pmem_main ::
  "(string \<Rightarrow> nat \<Rightarrow> (string \<times> bool) option) \<Rightarrow> bool \<Rightarrow> string list \<Rightarrow> mapping option \<times> file_out list \<times> ended"
where
  "pmem_main map_file msync_ok argv =
     (if length argv \<noteq> 2 then (None, [FUsage (concat (take 1 argv))], Exited 1)
      else case map_file (argv ! 1) PMEM_LEN of
        None \<Rightarrow> (None, [FErr ''pmem_map_file''], Exited 1)
      | Some (f, is_pmem) \<Rightarrow>
          let s = new_data @ [NUL] in
          if mapped_bytes (length f) < length s then (None, [], Uncaught Undefined)
          else (Some (exec (memcpy_code id id s @ flush_range is_pmem msync_ok (length s)) (map_bytes f)),
                [FDone], Exited 0))"

section \<open>\<open>ppm_ch6_1\<close>\<close>

definition BUF_LEN :: nat where "BUF_LEN = 4096"

text \<open>\<open>map_file\<close> now also has \<open>PMEM_FILE_EXCL\<close>; \<open>read_file fd n\<close> returns at most \<open>n\<close> bytes.\<close>

definition simple_copy_main ::
  "(string \<Rightarrow> 'fd option) \<Rightarrow> (string \<Rightarrow> nat \<Rightarrow> (string \<times> bool) option) \<Rightarrow> ('fd \<Rightarrow> nat \<Rightarrow> string option) \<Rightarrow>
   bool \<Rightarrow> string list \<Rightarrow> mapping option \<times> file_out list \<times> ended"
where
  "simple_copy_main open_ro map_file read_file msync_ok argv =
     (if length argv \<noteq> 3 then (None, [FUsage (concat (take 1 argv))], Exited 1)
      else case open_ro (argv ! 1) of
        None \<Rightarrow> (None, [FErr (argv ! 1)], Exited 1)
      | Some srcfd \<Rightarrow>
     (case map_file (argv ! 2) BUF_LEN of
        None \<Rightarrow> (None, [FErr ''pmem_map_file''], Exited 1)
      | Some (f, is_pmem) \<Rightarrow>
     (case read_file srcfd BUF_LEN of
        None \<Rightarrow> (Some (map_bytes f), [FErr ''read''], Exited 1)
      | Some buf \<Rightarrow>
          if mapped_bytes (length f) < length buf then (None, [], Uncaught Undefined)
          else (Some (exec (memcpy_code id id buf @ flush_range is_pmem msync_ok (length buf)) (map_bytes f)),
                [], Exited 0))))"

section \<open>What a copy leaves\<close>

text \<open>The file after the first bytes have been overwritten; it keeps its length.\<close>

definition overwrite :: "string \<Rightarrow> string \<Rightarrow> string" where
  "overwrite s f = take (length f) (s @ drop (length s) f)"

lemma length_overwrite [simp]: "length (overwrite s f) = length f"
  by (simp add: overwrite_def)

lemma overwrite_nth: "i < length f \<Longrightarrow> overwrite s f ! i = (if i < length s then s ! i else f ! i)"
  by (simp add: overwrite_def nth_append)

lemma overwrite_fits: "length s \<le> length f \<Longrightarrow> overwrite s f = s @ drop (length s) f"
  by (simp add: overwrite_def)

lemma file_of_map_bytes [simp]: "file_of (length f) (visible (map_bytes f)) = f"
  by (intro nth_equalityI) (simp_all add: file_of_def map_bytes_def)

lemma copy_visible: "file_of (length f) (visible (exec (memcpy_code id id s) (map_bytes f))) = overwrite s f"
proof (rule nth_equalityI)
  fix i assume "i < length (file_of (length f) (visible (exec (memcpy_code id id s) (map_bytes f))))"
  then have i: "i < length f" by (simp add: file_of_def)
  then show "file_of (length f) (visible (exec (memcpy_code id id s) (map_bytes f))) ! i = overwrite s f ! i"
    using memcpy_visible_at [of id id s "map_bytes f" i] by (simp add: file_of_def overwrite_nth map_bytes_def)
qed (simp add: file_of_def)

text \<open>A flush of at least the copied bytes makes the copy durable.\<close>

lemma copy_durable:
  assumes "length s \<le> n" "crash_image (exec (memcpy_code id id s @ [Persist (region id n)]) (map_bytes f)) m"
  shows "file_of (length f) m = overwrite s f"
  using assms copy_visible [of f s] memcpy_persist_quiescent [OF assms(1), of id id]
  by (simp add: map_bytes_def)

text \<open>Until then a power failure leaves every byte old or new, and nothing else is touched.\<close>

lemma copy_torn:
  assumes "crashes_in (memcpy_code id id s @ js) (map_bytes f) m" "\<And>l x. Store l x \<notin> set js" "i < length f"
  shows "file_of (length f) m ! i = f ! i \<or> i < length s \<and> file_of (length f) m ! i = s ! i"
  using memcpy_crash(1) [OF assms(1) [unfolded map_bytes_def] inj_on_id assms(2), of i] assms(3)
  by (simp add: file_of_def)

text \<open>Without a flush the medium may still hold the old file.\<close>

lemma copy_lost: "crash_image (exec (memcpy_code id id s) (map_bytes f)) (visible (map_bytes f))"
proof -
  have "visible (map_bytes f) l \<in> pending (exec (memcpy_code id id s) (map_bytes f)) l" for l
    by (rule pending_unflushed) (auto simp: memcpy_code_def map_bytes_def)
  then show ?thesis by (simp add: crash_image_def)
qed

lemma copy_arrives: "crash_image (exec is (map_bytes f)) (visible (exec is (map_bytes f)))"
  using visible_pending [of "map_bytes f"] by (simp add: crash_image_def map_bytes_def)

text \<open>The files a power failure after the copy can leave.\<close>

lemma flushed_files:
  assumes "length src \<le> n"
  shows "file_of (length f) (visible (exec (memcpy_code id id src @ [Persist (region id n)]) (map_bytes f))) =
      overwrite src f"
    and "{file_of (length f) m |m. crash_image (exec (memcpy_code id id src @ [Persist (region id n)]) (map_bytes f)) m} =
      {overwrite src f}"
proof -
  define s where "s = exec (memcpy_code id id src @ [Persist (region id n)]) (map_bytes f)"
  have vis: "file_of (length f) (visible s) = overwrite src f" by (simp add: s_def copy_visible)
  moreover have "crash_image s (visible s)" unfolding s_def by (rule copy_arrives)
  moreover have "file_of (length f) m = overwrite src f" if "crash_image s m" for m
    using copy_durable [OF assms, of f m] that by (simp add: s_def)
  ultimately show "{file_of (length f) m |m. crash_image s m} = {overwrite src f}"
    by (auto intro!: exI [of _ "visible s"])
  show "file_of (length f) (visible s) = overwrite src f" by (rule vis)
qed

lemma unflushed_files:
  "{f, overwrite src f} \<subseteq> {file_of (length f) m |m. crash_image (exec (memcpy_code id id src) (map_bytes f)) m}"
proof -
  define s where "s = exec (memcpy_code id id src) (map_bytes f)"
  have "crash_image s (visible (map_bytes f))" "crash_image s (visible s)"
    unfolding s_def by (rule copy_lost, rule copy_arrives)
  then have "file_of (length f) (visible (map_bytes f)) \<in> {file_of (length f) m |m. crash_image s m}"
    "file_of (length f) (visible s) \<in> {file_of (length f) m |m. crash_image s m}" by blast+
  then show ?thesis by (simp add: s_def copy_visible)
qed

lemma copy_files:
  fixes src f :: string and is_pmem msync_ok :: bool
  defines "s \<equiv> exec (memcpy_code id id src @ flush_range is_pmem msync_ok (length src)) (map_bytes f)"
  shows "file_of (length f) (visible s) = overwrite src f"
    and "if is_pmem \<or> msync_ok then {file_of (length f) m |m. crash_image s m} = {overwrite src f}
         else {f, overwrite src f} \<subseteq> {file_of (length f) m |m. crash_image s m}"
  using flushed_files [OF order_refl, of f src] unflushed_files [of f src] copy_visible [of f src]
  by (cases "is_pmem \<or> msync_ok"; simp only: s_def flush_range_def if_True if_False append_Nil2)+

lemma mapped_bytes_page: "0 < n \<Longrightarrow> page_size \<le> mapped_bytes n" "n \<le> mapped_bytes n"
proof -
  show "page_size \<le> mapped_bytes n" if "0 < n"
  proof -
    have "1 * page_size \<le> (n + page_size - 1) div page_size * page_size"
      using that by (intro mult_le_mono1) (simp add: page_size_def)
    then show ?thesis by (simp add: mapped_bytes_def)
  qed
  show "n \<le> mapped_bytes n"
    using div_mult_mod_eq [of "n + page_size - 1" page_size] mod_less_divisor [of page_size "n + page_size - 1"]
    by (simp add: mapped_bytes_def page_size_def)
qed

section \<open>Properties\<close>

text \<open>
  C33. \<open>ppm_ch6_1\<close> copies the first block of a file. If source and destination can be opened and
  read, the run exits with 0, and the destination holds the bytes read, followed by what the new
  file held before. If the destination is persistent memory, or \<open>msync\<close> succeeds, this is what every
  later power failure leaves. If \<open>msync\<close> fails the run exits with 0 as well, although a power failure
  can undo the whole copy. A failing read exits with 1 and leaves the new file as it was created.
\<close>

theorem simple_copy_durable:
  assumes "open_ro src = Some fd" "map_file dst BUF_LEN = Some (f, is_pmem)" "length f = BUF_LEN"
    and "\<And>buf. read_file fd BUF_LEN = Some buf \<Longrightarrow> length buf \<le> BUF_LEN"
  shows "case read_file fd BUF_LEN of
      None \<Rightarrow> simple_copy_main open_ro map_file read_file msync_ok [prog, src, dst] =
                (Some (map_bytes f), [FErr ''read''], Exited 1)
    | Some buf \<Rightarrow> \<exists>s. simple_copy_main open_ro map_file read_file msync_ok [prog, src, dst] = (Some s, [], Exited 0) \<and>
        file_of BUF_LEN (visible s) = buf @ drop (length buf) f \<and>
        (if is_pmem \<or> msync_ok
         then {file_of BUF_LEN m |m. crash_image s m} = {buf @ drop (length buf) f}
         else {f, buf @ drop (length buf) f} \<subseteq> {file_of BUF_LEN m |m. crash_image s m})"
proof (cases "read_file fd BUF_LEN")
  case (Some buf)
  let ?c = "memcpy_code id id buf" and ?n = "length buf"
  have n: "?n \<le> length f" using assms(3,4) Some by simp
  then have ov: "overwrite buf f = buf @ drop ?n f" by (rule overwrite_fits)
  have "\<not> mapped_bytes (length f) < ?n" using n mapped_bytes_page(2) [of "length f"] by linarith
  then have run: "simple_copy_main open_ro map_file read_file msync_ok [prog, src, dst] =
      (Some (exec (?c @ flush_range is_pmem msync_ok ?n) (map_bytes f)), [], Exited 0)"
    using assms(1,2) Some by (simp add: simple_copy_main_def)
  note files = copy_files [where src = buf and f = f and is_pmem = is_pmem and msync_ok = msync_ok, unfolded ov assms(3)]
  show ?thesis
    unfolding Some option.case by (intro exI conjI, rule run, rule files(1), rule files(2))
qed (use assms(1,2) in \<open>simp add: simple_copy_main_def\<close>)

theorem simple_copy_durable_witness:
  "\<exists>s. simple_copy_main (\<lambda>p. if p = ''a'' then Some (0 :: nat) else None)
      (\<lambda>p n. if p = ''b'' then Some (replicate n NUL, False) else None) (\<lambda>fd n. Some (take n ''xyz'')) False
      [''simple_copy'', ''a'', ''b''] = (Some s, [], Exited 0) \<and>
    {replicate 4096 NUL, ''xyz'' @ replicate 4093 NUL} \<subseteq> {file_of 4096 m |m. crash_image s m}"
  using simple_copy_durable [of "\<lambda>p. if p = ''a'' then Some (0 :: nat) else None" "''a''" 0
      "\<lambda>p n. if p = ''b'' then Some (replicate n NUL, False) else None" "''b''" "replicate 4096 NUL" False
      "\<lambda>fd n. Some (take n ''xyz'')" False "''simple_copy''"]
  by (simp add: BUF_LEN_def) blast

text \<open>
  \<open>ppm_ch3_1\<close> on a file that can be opened and mapped, whatever its length: the page that is
  mapped has room for the string even if the file has not, so nothing is undefined; a run that
  prints its message has overwritten the beginning of the file with the string and its null byte,
  as far as the file reaches, kept the length and the rest, and no later power failure changes
  that. If \<open>msync\<close> fails the run says so and exits with 1. At every moment before, a power failure
  leaves each byte old or new.
\<close>

theorem mmap_example_durable:
  assumes "open_rw path = Some f" "fstat_ok path" "mmap_ok (length f)" "\<not> mmap_ok 0"
  shows "\<exists>s. mmap_main open_rw fstat_ok mmap_ok msync_ok [prog, path] =
      (Some s, if msync_ok then [FDone] else [FErr ''msync''], Exited (if msync_ok then 0 else 1)) \<and>
    file_of (length f) (visible s) = overwrite (new_data @ [NUL]) f \<and>
    (if msync_ok then {file_of (length f) m |m. crash_image s m} = {overwrite (new_data @ [NUL]) f}
     else {f, overwrite (new_data @ [NUL]) f} \<subseteq> {file_of (length f) m |m. crash_image s m})"
proof -
  let ?src = "new_data @ [NUL]" and ?R = "region id 4096"
  let ?c = "memcpy_code id id ?src"
  have l: "length ?src = 37" by (simp add: new_data_def)
  have "0 < length f" using assms(3,4) by (cases f) auto
  then have "4096 \<le> mapped_bytes (length f)" using mapped_bytes_page(1) [of "length f"] by (simp add: page_size_def)
  then have run: "mmap_main open_rw fstat_ok mmap_ok msync_ok [prog, path] =
      (if msync_ok then (Some (exec (?c @ [Persist ?R]) (map_bytes f)), [FDone], Exited 0)
       else (Some (exec ?c (map_bytes f)), [FErr ''msync''], Exited 1))"
    using assms(1-3) l by (simp add: mmap_main_def Let_def)
  show ?thesis
  proof (cases msync_ok)
    case True
    have n: "length ?src \<le> 4096" using l by simp
    from True flushed_files [OF n, of f] run show ?thesis unfolding if_P [OF True] by blast
  next
    case False
    from False unflushed_files [of f ?src] copy_visible [of f ?src] run show ?thesis
      unfolding if_not_P [OF False] by blast
  qed
qed

theorem mmap_example_durable_witness:
  "\<exists>s. mmap_main (\<lambda>p. Some ''old file'') (\<lambda>p. True) (\<lambda>n. 0 < n) True [''mmap_example'', ''f''] =
      (Some s, [FDone], Exited 0) \<and> {file_of (length ''old file'') m |m. crash_image s m} = {''This is ''}"
proof -
  have "overwrite (new_data @ [NUL]) ''old file'' = ''This is ''" by (simp add: overwrite_def new_data_def)
  then show ?thesis
    using mmap_example_durable [of "\<lambda>p. Some ''old file''" "''f''" "''old file''" "\<lambda>p. True" "\<lambda>n. 0 < n" True
        "''mmap_example''"]
    unfolding if_True by auto
qed

end
