(* ===== verification/Program_Effects.thy ===== *)
theory Program_Effects
  imports Prelude
begin

text \<open>
  Straight-line programs with output: a program works on a state, prints, and goes on with a value or
  ends: by leaving \<open>main\<close> with a status, by a failed \<open>assert\<close>, by an exception, or by waiting for
  something that never comes (\<open>Blocked\<close>). Assertions are taken to be enabled.
  The programs on pmemkv, on containers and on Argobots are written in these combinators.
\<close>

section \<open>Combinators\<close>

datatype prog_end = Finished int | AssertFailed | Thrown exn | Blocked

type_synonym ('s, 'o, 'a) prog = "'s \<Rightarrow> 's \<times> 'o list \<times> (prog_end + 'a)"

definition ret :: "'a \<Rightarrow> ('s, 'o, 'a) prog" where
  "ret x s = (s, [], Inr x)"

definition halt :: "prog_end \<Rightarrow> ('s, 'o, 'a) prog" where
  "halt e s = (s, [], Inl e)"

definition emit :: "'o list \<Rightarrow> ('s, 'o, unit) prog" where
  "emit out s = (s, out, Inr ())"

text \<open>A call that changes the state and returns a value, and one that only reads it.\<close>

definition call :: "('s \<Rightarrow> 's \<times> 'a) \<Rightarrow> ('s, 'o, 'a) prog" where
  "call f s = (case f s of (s', x) \<Rightarrow> (s', [], Inr x))"

definition query :: "('s \<Rightarrow> 'a) \<Rightarrow> ('s, 'o, 'a) prog" where
  "query f s = (s, [], Inr (f s))"

text \<open>A call that may throw; nothing catches the exception.\<close>

definition attempt :: "('s \<Rightarrow> 's \<times> 'a res) \<Rightarrow> ('s, 'o, 'a) prog" where
  "attempt f s = (case f s of (s', Inl e) \<Rightarrow> (s', [], Inl (Thrown e)) | (s', Inr x) \<Rightarrow> (s', [], Inr x))"

definition bindp :: "('s, 'o, 'a) prog \<Rightarrow> ('a \<Rightarrow> ('s, 'o, 'b) prog) \<Rightarrow> ('s, 'o, 'b) prog" where
  "bindp p f s =
     (case p s of
        (s1, o1, Inl e) \<Rightarrow> (s1, o1, Inl e)
      | (s1, o1, Inr x) \<Rightarrow> (case f x s1 of (s2, o2, r) \<Rightarrow> (s2, o1 @ o2, r)))"

primrec block :: "('s, 'o, unit) prog list \<Rightarrow> ('s, 'o, unit) prog" where
  "block [] = ret ()"
| "block (p # ps) = bindp p (\<lambda>_. block ps)"

definition require :: "bool \<Rightarrow> ('s, 'o, unit) prog" where
  "require b = (if b then ret () else halt AssertFailed)"

text \<open>\<open>main\<close> falls off its end with the status 0.\<close>

definition run_main :: "('s, 'o, unit) prog \<Rightarrow> 's \<Rightarrow> 's \<times> 'o list \<times> prog_end" where
  "run_main p s = (case p s of (s', out, r) \<Rightarrow> (s', out, case r of Inl e \<Rightarrow> e | Inr _ \<Rightarrow> Finished 0))"

section \<open>Laws\<close>

lemmas prog_defs = ret_def halt_def emit_def call_def query_def attempt_def require_def bindp_def

lemma bindp_ret [simp]: "bindp (ret x) f = f x"
  by (rule ext) (simp add: bindp_def ret_def split: prod.splits)

lemma bindp_halt [simp]: "bindp (halt e) f = halt e"
  by (rule ext) (simp add: bindp_def halt_def)

lemma bindp_assoc: "bindp (bindp p f) g = bindp p (\<lambda>x. bindp (f x) g)"
  by (rule ext) (simp add: bindp_def split: prod.splits sum.splits)

lemma block_append: "block (ps @ qs) = bindp (block ps) (\<lambda>_. block qs)"
  by (induction ps) (simp_all add: bindp_assoc)

lemma bindp_step:
  "p s = (s1, o1, Inr x) \<Longrightarrow> bindp p f s = (case f x s1 of (s2, o2, r) \<Rightarrow> (s2, o1 @ o2, r))"
  "p s = (s1, o1, Inl e) \<Longrightarrow> bindp p f s = (s1, o1, Inl e)"
  by (simp_all add: bindp_def)

text \<open>When a program goes on, so have its parts.\<close>

lemma bindp_Inr_iff:
  "bindp p f s = (t, out, Inr y) \<longleftrightarrow>
   (\<exists>s1 o1 x o2. p s = (s1, o1, Inr x) \<and> f x s1 = (t, o2, Inr y) \<and> out = o1 @ o2)"
  by (auto simp: bindp_def split: prod.splits sum.splits)

lemma basic_Inr_iff:
  "ret x s = (t, out, Inr y) \<longleftrightarrow> t = s \<and> out = [] \<and> y = x"
  "halt e s = (t, out, Inr y) \<longleftrightarrow> False"
  "emit o1 s = (t, out, Inr u) \<longleftrightarrow> t = s \<and> out = o1"
  "call f s = (t, out, Inr x) \<longleftrightarrow> f s = (t, x) \<and> out = []"
  "query g s = (t, out, Inr x) \<longleftrightarrow> t = s \<and> x = g s \<and> out = []"
  "attempt h s = (t, out, Inr z) \<longleftrightarrow> h s = (t, Inr z) \<and> out = []"
  "require b s = (t, out, Inr u) \<longleftrightarrow> b \<and> t = s \<and> out = []"
  by (auto simp: prog_defs split: prod.splits sum.splits)

lemmas prog_Inr = bindp_Inr_iff basic_Inr_iff

text \<open>Programs that do not end in a given way.\<close>

definition avoids :: "prog_end \<Rightarrow> ('s, 'o, 'a) prog \<Rightarrow> bool" where
  "avoids e p \<longleftrightarrow> (\<forall>s. snd (snd (p s)) \<noteq> Inl e)"

lemma avoids_simps [simp]:
  "avoids e (ret x)" "avoids e (emit out)" "avoids e (call f)" "avoids e (query g)"
  "avoids e (halt e') \<longleftrightarrow> e' \<noteq> e" "avoids e (require b) \<longleftrightarrow> b \<or> e \<noteq> AssertFailed"
  by (auto simp: avoids_def prog_defs split: prod.splits)

lemma avoids_attempt [simp]: "\<forall>x. e \<noteq> Thrown x \<Longrightarrow> avoids e (attempt f)"
  by (auto simp: avoids_def attempt_def split: prod.splits sum.splits)

lemma avoids_bindp: "avoids e p \<Longrightarrow> (\<And>x. avoids e (f x)) \<Longrightarrow> avoids e (bindp p f)"
  by (auto simp: avoids_def bindp_def split: prod.splits sum.splits) (metis snd_conv)+

lemma avoids_block: "list_all (avoids e) ps \<Longrightarrow> avoids e (block ps)"
  by (induction ps) (auto intro: avoids_bindp)

lemma run_main_Finished:
  assumes "run_main p s = (s', out, Finished n)" "avoids (Finished n) p"
  shows "n = 0 \<and> p s = (s', out, Inr ())"
proof (cases "p s")
  case (fields s1 o1 r)
  moreover have "r \<noteq> Inl (Finished n)" using assms(2) fields unfolding avoids_def by (metis snd_conv)
  ultimately show ?thesis using assms(1) by (auto simp: run_main_def split: sum.splits)
qed

end
