(* ===== verification/Kv_Programs.thy ===== *)
theory Kv_Programs
  imports Program_Effects "HOL-Library.AList"
begin

text \<open>
  The programs on the key-value library pmemkv: \<open>pmemkv_1\<close>, \<open>ppm_ch1_1\<close> and \<open>ppm_ch9_2_phonebook\<close>
  with its \<open>config_setup\<close>. The library is a parameter, with its documented behaviour as a contract:
  what a call that returns \<open>OK\<close> has done. The state is everything the library keeps, files included.
\<close>

section \<open>The library\<close>

datatype status = Ok | NotFound | NotSupported | OtherError nat

record ('c, 's) kv_lib =
  cfg_new :: "'c option"
  cfg_put_string :: "'c \<Rightarrow> string \<Rightarrow> string \<Rightarrow> 'c \<times> status"
  cfg_put_uint64 :: "'c \<Rightarrow> string \<Rightarrow> u64 \<Rightarrow> 'c \<times> status"
  kv_open :: "string \<Rightarrow> 'c \<Rightarrow> 's \<Rightarrow> 's \<times> status"
  kv_put :: "string \<Rightarrow> string \<Rightarrow> 's \<Rightarrow> 's \<times> status"
  kv_count_all :: "'s \<Rightarrow> nat \<times> status"
  kv_get :: "string \<Rightarrow> 's \<Rightarrow> string \<times> status"
  kv_get_all :: "'s \<Rightarrow> (string \<times> string) list \<times> status"
  kv_defrag :: "nat \<Rightarrow> nat \<Rightarrow> 's \<Rightarrow> 's \<times> status"
  kv_remove :: "string \<Rightarrow> 's \<Rightarrow> 's \<times> status"
  kv_exists :: "string \<Rightarrow> 's \<Rightarrow> status"
  kv_get_above :: "string \<Rightarrow> 's \<Rightarrow> (string \<times> string) list \<times> status"
  errormsg :: string
  show_status :: "status \<Rightarrow> string"

text \<open>The contract: \<open>store s\<close> is the map an open database holds.\<close>

definition kv_contract :: "('c, 's) kv_lib \<Rightarrow> ('s \<Rightarrow> string \<rightharpoonup> string) \<Rightarrow> bool" where
  "kv_contract lib store \<longleftrightarrow>
     (\<forall>s. finite (dom (store s))) \<and>
     (\<forall>k v s s'. kv_put lib k v s = (s', Ok) \<longrightarrow> store s' = (store s)(k \<mapsto> v)) \<and>
     (\<forall>s n. kv_count_all lib s = (n, Ok) \<longrightarrow> n = card (dom (store s))) \<and>
     (\<forall>k s v. kv_get lib k s = (v, Ok) \<longrightarrow> store s k = Some v) \<and>
     (\<forall>s xs. kv_get_all lib s = (xs, Ok) \<longrightarrow> distinct (map fst xs) \<and> map_of xs = store s) \<and>
     (\<forall>a b s s'. kv_defrag lib a b s = (s', Ok) \<longrightarrow> store s' = store s) \<and>
     (\<forall>k s s'. kv_remove lib k s = (s', Ok) \<longrightarrow> store s' = (store s)(k := None)) \<and>
     (\<forall>k s. kv_exists lib k s = NotFound \<longrightarrow> store s k = None)"

text \<open>A library and a medium on which nothing fails; the engine \<open>cmap\<close> is not ordered.\<close>

definition kv_healthy :: "('c, 's) kv_lib \<Rightarrow> ('s \<Rightarrow> string \<rightharpoonup> string) \<Rightarrow> bool" where
  "kv_healthy lib store \<longleftrightarrow>
     cfg_new lib \<noteq> None \<and> (\<forall>c k v. snd (cfg_put_string lib c k v) = Ok) \<and>
     (\<forall>c k v. snd (cfg_put_uint64 lib c k v) = Ok) \<and>
     (\<forall>k v s. snd (kv_put lib k v s) = Ok) \<and> (\<forall>s. snd (kv_count_all lib s) = Ok) \<and>
     (\<forall>k s. store s k \<noteq> None \<longrightarrow> snd (kv_get lib k s) = Ok) \<and> (\<forall>s. snd (kv_get_all lib s) = Ok) \<and>
     (\<forall>a b s. snd (kv_defrag lib a b s) = Ok) \<and>
     (\<forall>k s. store s k \<noteq> None \<longrightarrow> snd (kv_remove lib k s) = Ok) \<and>
     (\<forall>k s. store s k = None \<longrightarrow> kv_exists lib k s = NotFound) \<and>
     (\<forall>k s. snd (kv_get_above lib k s) = NotSupported) \<and> show_status lib NotFound = ''NOT_FOUND (2)''"

datatype kv_io = Log string | Visited string | KeyValue string string | NamePhone string string | Error string

section \<open>\<open>pmemkv_1\<close>\<close>

text \<open>The macro \<open>ASSERT\<close> prints the error message of the library before the assertion fails.\<close>

definition ASSERT :: "('c, 's) kv_lib \<Rightarrow> bool \<Rightarrow> ('s, kv_io, unit) prog" where
  "ASSERT lib b = (if b then ret () else block [emit [Error (errormsg lib)], require False])"

definition kSize :: u64 where "kSize = 1024 * 1024 * 1024"

text \<open>\<open>put_path\<close>, \<open>put_size\<close> and \<open>put_force_create\<close> set the items of these names.\<close>

definition basic_config :: "('c, 's) kv_lib \<Rightarrow> 'c \<Rightarrow> string \<Rightarrow> ('s, kv_io, 'c) prog" where
  "basic_config lib c path =
     (let (c1, s1) = cfg_put_string lib c ''path'' path;
          (c2, s2) = cfg_put_uint64 lib c1 ''size'' kSize;
          (c3, s3) = cfg_put_uint64 lib c2 ''force_create'' 1 in
      bindp (ASSERT lib (s1 = Ok)) (\<lambda>_.
      bindp (ASSERT lib (s2 = Ok)) (\<lambda>_.
      bindp (ASSERT lib (s3 = Ok)) (\<lambda>_. ret c3))))"

definition checked :: "('c, 's) kv_lib \<Rightarrow> ('s \<Rightarrow> 's \<times> status) \<Rightarrow> ('s, kv_io, unit) prog" where
  "checked lib f = bindp (call f) (\<lambda>st. ASSERT lib (st = Ok))"

definition basic_ops :: "('c, 's) kv_lib \<Rightarrow> ('s, kv_io, unit) prog" where
  "basic_ops lib = block
     [emit [Log ''Putting new key''],
      checked lib (kv_put lib ''key1'' ''value1''),
      bindp (query (kv_count_all lib)) (\<lambda>(cnt, s). ASSERT lib (s = Ok \<and> cnt = 1)),
      emit [Log ''Reading key back''],
      bindp (query (kv_get lib ''key1'')) (\<lambda>(v, s). ASSERT lib (s = Ok \<and> v = ''value1'')),
      emit [Log ''Iterating existing keys''],
      checked lib (kv_put lib ''key2'' ''value2''),
      checked lib (kv_put lib ''key3'' ''value3''),
      bindp (query (kv_get_all lib)) (\<lambda>(xs, _). emit (map (\<lambda>(k, v). Visited k) xs)),
      emit [Log ''Defragmenting the database''],
      checked lib (kv_defrag lib 0 100),
      emit [Log ''Removing existing key''],
      checked lib (kv_remove lib ''key1''),
      bindp (query (kv_exists lib ''key1'')) (\<lambda>s. block
        [ASSERT lib (s = NotFound), emit [Log (show_status lib s)], require (show_status lib s = ''NOT_FOUND (2)'')]),
      emit [Log ''Closing database'']]"

definition kv_basic_main :: "('c, 's) kv_lib \<Rightarrow> 'c \<Rightarrow> string list \<Rightarrow> 's \<Rightarrow> 's \<times> kv_io list \<times> prog_end" where
  "kv_basic_main lib c argv = run_main
     (if length argv < 2 then block [emit [Error (''Usage: '' @ concat (take 1 argv) @ '' file'')], halt (Finished 1)]
      else block
        [emit [Log ''Creating config''],
         bindp (basic_config lib c (argv ! 1)) (\<lambda>cfg. block
           [emit [Log ''Opening pmemkv database with 'cmap' engine''],
            checked lib (kv_open lib ''cmap'' cfg), basic_ops lib])])"

section \<open>\<open>ppm_ch1_1\<close>\<close>

definition kvprint :: "string \<Rightarrow> string \<Rightarrow> kv_io" where
  "kvprint k v = KeyValue k v"

definition or_exit :: "('c, 's) kv_lib \<Rightarrow> bool \<Rightarrow> ('s, kv_io, unit) prog" where
  "or_exit lib b = (if b then ret () else block [emit [Error (errormsg lib)], halt (Finished 1)])"

definition or_exit_call :: "('c, 's) kv_lib \<Rightarrow> ('s \<Rightarrow> 's \<times> status) \<Rightarrow> ('s, kv_io, unit) prog" where
  "or_exit_call lib f = bindp (call f) (\<lambda>st. or_exit lib (st = Ok))"

definition ch1_config :: "('c, 's) kv_lib \<Rightarrow> 'c \<Rightarrow> string \<Rightarrow> ('s, kv_io, 'c) prog" where
  "ch1_config lib c path =
     (let (c1, s1) = cfg_put_string lib c ''path'' path;
          (c2, s2) = cfg_put_uint64 lib c1 ''force_create'' 1;
          (c3, s3) = cfg_put_uint64 lib c2 ''size'' (1024 * 1024 * 1024) in
      bindp (or_exit lib (s1 = Ok)) (\<lambda>_.
      bindp (or_exit lib (s2 = Ok)) (\<lambda>_.
      bindp (or_exit lib (s3 = Ok)) (\<lambda>_. ret c3))))"

definition ch1_ops :: "('c, 's) kv_lib \<Rightarrow> ('s, kv_io, unit) prog" where
  "ch1_ops lib = block
     [or_exit_call lib (kv_put lib ''key1'' ''value1''),
      or_exit_call lib (kv_put lib ''key2'' ''value2''),
      or_exit_call lib (kv_put lib ''key3'' ''value3''),
      bindp (query (kv_get_all lib)) (\<lambda>(xs, _). emit (map (\<lambda>(k, v). kvprint k v) xs))]"

definition PATH :: string where "PATH = ''/tmp/kvfile''"

definition ch1_main :: "('c, 's) kv_lib \<Rightarrow> 'c \<Rightarrow> 's \<Rightarrow> 's \<times> kv_io list \<times> prog_end" where
  "ch1_main lib c = run_main
     (bindp (ch1_config lib c PATH) (\<lambda>cfg. block
        [or_exit_call lib (kv_open lib ''cmap'' cfg), ch1_ops lib, halt (Finished 0)]))"

section \<open>\<open>ppm_ch9_2_phonebook\<close>\<close>

text \<open>\<open>config_setup\<close> returns null after printing the message of the library.\<close>

definition config_setup :: "('c, 's) kv_lib \<Rightarrow> string \<Rightarrow> u64 \<Rightarrow> u64 \<Rightarrow> ('s, kv_io, 'c option) prog" where
  "config_setup lib path fcreate size_cfg =
     (case cfg_new lib of
        None \<Rightarrow> halt AssertFailed
      | Some c \<Rightarrow>
          (case cfg_put_string lib c ''path'' path of (c1, s1) \<Rightarrow>
           if s1 \<noteq> Ok then bindp (emit [Error (errormsg lib)]) (\<lambda>_. ret None) else
           case cfg_put_uint64 lib c1 ''force_create'' fcreate of (c2, s2) \<Rightarrow>
           if s2 \<noteq> Ok then bindp (emit [Error (errormsg lib)]) (\<lambda>_. ret None) else
           case cfg_put_uint64 lib c2 ''size'' size_cfg of (c3, s3) \<Rightarrow>
           if s3 \<noteq> Ok then bindp (emit [Error (errormsg lib)]) (\<lambda>_. ret None) else ret (Some c3)))"

definition phonebook_ops :: "('c, 's) kv_lib \<Rightarrow> ('s, kv_io, unit) prog" where
  "phonebook_ops lib = block
     [or_exit_call lib (kv_put lib ''John'' ''123-456-789''),
      or_exit_call lib (kv_put lib ''Kate'' ''987-654-321''),
      bindp (query (kv_count_all lib)) (\<lambda>(cnt, s). block [or_exit lib (s = Ok), require (cnt = 2)]),
      bindp (query (kv_get lib ''John'')) (\<lambda>(number, s). block [or_exit lib (s = Ok), require (number = ''123-456-789'')]),
      bindp (query (kv_get_all lib)) (\<lambda>(xs, s). block
        [emit (map (\<lambda>(name, number). NamePhone name number) xs), or_exit lib (s = Ok)]),
      or_exit_call lib (kv_remove lib ''John''),
      bindp (query (kv_exists lib ''John'')) (\<lambda>s. require (s = NotFound)),
      bindp (query (kv_get_above lib ''John'')) (\<lambda>(xs, s). block
        [emit (map (\<lambda>_. Log ''This callback should never be called'') xs), require (s = NotSupported)])]"

definition phonebook_main :: "('c, 's) kv_lib \<Rightarrow> 's \<Rightarrow> 's \<times> kv_io list \<times> prog_end" where
  "phonebook_main lib = run_main
     (bindp (config_setup lib PATH 1 (1024 * 1024 * 1024)) (\<lambda>cfg.
        case cfg of
          None \<Rightarrow> halt AssertFailed
        | Some c \<Rightarrow> block [or_exit_call lib (kv_open lib ''cmap'' c), phonebook_ops lib]))"

section \<open>Single calls\<close>

lemma card_Un_eq_iff: "finite A \<Longrightarrow> finite D \<Longrightarrow> card (A \<union> D) = card A \<longleftrightarrow> D \<subseteq> A"
  by (metis Un_upper1 card_subset_eq finite_UnI sup.absorb_iff1)

lemmas kv_runs = ASSERT_def checked_def or_exit_def or_exit_call_def prog_defs

lemma kv_put_ok:
  assumes "kv_contract lib store" "kv_healthy lib store"
  obtains s' where "kv_put lib k v s = (s', Ok)" "store s' = (store s)(k \<mapsto> v)"
proof (cases "kv_put lib k v s")
  case (Pair s' st)
  moreover have "snd (kv_put lib k v s) = Ok" using assms(2) by (simp add: kv_healthy_def)
  ultimately have "kv_put lib k v s = (s', Ok)" by simp
  moreover from this have "store s' = (store s)(k \<mapsto> v)" using assms(1) by (simp add: kv_contract_def)
  ultimately show thesis by (rule that)
qed

lemma kv_count_ok:
  assumes "kv_contract lib store" "kv_healthy lib store"
  shows "kv_count_all lib s = (card (dom (store s)), Ok)"
proof (cases "kv_count_all lib s")
  case (Pair n st)
  moreover have "snd (kv_count_all lib s) = Ok" using assms(2) by (simp add: kv_healthy_def)
  ultimately have "kv_count_all lib s = (n, Ok)" by simp
  then show ?thesis using assms(1) by (simp add: kv_contract_def)
qed

lemma kv_get_ok:
  assumes "kv_contract lib store" "kv_healthy lib store" "store s k = Some v"
  shows "kv_get lib k s = (v, Ok)"
proof (cases "kv_get lib k s")
  case (Pair w st)
  moreover have "snd (kv_get lib k s) = Ok" using assms(2,3) by (simp add: kv_healthy_def)
  ultimately have "kv_get lib k s = (w, Ok)" by simp
  moreover from this have "store s k = Some w" using assms(1) by (simp add: kv_contract_def)
  ultimately show ?thesis using assms(3) by simp
qed

lemma kv_get_all_ok:
  assumes "kv_contract lib store" "kv_healthy lib store"
  obtains xs where "kv_get_all lib s = (xs, Ok)" "distinct (map fst xs)" "map_of xs = store s"
proof (cases "kv_get_all lib s")
  case (Pair xs st)
  moreover have "snd (kv_get_all lib s) = Ok" using assms(2) by (simp add: kv_healthy_def)
  ultimately have "kv_get_all lib s = (xs, Ok)" by simp
  moreover from this have "distinct (map fst xs) \<and> map_of xs = store s"
    using assms(1) by (simp add: kv_contract_def)
  ultimately show thesis using that by blast
qed

lemma kv_remove_ok:
  assumes "kv_contract lib store" "kv_healthy lib store" "store s k \<noteq> None"
  obtains s' where "kv_remove lib k s = (s', Ok)" "store s' = (store s)(k := None)"
    "kv_exists lib k s' = NotFound"
proof (cases "kv_remove lib k s")
  case (Pair s' st)
  moreover have "snd (kv_remove lib k s) = Ok" using assms(2,3) by (simp add: kv_healthy_def)
  ultimately have "kv_remove lib k s = (s', Ok)" by simp
  moreover from this have "store s' = (store s)(k := None)" using assms(1) by (simp add: kv_contract_def)
  moreover from this have "kv_exists lib k s' = NotFound" using assms(2) by (simp add: kv_healthy_def)
  ultimately show thesis by (rule that)
qed

lemma kv_defrag_ok:
  assumes "kv_contract lib store" "kv_healthy lib store"
  obtains s' where "kv_defrag lib a b s = (s', Ok)" "store s' = store s"
proof (cases "kv_defrag lib a b s")
  case (Pair s' st)
  moreover have "snd (kv_defrag lib a b s) = Ok" using assms(2) by (simp add: kv_healthy_def)
  ultimately have "kv_defrag lib a b s = (s', Ok)" by simp
  moreover from this have "store s' = store s" using assms(1) unfolding kv_contract_def by blast
  ultimately show thesis by (rule that)
qed

lemma kv_config_ok:
  assumes "kv_healthy lib store"
  shows "\<exists>cfg. basic_config lib c path s = (s, [], Inr cfg)" "\<exists>cfg. ch1_config lib c path s = (s, [], Inr cfg)"
    "\<exists>cfg. config_setup lib path f n s = (s, [], Inr (Some cfg))"
proof -
  have h: "snd (cfg_put_string lib c k v) = Ok" "snd (cfg_put_uint64 lib c k w) = Ok" "cfg_new lib \<noteq> None" for c k v w
    using assms by (simp_all add: kv_healthy_def)
  then show "\<exists>cfg. basic_config lib c path s = (s, [], Inr cfg)" "\<exists>cfg. ch1_config lib c path s = (s, [], Inr cfg)"
    "\<exists>cfg. config_setup lib path f n s = (s, [], Inr (Some cfg))"
    by (auto simp: basic_config_def ch1_config_def config_setup_def kv_runs case_prod_beta split: option.splits)
qed

section \<open>Whole runs\<close>

lemma basic_ops_fresh:
  assumes lib: "kv_contract lib store" "kv_healthy lib store" and d: "dom (store s) \<subseteq> {''key1''}"
  shows "\<exists>s' xs. basic_ops lib s = (s', [Log ''Putting new key'', Log ''Reading key back'', Log ''Iterating existing keys''] @
      map Visited xs @ [Log ''Defragmenting the database'', Log ''Removing existing key'', Log ''NOT_FOUND (2)'',
      Log ''Closing database''], Inr ()) \<and> mset xs = {#''key1'', ''key2'', ''key3''#} \<and>
    store s' = [''key2'' \<mapsto> ''value2'', ''key3'' \<mapsto> ''value3'']"
proof -
  obtain s1 where s1: "kv_put lib ''key1'' ''value1'' s = (s1, Ok)" "store s1 = (store s)(''key1'' \<mapsto> ''value1'')"
    using lib by (rule kv_put_ok)
  obtain s2 where s2: "kv_put lib ''key2'' ''value2'' s1 = (s2, Ok)" "store s2 = (store s1)(''key2'' \<mapsto> ''value2'')"
    using lib by (rule kv_put_ok)
  obtain s3 where s3: "kv_put lib ''key3'' ''value3'' s2 = (s3, Ok)" "store s3 = (store s2)(''key3'' \<mapsto> ''value3'')"
    using lib by (rule kv_put_ok)
  obtain xs where xs: "kv_get_all lib s3 = (xs, Ok)" "distinct (map fst xs)" "map_of xs = store s3"
    using lib by (rule kv_get_all_ok)
  obtain s4 where s4: "kv_defrag lib 0 100 s3 = (s4, Ok)" "store s4 = store s3" using lib by (rule kv_defrag_ok)
  have "store s4 ''key1'' \<noteq> None" by (simp add: s4 s3 s2 s1)
  with lib obtain s5 where s5: "kv_remove lib ''key1'' s4 = (s5, Ok)" "store s5 = (store s4)(''key1'' := None)"
    "kv_exists lib ''key1'' s5 = NotFound" by (rule kv_remove_ok)
  have st1: "store s1 = [''key1'' \<mapsto> ''value1'']" using d by (auto simp: s1 fun_eq_iff domIff)
  have cnt: "kv_count_all lib s1 = (1, Ok)" using kv_count_ok [OF lib, of s1] by (simp add: st1)
  have get: "kv_get lib ''key1'' s1 = (''value1'', Ok)" using kv_get_ok [OF lib] by (simp add: st1)
  have nf: "show_status lib NotFound = ''NOT_FOUND (2)''" using lib(2) by (simp add: kv_healthy_def)
  have "set (map fst xs) = {''key1'', ''key2'', ''key3''}"
    using arg_cong [OF xs(3), of dom] by (auto simp: dom_map_of_conv_image_fst s3 s2 st1)
  then have "mset (map fst xs) = mset_set {''key1'', ''key2'', ''key3''}"
    using xs(2) by (metis mset_set_set)
  then have ms: "mset (map fst xs) = {#''key1'', ''key2'', ''key3''#}" by simp
  have st5: "store s5 = [''key2'' \<mapsto> ''value2'', ''key3'' \<mapsto> ''value3'']"
    by (auto simp: s5 s4 s3 s2 st1 fun_eq_iff)
  have out: "map (\<lambda>(k, v). Visited k) xs = map Visited (map fst xs)" by (simp add: case_prod_beta)
  have "basic_ops lib s = (s5, [Log ''Putting new key'', Log ''Reading key back'', Log ''Iterating existing keys''] @
      map Visited (map fst xs) @ [Log ''Defragmenting the database'', Log ''Removing existing key'', Log ''NOT_FOUND (2)'',
      Log ''Closing database''], Inr ())"
    by (simp add: basic_ops_def kv_runs s1(1) s2(1) s3(1) s4(1) s5(1,3) xs(1) cnt get nf out del: map_map)
  then show ?thesis using ms st5 by blast
qed

lemma basic_ops_stale:
  assumes lib: "kv_contract lib store" "kv_healthy lib store" and d: "\<not> dom (store s) \<subseteq> {''key1''}"
  shows "\<exists>s'. basic_ops lib s = (s', [Log ''Putting new key'', Error (errormsg lib)], Inl AssertFailed) \<and>
    store s' = (store s)(''key1'' \<mapsto> ''value1'')"
proof -
  obtain s1 where s1: "kv_put lib ''key1'' ''value1'' s = (s1, Ok)" "store s1 = (store s)(''key1'' \<mapsto> ''value1'')"
    using lib by (rule kv_put_ok)
  have f: "finite (dom (store s))" using lib(1) by (simp add: kv_contract_def)
  have "card (dom (store s1)) \<noteq> 1"
    using card_Un_eq_iff [OF _ f, of "{''key1''}"] d by (simp add: s1 insert_is_Un [symmetric])
  with kv_count_ok [OF lib, of s1] s1 show ?thesis by (simp add: basic_ops_def kv_runs)
qed

lemma run_main_open:
  assumes "p s = (s, [], Inr cfg)" "kv_open lib ''cmap'' cfg s = (s1, Ok)"
  shows "run_main (bindp p (\<lambda>cfg. block [or_exit_call lib (kv_open lib ''cmap'' cfg), q])) s = run_main q s1"
    and "run_main (block [emit o1, bindp p (\<lambda>cfg. block [emit o2, checked lib (kv_open lib ''cmap'' cfg), q])]) s =
      (case run_main q s1 of (s', out, e) \<Rightarrow> (s', o1 @ o2 @ out, e))"
  using assms by (auto simp: run_main_def kv_runs split: prod.splits sum.splits)

lemma or_exit_Inr:
  "or_exit lib b s = (t, out, Inr u) \<longleftrightarrow> b \<and> t = s \<and> out = []"
  "or_exit_call lib f s = (t, out, Inr u) \<longleftrightarrow> f s = (t, Ok) \<and> out = []"
  by (auto simp: or_exit_def or_exit_call_def prog_Inr)

lemmas kv_Inr = or_exit_Inr prog_Inr

text \<open>\<open>ppm_ch1_1\<close> stores its three pairs and prints the whole database, what it held before included.\<close>

lemma ch1_main_result:
  assumes lib: "kv_contract lib store" "kv_healthy lib store" and o: "\<And>cfg. kv_open lib ''cmap'' cfg s = (s1, Ok)"
  shows "\<exists>s' xs. ch1_main lib c s = (s', map (\<lambda>(k, v). KeyValue k v) xs, Finished 0) \<and>
    distinct (map fst xs) \<and> map_of xs = store s' \<and>
    store s' = (store s1)(''key1'' \<mapsto> ''value1'', ''key2'' \<mapsto> ''value2'', ''key3'' \<mapsto> ''value3'')"
proof -
  obtain cfg where c: "ch1_config lib c PATH s = (s, [], Inr cfg)" using kv_config_ok(2) [OF lib(2)] by blast
  obtain t1 where t1: "kv_put lib ''key1'' ''value1'' s1 = (t1, Ok)" "store t1 = (store s1)(''key1'' \<mapsto> ''value1'')"
    using lib by (rule kv_put_ok)
  obtain t2 where t2: "kv_put lib ''key2'' ''value2'' t1 = (t2, Ok)" "store t2 = (store t1)(''key2'' \<mapsto> ''value2'')"
    using lib by (rule kv_put_ok)
  obtain t3 where t3: "kv_put lib ''key3'' ''value3'' t2 = (t3, Ok)" "store t3 = (store t2)(''key3'' \<mapsto> ''value3'')"
    using lib by (rule kv_put_ok)
  obtain xs where xs: "kv_get_all lib t3 = (xs, Ok)" "distinct (map fst xs)" "map_of xs = store t3"
    using lib by (rule kv_get_all_ok)
  have "ch1_main lib c s = (t3, map (\<lambda>(k, v). KeyValue k v) xs, Finished 0)"
    by (simp add: ch1_main_def ch1_ops_def run_main_def kv_runs c o t1(1) t2(1) t3(1) xs(1) kvprint_def)
  then show ?thesis using xs(2,3) t1(2) t2(2) t3(2) by auto
qed

lemma phonebook_avoids: "avoids (Finished 0) (phonebook_ops lib)"
  unfolding phonebook_ops_def
  by (rule avoids_block) (auto simp: or_exit_call_def or_exit_def intro!: avoids_bindp avoids_block)

lemma phonebook_ops_done:
  assumes lib: "kv_contract lib store" and run: "phonebook_ops lib s = (s', out, Inr ())"
  shows "card (insert ''Kate'' (insert ''John'' (dom (store s)))) = 2 \<and>
    store s' = (store s)(''John'' := None, ''Kate'' \<mapsto> ''987-654-321'')"
proof -
  obtain s1 s2 where s1: "kv_put lib ''John'' ''123-456-789'' s = (s1, Ok)"
    and s2: "kv_put lib ''Kate'' ''987-654-321'' s1 = (s2, Ok)"
    and n: "fst (kv_count_all lib s2) = 2" "snd (kv_count_all lib s2) = Ok"
    and r: "kv_remove lib ''John'' s2 = (s', Ok)"
    using run by (auto simp: phonebook_ops_def kv_Inr case_prod_beta)
  have st: "store s2 = (store s)(''John'' \<mapsto> ''123-456-789'', ''Kate'' \<mapsto> ''987-654-321'')"
    using lib s1 s2 by (simp add: kv_contract_def)
  moreover have "card (dom (store s2)) = 2" using lib n unfolding kv_contract_def by (metis prod.collapse)
  moreover have "store s' = (store s2)(''John'' := None)" using lib r by (simp add: kv_contract_def)
  ultimately have "store s' = (store s)(''John'' := None, ''Kate'' \<mapsto> ''987-654-321'')" by (auto simp: fun_eq_iff)
  moreover have "card (insert ''Kate'' (insert ''John'' (dom (store s)))) = 2"
    using \<open>card (dom (store s2)) = 2\<close> by (simp add: st)
  ultimately show ?thesis by blast
qed

lemma phonebook_ops_healthy:
  assumes lib: "kv_contract lib store" "kv_healthy lib store"
  shows "\<exists>s' out. phonebook_ops lib s =
    (s', out, if card (insert ''Kate'' (insert ''John'' (dom (store s)))) = 2 then Inr () else Inl AssertFailed)"
proof -
  obtain s1 where s1: "kv_put lib ''John'' ''123-456-789'' s = (s1, Ok)" "store s1 = (store s)(''John'' \<mapsto> ''123-456-789'')"
    using lib by (rule kv_put_ok)
  obtain s2 where s2: "kv_put lib ''Kate'' ''987-654-321'' s1 = (s2, Ok)" "store s2 = (store s1)(''Kate'' \<mapsto> ''987-654-321'')"
    using lib by (rule kv_put_ok)
  obtain xs where xs: "kv_get_all lib s2 = (xs, Ok)" using lib by (rule kv_get_all_ok)
  have j: "store s2 ''John'' = Some ''123-456-789''" by (simp add: s2 s1)
  then have "store s2 ''John'' \<noteq> None" by simp
  with lib obtain s3 where s3: "kv_remove lib ''John'' s2 = (s3, Ok)" "kv_exists lib ''John'' s3 = NotFound"
    by (rule kv_remove_ok)
  obtain ys where ys: "kv_get_above lib ''John'' s3 = (ys, NotSupported)"
    using lib(2) unfolding kv_healthy_def by (metis prod.collapse)
  have "kv_count_all lib s2 = (card (insert ''Kate'' (insert ''John'' (dom (store s)))), Ok)"
    using kv_count_ok [OF lib, of s2] by (simp add: s2 s1)
  with kv_get_ok [OF lib j] show ?thesis
    by (simp add: phonebook_ops_def kv_runs s1(1) s2(1) xs s3 ys)
qed

lemma config_setup_state:
  "\<exists>o1 c. config_setup lib path f n s = (s, o1, c) \<and> (c = Inl AssertFailed \<or> c = Inr None \<or> (\<exists>cfg. c = Inr (Some cfg)))"
  by (auto simp: config_setup_def prog_defs split: option.splits prod.splits)

text \<open>A library on an association list, for concrete runs.\<close>

definition assoc_kv :: "(unit, (string \<times> string) list) kv_lib" where
  "assoc_kv = \<lparr>cfg_new = Some (), cfg_put_string = (\<lambda>_ _ _. ((), Ok)), cfg_put_uint64 = (\<lambda>_ _ _. ((), Ok)),
     kv_open = (\<lambda>_ _ s. (s, Ok)), kv_put = (\<lambda>k v s. ((k, v) # s, Ok)),
     kv_count_all = (\<lambda>s. (length (remdups (map fst s)), Ok)),
     kv_get = (\<lambda>k s. case map_of s k of None \<Rightarrow> ([], NotFound) | Some v \<Rightarrow> (v, Ok)),
     kv_get_all = (\<lambda>s. (AList.clearjunk s, Ok)), kv_defrag = (\<lambda>_ _ s. (s, Ok)),
     kv_remove = (\<lambda>k s. (AList.delete k s, if map_of s k = None then NotFound else Ok)),
     kv_exists = (\<lambda>k s. if map_of s k = None then NotFound else Ok), kv_get_above = (\<lambda>_ _. ([], NotSupported)),
     errormsg = ''error'', show_status = (\<lambda>s. if s = NotFound then ''NOT_FOUND (2)'' else [])\<rparr>"

lemma assoc_kv_ok: "kv_contract assoc_kv map_of" "kv_healthy assoc_kv map_of"
proof -
  have "length (remdups (map fst s)) = card (dom (map_of s))" for s :: "(string \<times> string) list"
    by (simp add: dom_map_of_conv_image_fst length_remdups_card_conv)
  then show "kv_contract assoc_kv map_of"
    by (auto simp: kv_contract_def assoc_kv_def finite_dom_map_of distinct_clearjunk map_of_clearjunk delete_conv'
        split: option.splits if_splits)
  show "kv_healthy assoc_kv map_of" by (auto simp: kv_healthy_def assoc_kv_def)
qed

section \<open>Properties\<close>

text \<open>
  \<open>pmemkv_1\<close> on a library that keeps its contract and does not fail. Its assertions hold
  exactly if the database that is opened holds no key but \<open>key1\<close>: then the run ends with 0,
  visits each of its three keys once and leaves \<open>key2\<close> and \<open>key3\<close>. Otherwise it aborts at the
  count, with \<open>key1\<close> stored and everything else kept; a second run on a database that still holds
  what the first has left is such a run.
\<close>

theorem kv_basic_assertions:
  assumes "kv_contract lib store" "kv_healthy lib store" "\<And>cfg. kv_open lib ''cmap'' cfg s = (s1, Ok)"
  shows "case kv_basic_main lib c [prog, path] s of
    (s', out, e) \<Rightarrow>
      if dom (store s1) \<subseteq> {''key1''}
      then e = Finished 0 \<and> store s' = [''key2'' \<mapsto> ''value2'', ''key3'' \<mapsto> ''value3''] \<and>
           (\<exists>xs. filter (\<lambda>l. \<exists>k. l = Visited k) out = map Visited xs \<and> mset xs = {#''key1'', ''key2'', ''key3''#})
      else e = AssertFailed \<and> store s' = (store s1)(''key1'' \<mapsto> ''value1'')"
proof -
  obtain cfg where "basic_config lib c path s = (s, [], Inr cfg)" using kv_config_ok(1) [OF assms(2)] by blast
  from run_main_open(2) [of "basic_config lib c path" s cfg lib s1, OF this assms(3)]
  have main: "kv_basic_main lib c [prog, path] s = (case run_main (basic_ops lib) s1 of (s', out, e) \<Rightarrow>
      (s', [Log ''Creating config''] @ [Log ''Opening pmemkv database with 'cmap' engine''] @ out, e))"
    by (simp add: kv_basic_main_def)
  show ?thesis
  proof (cases "dom (store s1) \<subseteq> {''key1''}")
    case True
    have v: "filter (\<lambda>l. \<exists>k. l = Visited k) (map Visited xs) = map Visited xs" for xs
      by (induction xs) auto
    from basic_ops_fresh [OF assms(1,2) True] obtain s' xs out where
      "basic_ops lib s1 = (s', out, Inr ())" "store s' = [''key2'' \<mapsto> ''value2'', ''key3'' \<mapsto> ''value3'']"
      "filter (\<lambda>l. \<exists>k. l = Visited k) out = map Visited xs" "mset xs = {#''key1'', ''key2'', ''key3''#}"
      using v by auto
    then show ?thesis using True by (auto simp: main run_main_def)
  next
    case False
    from basic_ops_stale [OF assms(1,2) False] show ?thesis using False by (auto simp: main run_main_def)
  qed
qed

theorem kv_basic_assertions_witness:
  "snd (snd (kv_basic_main assoc_kv () [''pmemkv_basic'', ''f''] [(''key1'', ''old'')])) = Finished 0 \<and>
   map_of (fst (kv_basic_main assoc_kv () [''pmemkv_basic'', ''f''] [(''key1'', ''old'')])) =
     [''key2'' \<mapsto> ''value2'', ''key3'' \<mapsto> ''value3''] \<and>
   snd (snd (kv_basic_main assoc_kv () [''pmemkv_basic'', ''f''] [(''key2'', ''value2'')])) = AssertFailed"
proof -
  have o: "kv_open assoc_kv ''cmap'' cfg s = (s, Ok)" for cfg s by (simp add: assoc_kv_def)
  show ?thesis
    using kv_basic_assertions [OF assoc_kv_ok o, of "[(''key1'', ''old'')]" "()" "''pmemkv_basic''" "''f''"]
      kv_basic_assertions [OF assoc_kv_ok o, of "[(''key2'', ''value2'')]" "()" "''pmemkv_basic''" "''f''"]
    by (simp add: case_prod_beta)
qed

text \<open>
  C35. The phone book on a library that keeps its contract, whichever calls fail: a run that ends
  with 0 has found no other entries than its own two, and leaves exactly Kate's. If nothing fails
  the run ends with 0 or, where the database holds another entry, aborts at the count; the two
  programs on \<open>/tmp/kvfile\<close> disturb each other in this way.
\<close>

theorem phonebook_honest:
  assumes "kv_contract lib store" "\<And>cfg. kv_open lib ''cmap'' cfg s = (s1, Ok)"
    and "phonebook_main lib s = (s', out, e)"
  shows "(e = Finished 0 \<longrightarrow> dom (store s1) \<subseteq> {''John'', ''Kate''} \<and> store s' = [''Kate'' \<mapsto> ''987-654-321'']) \<and>
    (kv_healthy lib store \<longrightarrow> e = (if dom (store s1) \<subseteq> {''John'', ''Kate''} then Finished 0 else AssertFailed))"
proof -
  have fin: "finite (dom (store s1))" using assms(1) by (simp add: kv_contract_def)
  have two: "card (insert ''Kate'' (insert ''John'' (dom (store s1)))) = 2 \<longleftrightarrow> dom (store s1) \<subseteq> {''John'', ''Kate''}"
    using card_Un_eq_iff [OF _ fin, of "{''Kate'', ''John''}"] by (simp add: insert_commute numeral_2_eq_2)
  obtain c o1 where cfg: "config_setup lib PATH 1 (1024 * 1024 * 1024) s = (s, o1, c)"
    and c: "c = Inl AssertFailed \<or> c = Inr None \<or> (\<exists>cfg. c = Inr (Some cfg))"
    using config_setup_state [of lib PATH 1 "1024 * 1024 * 1024" s] by (elim exE conjE) (rule that)
  show ?thesis
  proof (cases "\<exists>cfg. c = Inr (Some cfg)")
    case True
    then have main: "phonebook_main lib s = (case run_main (phonebook_ops lib) s1 of (s', out, e) \<Rightarrow> (s', o1 @ out, e))"
      using cfg assms(2) by (auto simp: phonebook_main_def run_main_def kv_runs split: prod.splits sum.splits)
    then obtain out' where e: "run_main (phonebook_ops lib) s1 = (s', out', e)"
      using assms(3) by (auto split: prod.splits)
    have "dom (store s1) \<subseteq> {''John'', ''Kate''} \<and> store s' = [''Kate'' \<mapsto> ''987-654-321'']" if "e = Finished 0"
    proof -
      have "phonebook_ops lib s1 = (s', out', Inr ())"
        using run_main_Finished [OF e [unfolded that] phonebook_avoids] by simp
      from phonebook_ops_done [OF assms(1) this] two show ?thesis by (auto simp: fun_eq_iff domIff)
    qed
    moreover have "e = (if dom (store s1) \<subseteq> {''John'', ''Kate''} then Finished 0 else AssertFailed)" if "kv_healthy lib store"
    proof -
      note h = phonebook_ops_healthy [OF assms(1) that, of s1, unfolded two]
      obtain s2 o2 where "phonebook_ops lib s1 =
          (s2, o2, if dom (store s1) \<subseteq> {''John'', ''Kate''} then Inr () else Inl AssertFailed)"
        using h by blast
      then show ?thesis using e by (cases "dom (store s1) \<subseteq> {''John'', ''Kate''}") (simp_all add: run_main_def)
    qed
    ultimately show ?thesis by blast
  next
    case False
    then have "e = AssertFailed"
      using c cfg assms(3) by (auto simp: phonebook_main_def run_main_def prog_defs)
    moreover have "\<not> kv_healthy lib store"
    proof
      assume h: "kv_healthy lib store"
      obtain cfg' where "config_setup lib PATH 1 (1024 * 1024 * 1024) s = (s, [], Inr (Some cfg'))"
        using kv_config_ok(3) [OF h, where path = PATH and f = 1 and n = "1024 * 1024 * 1024" and s = s] by (elim exE) (rule that)
      with cfg False show False by simp
    qed
    ultimately show ?thesis by simp
  qed
qed

theorem phonebook_honest_witness:
  "\<exists>s' out. phonebook_main assoc_kv [(''John'', ''0'')] = (s', out, Finished 0) \<and> map_of s' = [''Kate'' \<mapsto> ''987-654-321'']"
proof -
  obtain s' out e where r: "phonebook_main assoc_kv [(''John'', ''0'')] = (s', out, e)" by (rule prod_cases3)
  have o: "kv_open assoc_kv ''cmap'' cfg s = (s, Ok)" for cfg s by (simp add: assoc_kv_def)
  show ?thesis using phonebook_honest [OF assoc_kv_ok(1) o r] assoc_kv_ok(2) r by auto
qed

end
