(* ===== verification/Container_Programs.thy ===== *)
theory Container_Programs
  imports Program_Effects Pmem
begin

text \<open>
  The examples of libpmemobj++: \<open>ppm_ch8_2\<close> (members with and without \<open>p<>\<close> in a transaction),
  \<open>ppm_ch8_3_allocation\<close> (transactional and atomic allocation), \<open>ppm_ch8_11_containers\<close> (a persistent
  vector) and \<open>ppm_ch10_11_vector_of_string\<close> (a vector in memkind's memory). Transactions, allocators
  and the vector are parameters.
\<close>

section \<open>\<open>ppm_ch8_2\<close>\<close>

text \<open>The members of \<open>bad_example\<close> and \<open>good_example\<close> in the root object.\<close>

datatype p_loc = SomeInt | SomeFloat | Pint | Pfloat

text \<open>
  The transaction. Only a member of a type \<open>p<>\<close> adds itself to the transaction: its old value is
  logged before the store and the member is flushed by the commit. The sum reads the value just
  stored.
\<close>

definition p_body :: "(p_loc, int) instr list" where
  "p_body = [Store SomeInt 10, Store Pint 10, Store Pint (10 + 1)]"

definition p_logged :: "p_loc list" where
  "p_logged = [Pint]"

text \<open>The medium after a power failure in the transaction and recovery, and after the commit.\<close>

definition p_interrupted :: "(p_loc \<Rightarrow> int) \<Rightarrow> (p_loc \<Rightarrow> int) \<Rightarrow> bool" where
  "p_interrupted m m' \<longleftrightarrow>
     (\<exists>m1. crashes_in p_body (quiescent m) m1 \<and> m' = (\<lambda>l. if l \<in> set p_logged then m l else m1 l))"

definition p_committed :: "(p_loc \<Rightarrow> int) \<Rightarrow> (p_loc, int) pmem" where
  "p_committed m = exec (p_body @ [Persist p_logged]) (quiescent m)"

section \<open>\<open>ppm_ch8_3_allocation\<close>\<close>

record my_data =
  data_a :: int
  data_b :: int

record alloc_pool =
  objs :: "addr \<rightharpoonup> my_data"
  mdata :: "addr option"

type_synonym data_alloc = "(addr \<rightharpoonup> my_data) \<Rightarrow> addr option"

definition my_data_new :: "int \<Rightarrow> int \<Rightarrow> my_data" where
  "my_data_new a b = \<lparr>data_a = a, data_b = b\<rparr>"

text \<open>\<open>make_persistent\<close> and \<open>make_persistent_atomic\<close>, each with the assignment of the pointer.\<close>

definition make_data :: "data_alloc \<Rightarrow> int \<Rightarrow> int \<Rightarrow> alloc_pool \<Rightarrow> alloc_pool \<times> unit res" where
  "make_data mk a b s =
     (case mk (objs s) of
        None \<Rightarrow> (s, Inl BadAlloc)
      | Some p \<Rightarrow> (s\<lparr>objs := (objs s)(p \<mapsto> my_data_new a b), mdata := Some p\<rparr>, Inr ()))"

definition delete_data :: "alloc_pool \<Rightarrow> alloc_pool \<times> unit res" where
  "delete_data s =
     (case mdata s of
        None \<Rightarrow> (s, Inr ())
      | Some p \<Rightarrow> if objs s p = None then (s, Inl Undefined) else (s\<lparr>objs := (objs s)(p := None)\<rparr>, Inr ()))"

definition allocation_main ::
  "(alloc_pool, unit) tx_run \<Rightarrow> data_alloc \<Rightarrow> alloc_pool res \<Rightarrow> alloc_pool option \<times> prog_end"
where
  "allocation_main run mk opened =
     (case opened of
        Inl e \<Rightarrow> (None, Thrown e)
      | Inr pool \<Rightarrow>
          (case run_main (block
             [attempt (run (make_data mk 1 2)), attempt (run delete_data), attempt (make_data mk 2 3)]) pool of
             (pool', _ :: unit list, e) \<Rightarrow> (Some pool', e)))"

fun allocation_runs :: "(alloc_pool, unit) tx_run \<Rightarrow> data_alloc \<Rightarrow> nat \<Rightarrow> alloc_pool \<Rightarrow> alloc_pool option" where
  "allocation_runs run mk 0 pool = Some pool"
| "allocation_runs run mk (Suc n) pool =
     (case allocation_main run mk (Inr pool) of
        (Some pool', Finished _) \<Rightarrow> allocation_runs run mk n pool'
      | _ \<Rightarrow> None)"

section \<open>\<open>ppm_ch8_11_containers\<close>\<close>

text \<open>
  \<open>pmem::obj::vector<int>\<close>: operations that may throw, element access, and what can be observed.
\<close>

record 'v vec_ops =
  v_new :: 'v
  v_data :: "'v \<Rightarrow> int list"
  v_capacity :: "'v \<Rightarrow> nat"
  v_reserve :: "nat \<Rightarrow> 'v \<Rightarrow> 'v res"
  v_assign :: "int list \<Rightarrow> 'v \<Rightarrow> 'v res"
  v_shrink_to_fit :: "'v \<Rightarrow> 'v res"
  v_push_back :: "int \<Rightarrow> 'v \<Rightarrow> 'v res"
  v_emplace :: "nat \<Rightarrow> int \<Rightarrow> 'v \<Rightarrow> 'v res"
  v_set :: "nat \<Rightarrow> int \<Rightarrow> 'v \<Rightarrow> 'v"

definition vec_contract :: "'v vec_ops \<Rightarrow> bool" where
  "vec_contract V \<longleftrightarrow>
     v_data V (v_new V) = [] \<and> v_capacity V (v_new V) = 0 \<and>
     (\<forall>n v v'. v_reserve V n v = Inr v' \<longrightarrow> v_data V v' = v_data V v \<and> v_capacity V v' = max n (v_capacity V v)) \<and>
     (\<forall>xs v v'. v_assign V xs v = Inr v' \<longrightarrow>
        v_data V v' = xs \<and> (length xs \<le> v_capacity V v \<longrightarrow> v_capacity V v' = v_capacity V v)) \<and>
     (\<forall>v v'. v_shrink_to_fit V v = Inr v' \<longrightarrow> v_data V v' = v_data V v \<and> v_capacity V v' = length (v_data V v)) \<and>
     (\<forall>x v v'. v_push_back V x v = Inr v' \<longrightarrow> v_data V v' = v_data V v @ [x]) \<and>
     (\<forall>i x v v'. i \<le> length (v_data V v) \<longrightarrow> v_emplace V i x v = Inr v' \<longrightarrow>
        v_data V v' = take i (v_data V v) @ x # drop i (v_data V v)) \<and>
     (\<forall>i x v. i < length (v_data V v) \<longrightarrow> v_data V (v_set V i x v) = (v_data V v)[i := x])"

text \<open>The pool: the live vectors and the pointer of the root object.\<close>

record 'v vec_pool =
  vecs :: "addr \<rightharpoonup> 'v"
  vec_p :: "addr option"

definition vec_make :: "((addr \<rightharpoonup> 'v) \<Rightarrow> addr option) \<Rightarrow> 'v vec_ops \<Rightarrow> 'v vec_pool \<Rightarrow> 'v vec_pool \<times> unit res" where
  "vec_make mk V s =
     (case mk (vecs s) of
        None \<Rightarrow> (s, Inl BadAlloc)
      | Some a \<Rightarrow> (s\<lparr>vecs := (vecs s)(a \<mapsto> v_new V), vec_p := Some a\<rparr>, Inr ()))"

definition pvector :: "'v vec_pool \<Rightarrow> 'v option" where
  "pvector s = (case vec_p s of None \<Rightarrow> None | Some a \<Rightarrow> vecs s a)"

text \<open>An operation on \<open>pvector\<close>, the vector the root object points to.\<close>

definition on_vec :: "('v \<Rightarrow> 'v res) \<Rightarrow> 'v vec_pool \<Rightarrow> 'v vec_pool \<times> unit res" where
  "on_vec f s =
     (case pvector s of
        None \<Rightarrow> (s, Inl Undefined)
      | Some v \<Rightarrow>
          (case f v of
             Inl e \<Rightarrow> (s, Inl e)
           | Inr v' \<Rightarrow> (s\<lparr>vecs := (vecs s)(the (vec_p s) \<mapsto> v')\<rparr>, Inr ())))"

definition vec_check :: "('v \<Rightarrow> bool res) \<Rightarrow> ('v vec_pool, string, unit) prog" where
  "vec_check P = bindp (query pvector) (\<lambda>v.
     case v of
       None \<Rightarrow> halt (Thrown Undefined)
     | Some v \<Rightarrow> (case P v of Inl e \<Rightarrow> halt (Thrown e) | Inr b \<Rightarrow> require b))"

definition vec_assert :: "('v \<Rightarrow> bool) \<Rightarrow> ('v vec_pool, string, unit) prog" where
  "vec_assert P = vec_check (\<lambda>v. Inr (P v))"

text \<open>\<open>assert(pvector.const_at(i) == x)\<close>; \<open>const_at\<close> throws outside the vector.\<close>

definition vec_assert_at :: "'v vec_ops \<Rightarrow> nat \<Rightarrow> int \<Rightarrow> ('v vec_pool, string, unit) prog" where
  "vec_assert_at V i x =
     vec_check (\<lambda>v. if i < length (v_data V v) then Inr (v_data V v ! i = x) else Inl (OutOfRange ''vector::const_at''))"

definition v_map :: "'v vec_ops \<Rightarrow> (int \<Rightarrow> int) \<Rightarrow> 'v \<Rightarrow> 'v" where
  "v_map V f v = fold (\<lambda>i w. v_set V i (f (v_data V w ! i)) w) [0..<length (v_data V v)] v"

definition v_sort :: "'v vec_ops \<Rightarrow> 'v \<Rightarrow> 'v" where
  "v_sort V v = fold (\<lambda>i w. v_set V i (sort (v_data V v) ! i) w) [0..<length (v_data V v)] v"

definition manual_tx_abort :: exn where
  "manual_tx_abort = RuntimeError ''manual_tx_abort''"

text \<open>
  The transaction that is aborted: three passes over the elements, a sort, the check of the elements,
  and the abort, which throws. A failed assertion ends the process in the middle.
\<close>

definition vec_tx_body :: "'v vec_ops \<Rightarrow> 'v vec_pool \<Rightarrow> 'v vec_pool \<times> prog_end res" where
  "vec_tx_body V s =
     (case on_vec (\<lambda>v. Inr (v_sort V (v_map V (\<lambda>e. e - 1) (v_map V (\<lambda>e. e + 2) (v_map V (\<lambda>e. e + 1) v))))) s of
        (s', Inl e) \<Rightarrow> (s', Inl e)
      | (s', Inr _) \<Rightarrow>
          (case pvector s' of
             None \<Rightarrow> (s', Inl Undefined)
           | Some v \<Rightarrow>
               if v_data V v = map (\<lambda>i. int i + 3) [0..<length (v_data V v)] then (s', Inl manual_tx_abort)
               else (s', Inr AssertFailed)))"

definition vec_tx :: "('v vec_pool, prog_end) tx_run \<Rightarrow> 'v vec_ops \<Rightarrow> ('v vec_pool, string, unit) prog" where
  "vec_tx run V = bindp (call (run (vec_tx_body V))) (\<lambda>r.
     case r of
       Inr e \<Rightarrow> halt e
     | Inl e \<Rightarrow> if e = manual_tx_abort then ret ()
              else if e = Undefined then halt (Thrown Undefined) else emit [''exception'']) "

definition vec_steps ::
  "('v vec_pool, prog_end) tx_run \<Rightarrow> 'v vec_ops \<Rightarrow> ('v vec_pool \<Rightarrow> 'v vec_pool \<times> unit res) \<Rightarrow>
   ('v vec_pool, string, unit) prog list"
where
  "vec_steps runb V delete_vec =
     [attempt (on_vec (v_reserve V 10)),
      vec_assert (\<lambda>v. length (v_data V v) = 0), vec_assert (\<lambda>v. v_capacity V v = 10),
      attempt (on_vec (v_assign V [0, 1, 2, 3, 4])),
      vec_assert (\<lambda>v. length (v_data V v) = 5), vec_assert (\<lambda>v. v_capacity V v = 10),
      attempt (on_vec (v_shrink_to_fit V)),
      vec_assert (\<lambda>v. length (v_data V v) = 5), vec_assert (\<lambda>v. v_capacity V v = 5),
      vec_assert (\<lambda>v. v_data V v = map int [0..<length (v_data V v)]),
      attempt (on_vec (v_push_back V 5)),
      vec_assert_at V 5 5, vec_assert (\<lambda>v. length (v_data V v) = 6),
      attempt (on_vec (\<lambda>v. v_emplace V 0 (last (v_data V v)) v)),
      vec_assert_at V 0 5,
      vec_assert (\<lambda>v. tl (v_data V v) = map (\<lambda>i. int i - 1) [1..<length (v_data V v)]),
      attempt (on_vec (v_assign V [5, 4, 3, 2, 1])),
      vec_tx runb V,
      vec_assert (\<lambda>v. v_data V v = [5, 4, 3, 2, 1]),
      bindp (call delete_vec) (\<lambda>r. if r = Inl Undefined then halt (Thrown Undefined) else ret ())]"

definition vec_ops_prog ::
  "('v vec_pool, unit) tx_run \<Rightarrow> ('v vec_pool, prog_end) tx_run \<Rightarrow> ((addr \<rightharpoonup> 'v) \<Rightarrow> addr option) \<Rightarrow> 'v vec_ops \<Rightarrow>
   ('v vec_pool \<Rightarrow> 'v vec_pool \<times> unit res) \<Rightarrow> ('v vec_pool, string, unit) prog"
where
  "vec_ops_prog run runb mk V delete_vec = block (attempt (run (vec_make mk V)) # vec_steps runb V delete_vec)"

text \<open>
  \<open>main\<close>: a failed \<open>open\<close> is only reported; \<open>root\<close> is then called on a pool that was never opened, which
  \<open>root_of None\<close> stands for.
\<close>

definition containers_main ::
  "('v vec_pool, unit) tx_run \<Rightarrow> ('v vec_pool, prog_end) tx_run \<Rightarrow> ((addr \<rightharpoonup> 'v) \<Rightarrow> addr option) \<Rightarrow> 'v vec_ops \<Rightarrow>
   ('v vec_pool \<Rightarrow> 'v vec_pool \<times> unit res) \<Rightarrow> (string \<Rightarrow> 'p option) \<Rightarrow> ('p option \<Rightarrow> 'v vec_pool res) \<Rightarrow>
   string list \<Rightarrow> 'v vec_pool option \<times> string list \<times> prog_end"
where
  "containers_main run runb mk V delete_vec open_pool root_of argv =
     (if length argv < 2 then (None, [''Usage''], Finished 1)
      else let pool = open_pool (argv ! 1);
               out = (if pool = None then [''pool_error'', ''To create pool run''] else []) in
           case root_of pool of
             Inl e \<Rightarrow> (None, out, Thrown e)
           | Inr s \<Rightarrow>
               (case run_main (vec_ops_prog run runb mk V delete_vec) s of (s', out', e) \<Rightarrow> (Some s', out @ out', e)))"

section \<open>\<open>ppm_ch10_11_vector_of_string\<close>\<close>

text \<open>The allocator's constructor and the insertions may throw.\<close>

definition vector_of_strings_main :: "'a res \<Rightarrow> (string \<Rightarrow> 'a \<Rightarrow> string list \<Rightarrow> string list res) \<Rightarrow> string list \<times> prog_end" where
  "vector_of_strings_main alc emplace_back =
     (case alc of Inl e \<Rightarrow> ([], Thrown e) | Inr al \<Rightarrow>
     (case emplace_back ''Foo'' al [] of Inl e \<Rightarrow> ([], Thrown e) | Inr v1 \<Rightarrow>
     (case emplace_back ''Bar'' al v1 of Inl e \<Rightarrow> ([], Thrown e) | Inr v2 \<Rightarrow> (v2, Finished 0))))"

section \<open>Lemmas\<close>

subsection \<open>Allocation\<close>

definition fresh_data :: "data_alloc \<Rightarrow> bool" where
  "fresh_data mk \<longleftrightarrow> (\<forall>h a. mk h = Some a \<longrightarrow> h a = None)"

text \<open>A run that ends has kept every object it found and added the one that is pointed to.\<close>

lemma allocation_run:
  assumes "fresh_data mk" "tx_atomic run" "allocation_main run mk (Inr pool) = (Some pool', Finished n)"
  shows "\<exists>a. objs pool a = None \<and> objs pool' = (objs pool)(a \<mapsto> my_data_new 2 3) \<and> mdata pool' = Some a"
proof -
  have tx: "run body s = (s', Inr r) \<Longrightarrow> body s = (s', Inr r)" for body s s' r
    using tx_atomic_cases [OF assms(2), of body s] by (metis Inl_Inr_False Pair_inject)
  obtain s1 s2 where s1: "run (make_data mk 1 2) pool = (s1, Inr ())" and s2: "run delete_data s1 = (s2, Inr ())"
    and s3: "make_data mk 2 3 s2 = (pool', Inr ())"
    using assms(3) by (auto simp: allocation_main_def run_main_def prog_defs split: prod.splits sum.splits)
  from tx [OF s1] obtain a where a: "mk (objs pool) = Some a" "objs s1 = (objs pool)(a \<mapsto> my_data_new 1 2)" "mdata s1 = Some a"
    by (auto simp: make_data_def split: option.splits)
  have fa: "objs pool a = None" using assms(1) a(1) by (simp add: fresh_data_def)
  with tx [OF s2] a have o2: "objs s2 = objs pool" by (auto simp: delete_data_def fun_eq_iff)
  from s3 obtain b where "mk (objs s2) = Some b" "objs pool' = (objs s2)(b \<mapsto> my_data_new 2 3)" "mdata pool' = Some b"
    by (auto simp: make_data_def split: option.splits)
  with o2 assms(1) show ?thesis by (auto simp: fresh_data_def)
qed

subsection \<open>Vectors\<close>

lemma v_fold_set:
  assumes "vec_contract V" "\<And>i w. g i w = v_set V i (h i (v_data V w ! i)) w" "n \<le> length (v_data V v)"
  shows "v_data V (fold g [0..<n] v) = map (\<lambda>i. h i (v_data V v ! i)) [0..<n] @ drop n (v_data V v)"
  using assms(3)
proof (induction n)
  case (Suc n)
  let ?d = "v_data V v" and ?w = "fold g [0..<n] v"
  have w: "v_data V ?w = map (\<lambda>i. h i (?d ! i)) [0..<n] @ drop n ?d" using Suc by simp
  have n: "v_data V ?w ! n = ?d ! n" "n < length (v_data V ?w)" using Suc.prems by (simp_all add: w nth_append)
  have "v_data V (g n ?w) = (v_data V ?w)[n := h n (?d ! n)]"
    using assms(1) n by (simp add: vec_contract_def assms(2))
  also have "\<dots> = map (\<lambda>i. h i (?d ! i)) [0..<n] @ (drop n ?d)[0 := h n (?d ! n)]"
    by (simp add: w list_update_append)
  also have "drop n ?d = ?d ! n # drop (Suc n) ?d" using Suc.prems by (simp add: Cons_nth_drop_Suc)
  finally show ?case by simp
qed simp

lemma v_map_data:
  assumes "vec_contract V"
  shows "v_data V (v_map V f v) = map f (v_data V v)"
proof -
  have "v_data V (v_map V f v) = map (\<lambda>i. f (v_data V v ! i)) [0..<length (v_data V v)]"
    unfolding v_map_def using v_fold_set [OF assms, of _ "\<lambda>i. f", OF refl order_refl] by simp
  also have "\<dots> = map f (v_data V v)" by (intro nth_equalityI) simp_all
  finally show ?thesis .
qed

lemma v_sort_data: "vec_contract V \<Longrightarrow> v_data V (v_sort V v) = sort (v_data V v)"
  using v_fold_set [of V _ "\<lambda>i _. sort (v_data V v) ! i" "length (v_data V v)" v] map_nth [of "sort (v_data V v)"]
  by (simp add: v_sort_def)

text \<open>
  The pool while the program runs: what it found, and one new vector. A result is good if no
  assertion has failed and, where the program has come to its end, the final vector satisfies \<open>Q\<close>.
\<close>

definition vec_state :: "'v vec_pool \<Rightarrow> addr \<Rightarrow> 'v \<Rightarrow> 'v vec_pool" where
  "vec_state s0 a v = s0\<lparr>vecs := (vecs s0)(a \<mapsto> v), vec_p := Some a\<rparr>"

definition good :: "('v \<Rightarrow> bool) \<Rightarrow> 'v vec_pool \<Rightarrow> addr \<Rightarrow> 'v vec_pool \<times> string list \<times> (prog_end + unit) \<Rightarrow> bool" where
  "good Q s0 a r = (case r of (s', out, Inr _) \<Rightarrow> \<exists>v. s' = vec_state s0 a v \<and> Q v | (s', out, Inl e) \<Rightarrow> \<exists>x. e = Thrown x)"

lemma pvector_state [simp]: "pvector (vec_state s0 a v) = Some v"
  by (simp add: pvector_def vec_state_def)

lemma on_vec_state: "on_vec f (vec_state s0 a v) =
    (case f v of Inl e \<Rightarrow> (vec_state s0 a v, Inl e) | Inr v' \<Rightarrow> (vec_state s0 a v', Inr ()))"
  unfolding on_vec_def pvector_state by (auto simp: vec_state_def split: sum.splits)

lemma good_on_vec:
  "(\<And>v'. f v = Inr v' \<Longrightarrow> good Q s0 a (block ps (vec_state s0 a v'))) \<Longrightarrow>
   good Q s0 a (block (attempt (on_vec f) # ps) (vec_state s0 a v))"
  by (cases "f v") (simp_all add: good_def prog_defs on_vec_state case_prod_beta)

lemma good_assert:
  "good Q s0 a (block ps (vec_state s0 a v)) \<Longrightarrow> P v \<Longrightarrow> good Q s0 a (block (vec_assert P # ps) (vec_state s0 a v))"
  by (simp add: good_def vec_assert_def vec_check_def prog_defs split: prod.splits sum.splits)

lemma good_assert_at:
  "good Q s0 a (block ps (vec_state s0 a v)) \<Longrightarrow> i < length (v_data V v) \<and> v_data V v ! i = x \<Longrightarrow>
   good Q s0 a (block (vec_assert_at V i x # ps) (vec_state s0 a v))"
  by (simp add: good_def vec_assert_at_def vec_check_def prog_defs split: prod.splits sum.splits)

text \<open>The transaction throws at its end, so the runner restores the vector.\<close>

lemma vec_tx_rolls_back:
  assumes "vec_contract V" "tx_atomic runb" "v_data V v = [5, 4, 3, 2, 1]"
  shows "runb (vec_tx_body V) (vec_state s0 a v) = (vec_state s0 a v, Inl manual_tx_abort)"
proof -
  define w where "w = v_sort V (v_map V (\<lambda>e. e - 1) (v_map V (\<lambda>e. e + 2) (v_map V (\<lambda>e. e + 1) v)))"
  have "v_data V w = [3, 4, 5, 6, 7]"
    by (simp add: w_def v_sort_data [OF assms(1)] v_map_data [OF assms(1)] assms(3))
  then have "vec_tx_body V (vec_state s0 a v) = (vec_state s0 a w, Inl manual_tx_abort)"
    by (simp add: vec_tx_body_def on_vec_state upt_rec flip: w_def)
  with assms(2) [unfolded tx_atomic_def, rule_format, of "vec_tx_body V" "vec_state s0 a v"] show ?thesis by simp
qed

lemma good_tx:
  assumes "vec_contract V" "tx_atomic runb" "v_data V v = [5, 4, 3, 2, 1]" "good Q s0 a (block ps (vec_state s0 a v))"
  shows "good Q s0 a (block (vec_tx runb V # ps) (vec_state s0 a v))"
  using assms(4) by (simp add: good_def vec_tx_def prog_defs vec_tx_rolls_back [OF assms(1-3)] case_prod_beta)

lemma vec_contractD:
  assumes "vec_contract V"
  shows "v_data V (v_new V) = []" "v_capacity V (v_new V) = 0"
    "v_reserve V n v = Inr v' \<Longrightarrow> v_data V v' = v_data V v \<and> v_capacity V v' = max n (v_capacity V v)"
    "v_assign V xs v = Inr v' \<Longrightarrow> v_data V v' = xs \<and> (length xs \<le> v_capacity V v \<longrightarrow> v_capacity V v' = v_capacity V v)"
    "v_shrink_to_fit V v = Inr v' \<Longrightarrow> v_data V v' = v_data V v \<and> v_capacity V v' = length (v_data V v)"
    "v_push_back V x v = Inr v' \<Longrightarrow> v_data V v' = v_data V v @ [x]"
    "v_emplace V 0 x v = Inr v' \<Longrightarrow> v_data V v' = x # v_data V v"
  using assms unfolding vec_contract_def by (blast | fastforce)+

lemma good_last:
  assumes "\<And>s. delete_vec s = (s, Inl (LogicError ''transaction_scope_error''))" "Q v"
  shows "good Q s0 a (block [bindp (call delete_vec) (\<lambda>r. if r = Inl Undefined then halt (Thrown Undefined) else ret ())]
    (vec_state s0 a v))"
  using assms(2) by (auto simp: good_def prog_defs assms(1))

lemma vec_steps_good:
  assumes V: "vec_contract V" and runb: "tx_atomic runb"
    and del: "\<And>s. delete_vec s = (s, Inl (LogicError ''transaction_scope_error''))"
  shows "good (\<lambda>v. v_data V v = [5, 4, 3, 2, 1]) s0 a (block (vec_steps runb V delete_vec) (vec_state s0 a (v_new V)))"
  unfolding vec_steps_def
proof (rule good_on_vec, goal_cases)
  case (1 v)
  then have v: "v_data V v = []" "v_capacity V v = 10" using vec_contractD(1-3) [OF V] by auto
  show ?case
  proof (rule good_assert, rule good_assert, rule good_on_vec, goal_cases)
    case (1 w)
    then have w: "v_data V w = [0, 1, 2, 3, 4]" "v_capacity V w = 10" using vec_contractD(4) [OF V] v by auto
    show ?case
    proof (rule good_assert, rule good_assert, rule good_on_vec, goal_cases)
      case (1 u)
      then have u: "v_data V u = [0, 1, 2, 3, 4]" "v_capacity V u = 5" using vec_contractD(5) [OF V] w by auto
      show ?case
      proof (rule good_assert, rule good_assert, rule good_assert, rule good_on_vec, goal_cases)
        case (1 t)
        then have t: "v_data V t = [0, 1, 2, 3, 4, 5]" using vec_contractD(6) [OF V] u by auto
        show ?case
        proof (rule good_assert_at, rule good_assert, rule good_on_vec, goal_cases)
          case (1 r)
          then have r: "v_data V r = [5, 0, 1, 2, 3, 4, 5]" using vec_contractD(7) [OF V] t by auto
          show ?case
          proof (rule good_assert_at, rule good_assert, rule good_on_vec, goal_cases)
            case (1 q)
            then have q: "v_data V q = [5, 4, 3, 2, 1]" using vec_contractD(4) [OF V] by auto
            then show ?case by (intro good_tx [OF V runb] good_assert good_last [OF del])
          qed (simp_all add: r upt_rec)
        qed (simp_all add: t upt_rec)
      qed (simp_all add: u upt_rec)
    qed (simp_all add: w)
  qed (simp_all add: v)
qed

text \<open>A vector as a list with its capacity, for concrete runs.\<close>

definition list_vec :: "(int list \<times> nat) vec_ops" where
  "list_vec = \<lparr>v_new = ([], 0), v_data = fst, v_capacity = snd, v_reserve = (\<lambda>n (xs, c). Inr (xs, max n c)),
     v_assign = (\<lambda>ys (xs, c). Inr (ys, max c (length ys))), v_shrink_to_fit = (\<lambda>(xs, c). Inr (xs, length xs)),
     v_push_back = (\<lambda>x (xs, c). Inr (xs @ [x], max c (length xs + 1))),
     v_emplace = (\<lambda>i x (xs, c). Inr (take i xs @ x # drop i xs, max c (length xs + 1))),
     v_set = (\<lambda>i x (xs, c). (xs[i := x], c))\<rparr>"

lemma list_vec_contract: "vec_contract list_vec"
  by (simp add: vec_contract_def list_vec_def case_prod_beta)

section \<open>Properties\<close>



text \<open>
  \<open>ppm_ch8_2\<close> shows why members need \<open>p<>\<close>. After a power failure in the transaction, recovery
  has restored \<open>pint\<close>, while \<open>some_int\<close> may have kept the new value although the transaction never
  happened; and after the commit \<open>pint\<close> is durable, while \<open>some_int\<close> may still have its old value. The
  two sets are exactly what the medium can hold, and no other member changes.
\<close>

theorem p_example_images:
  "{(m' SomeInt, m' Pint) |m'. p_interrupted m m'} = {(m SomeInt, m Pint), (10, m Pint)} \<and>
   {(m' SomeInt, m' Pint) |m'. crash_image (p_committed m) m'} = {(m SomeInt, 11), (10, 11)} \<and>
   {(m' SomeFloat, m' Pfloat) |m'. p_interrupted m m' \<or> crash_image (p_committed m) m'} = {(m SomeFloat, m Pfloat)}"
proof -
  have all: "(\<forall>l. P l) \<longleftrightarrow> P SomeInt \<and> P SomeFloat \<and> P Pint \<and> P Pfloat" for P by (metis p_loc.exhaust)
  have i: "p_interrupted m m' \<longleftrightarrow> m' \<in> {m, m(SomeInt := 10)}" for m'
  proof
    assume "p_interrupted m m'"
    then obtain m1 where m1: "crashes_in p_body (quiescent m) m1" "m' = (\<lambda>l. if l \<in> set p_logged then m l else m1 l)"
      by (auto simp: p_interrupted_def)
    have "m1 SomeInt \<in> {m SomeInt, 10}" "m1 SomeFloat = m SomeFloat" "m1 Pfloat = m Pfloat"
      using crash_values [OF m1(1), of SomeInt] crash_values [OF m1(1), of SomeFloat] crash_values [OF m1(1), of Pfloat]
      by (auto simp: p_body_def)
    then show "m' \<in> {m, m(SomeInt := 10)}" by (auto simp: m1(2) p_logged_def fun_eq_iff all)
  next
    have "crashes_in p_body (quiescent m) m" by (rule crashes_in_now) simp
    moreover have "crashes_in p_body (quiescent m) (m(SomeInt := 10))"
      by (simp add: p_body_def crashes_in_Cons crash_image_def)
    moreover assume "m' \<in> {m, m(SomeInt := 10)}"
    ultimately show "p_interrupted m m'"
      unfolding p_interrupted_def by (auto simp: p_logged_def fun_eq_iff all)
  qed
  have c: "crash_image (p_committed m) m' \<longleftrightarrow> m' \<in> {m(Pint := 11), m(SomeInt := 10, Pint := 11)}" for m'
    by (auto simp: p_committed_def p_body_def p_logged_def crash_image_def fun_eq_iff all)
  show ?thesis unfolding i c setcompr_eq_image Collect_disj_eq Collect_mem_eq by auto
qed

text \<open>
  \<open>ppm_ch8_3\<close> leaks: with a fresh allocator and atomic transactions, a run that ends frees the
  object it has allocated in a transaction, but never the one an earlier run has left. So after \<open>n\<close>
  runs the pool holds \<open>n\<close> more objects, of which the root object reaches one, with the values 2 and 3.
\<close>

theorem allocation_leaks:
  assumes "fresh_data mk" "tx_atomic run" "finite (dom (objs pool))" "allocation_runs run mk n pool = Some pool'"
  shows "card (dom (objs pool')) = card (dom (objs pool)) + n \<and> objs pool \<subseteq>\<^sub>m objs pool' \<and>
    (n = 0 \<or> (\<exists>a. mdata pool' = Some a \<and> objs pool' a = Some (my_data_new 2 3)))"
  using assms(3,4)
proof (induction n arbitrary: pool)
  case (Suc n)
  then obtain p1 k where m: "allocation_main run mk (Inr pool) = (Some p1, Finished k)"
    and r: "allocation_runs run mk n p1 = Some pool'" by (auto split: prod.splits option.splits prog_end.splits)
  obtain a where a: "objs pool a = None" "objs p1 = (objs pool)(a \<mapsto> my_data_new 2 3)" "mdata p1 = Some a"
    using allocation_run [OF assms(1,2) m] by blast
  have "finite (dom (objs p1))" and c: "card (dom (objs p1)) = Suc (card (dom (objs pool)))"
    using Suc.prems(1) a by (auto simp: domIff)
  note IH = Suc.IH [OF this(1) r]
  have "objs pool \<subseteq>\<^sub>m objs p1" using a by (auto simp: map_le_def)
  then have "objs pool \<subseteq>\<^sub>m objs pool'" using IH map_le_trans by blast
  moreover have "\<exists>a. mdata pool' = Some a \<and> objs pool' a = Some (my_data_new 2 3)"
  proof (cases n)
    case 0
    then show ?thesis using r a by simp
  qed (use IH in auto)
  ultimately show ?case using IH c by simp
qed simp

theorem allocation_leaks_witness:
  "\<exists>pool'. allocation_runs tx_plain (\<lambda>h. if h 0 = None then Some 0 else if h 1 = None then Some 1 else None) 1
      \<lparr>objs = [0 \<mapsto> my_data_new 2 3], mdata = Some 0\<rparr> = Some pool' \<and> card (dom (objs pool')) = 2"
proof -
  let ?mk = "\<lambda>h. if h 0 = None then Some 0 else if h 1 = None then Some 1 else (None :: addr option)"
  let ?pool = "\<lparr>objs = [0 \<mapsto> my_data_new 2 3], mdata = Some 0\<rparr>"
  have "allocation_runs tx_plain ?mk 1 ?pool \<noteq> None"
    by (simp add: allocation_main_def run_main_def prog_defs make_data_def delete_data_def tx_plain_def)
  then obtain pool' where r: "allocation_runs tx_plain ?mk 1 ?pool = Some pool'" by blast
  have "fresh_data ?mk" by (auto simp: fresh_data_def split: if_splits)
  from allocation_leaks [OF this tx_plain_atomic _ r] r show ?thesis by auto
qed

end
