(* ===== verification/Rpc_Programs.thy ===== *)
theory Rpc_Programs
  imports Program_Effects Small_Libraries Console Striping
begin

text \<open>
  The RPC programs: \<open>hello_thallium_server\<close> and \<open>hello_thallium_client\<close>, \<open>thallium_nonblocking\<close>,
  \<open>thallium_with_argobot_pools\<close>, \<open>thallium_provider\<close> and \<open>thallium_provider2\<close>, \<open>thallium_rdma\<close> and
  \<open>thallium_rdma2\<close>, and the client of \<open>thallium_failure_detector\<close>. A server is the table of handlers it
  registers, with the types of their arguments and of their response; a client is the sequence of its
  calls. The RPC library, which carries a call to the handler of its name, is a parameter.
\<close>

section \<open>Values and types\<close>

datatype rpc_type = TInt | TString | TPoint | TSize

datatype rpc_val = VInt int | VString string | VPoint point | VSize u64

fun type_of :: "rpc_val \<Rightarrow> rpc_type" where
  "type_of (VInt x) = TInt"
| "type_of (VString s) = TString"
| "type_of (VPoint p) = TPoint"
| "type_of (VSize n) = TSize"

text \<open>What the processes print, in one sequence: a handler runs before the client makes its next call.\<close>

datatype rpc_io =
    Running string "int list"
  | Computing int string int
  | HelloLine string
  | PrintingLine string
  | LambdaTest int
  | PointClass point
  | ServerShutdown
  | Answered string rpc_val
  | RpcError string
  | HelpText

text \<open>The sum of two \<open>int\<close>s; overflow is undefined.\<close>

definition int_add :: "int \<Rightarrow> int \<Rightarrow> int res" where
  "int_add x y = (if int_min \<le> x + y \<and> x + y \<le> int_max then Inr (x + y) else Inl Undefined)"

type_synonym handler = "rpc_val list \<Rightarrow> (rpc_io list \<times> rpc_val option) res"

text \<open>
  A registered procedure. \<open>rpc_ret\<close> is the type of the response, \<open>None\<close> where responses are disabled
  or the return value is ignored.
\<close>

record rpc_def =
  rpc_name :: string
  rpc_id :: "16 word"
  rpc_args :: "rpc_type list"
  rpc_ret :: "rpc_type option"
  rpc_run :: handler

definition rpc_key :: "rpc_def \<Rightarrow> string \<times> 16 word" where
  "rpc_key d = (rpc_name d, rpc_id d)"

text \<open>Arguments are passed by position.\<close>

fun on_ints :: "(int \<Rightarrow> int \<Rightarrow> (rpc_io list \<times> rpc_val option) res) \<Rightarrow> handler" where
  "on_ints f [VInt x, VInt y] = f x y"
| "on_ints f _ = Inl Undefined"

fun on_int :: "(int \<Rightarrow> (rpc_io list \<times> rpc_val option) res) \<Rightarrow> handler" where
  "on_int f [VInt x] = f x"
| "on_int f _ = Inl Undefined"

fun on_string :: "(string \<Rightarrow> (rpc_io list \<times> rpc_val option) res) \<Rightarrow> handler" where
  "on_string f [VString s] = f s"
| "on_string f _ = Inl Undefined"

fun on_point :: "(point \<Rightarrow> (rpc_io list \<times> rpc_val option) res) \<Rightarrow> handler" where
  "on_point f [VPoint p] = f p"
| "on_point f _ = Inl Undefined"

fun on_none :: "(rpc_io list \<times> rpc_val option) res \<Rightarrow> handler" where
  "on_none f [] = f"
| "on_none f _ = Inl Undefined"

section \<open>\<open>thallium_provider\<close> and \<open>thallium_provider2\<close>: \<open>MySumProvider\<close>\<close>

text \<open>The handler \<open>prod\<close> announces a product and responds with the sum.\<close>

definition prod_rpc :: "int \<Rightarrow> int \<Rightarrow> (rpc_io list \<times> rpc_val option) res" where
  "prod_rpc x y = map_sum id (\<lambda>z. ([Computing x ''*'' y], Some (VInt z))) (int_add x y)"

definition sum_rpc :: "int \<Rightarrow> int \<Rightarrow> (rpc_io list \<times> rpc_val option) res" where
  "sum_rpc x y = map_sum id (\<lambda>z. ([Computing x ''+'' y], Some (VInt z))) (int_add x y)"

definition hello_rpc :: "string \<Rightarrow> (rpc_io list \<times> rpc_val option) res" where
  "hello_rpc name = Inr ([HelloLine name], None)"

definition print_word :: "string \<Rightarrow> rpc_io list \<times> u64" where
  "print_word word = ([PrintingLine word], of_nat (length word))"

text \<open>\<open>tl::ignore_return_value\<close>: the value of the handler is not sent.\<close>

definition ignore_return_value :: "rpc_io list \<times> u64 \<Rightarrow> (rpc_io list \<times> rpc_val option) res" where
  "ignore_return_value r = Inr (fst r, None)"

definition MySumProvider :: "16 word \<Rightarrow> rpc_def list" where
  "MySumProvider provider_id =
     [\<lparr>rpc_name = ''prod'', rpc_id = provider_id, rpc_args = [TInt, TInt], rpc_ret = Some TInt, rpc_run = on_ints prod_rpc\<rparr>,
      \<lparr>rpc_name = ''sum'', rpc_id = provider_id, rpc_args = [TInt, TInt], rpc_ret = Some TInt, rpc_run = on_ints sum_rpc\<rparr>,
      \<lparr>rpc_name = ''hello'', rpc_id = provider_id, rpc_args = [TString], rpc_ret = None, rpc_run = on_string hello_rpc\<rparr>,
      \<lparr>rpc_name = ''print'', rpc_id = provider_id, rpc_args = [TString], rpc_ret = None,
       rpc_run = on_string (\<lambda>w. ignore_return_value (print_word w))\<rparr>]"

section \<open>The other servers\<close>

definition lambda_handler :: "int \<Rightarrow> (rpc_io list \<times> rpc_val option) res" where
  "lambda_handler x = Inr ([LambdaTest x], None)"

definition user_class :: "point \<Rightarrow> (rpc_io list \<times> rpc_val option) res" where
  "user_class p = Inr ([PointClass p], Some (VPoint p))"

text \<open>\<open>shutdown\<close> also finalizes the engine: the server serves no further call.\<close>

definition shutdown :: "(rpc_io list \<times> rpc_val option) res" where
  "shutdown = Inr ([ServerShutdown], None)"

definition hello_server :: "rpc_def list" where
  "hello_server =
     [\<lparr>rpc_name = ''hello'', rpc_id = 0, rpc_args = [TString], rpc_ret = None, rpc_run = on_string hello_rpc\<rparr>,
      \<lparr>rpc_name = ''sum'', rpc_id = 0, rpc_args = [TInt, TInt], rpc_ret = Some TInt, rpc_run = on_ints sum_rpc\<rparr>,
      \<lparr>rpc_name = ''lambda'', rpc_id = 0, rpc_args = [TInt], rpc_ret = None, rpc_run = on_int lambda_handler\<rparr>,
      \<lparr>rpc_name = ''user_class'', rpc_id = 0, rpc_args = [TPoint], rpc_ret = Some TPoint, rpc_run = on_point user_class\<rparr>,
      \<lparr>rpc_name = ''shutdown'', rpc_id = 0, rpc_args = [], rpc_ret = None, rpc_run = on_none shutdown\<rparr>]"

text \<open>The server of \<open>thallium_nonblocking\<close>; that of \<open>thallium_with_argobot_pools\<close> has the same table.\<close>

definition sum_server :: "rpc_def list" where
  "sum_server =
     [\<lparr>rpc_name = ''sum'', rpc_id = 0, rpc_args = [TInt, TInt], rpc_ret = Some TInt, rpc_run = on_ints sum_rpc\<rparr>]"

definition pool_sum_server :: "rpc_def list" where
  "pool_sum_server =
     [\<lparr>rpc_name = ''sum'', rpc_id = 0, rpc_args = [TInt, TInt], rpc_ret = Some TInt, rpc_run = on_ints sum_rpc\<rparr>]"

section \<open>Calls\<close>

text \<open>A call: the procedure and provider, the arguments, the type of the awaited response, if any, and
  whether the call gives up after a time limit.\<close>

record rpc_call =
  call_name :: string
  call_id :: "16 word"
  call_args :: "rpc_val list"
  call_ret :: "rpc_type option"
  call_timed :: bool

type_synonym dispatch = "rpc_def list \<Rightarrow> string \<Rightarrow> 16 word \<Rightarrow> handler"

text \<open>
  What the library promises: a call reaches the handler that was registered under its name and
  provider number, with its arguments, if they have the registered types.
\<close>

definition dispatches :: "dispatch \<Rightarrow> bool" where
  "dispatches D \<longleftrightarrow>
     (\<forall>table d args. d \<in> set table \<longrightarrow> distinct (map rpc_key table) \<longrightarrow>
        map type_of args = rpc_args d \<longrightarrow> D table (rpc_name d) (rpc_id d) args = rpc_run d args)"

lemma dispatchesD:
  "dispatches D \<Longrightarrow> d \<in> set table \<Longrightarrow> distinct (map rpc_key table) \<Longrightarrow> map type_of args = rpc_args d \<Longrightarrow>
   D table (rpc_name d) (rpc_id d) args = rpc_run d args"
  unfolding dispatches_def by blast

text \<open>
  A call by a client. Where the response is disabled it does not wait; otherwise it waits, for ever if
  the handler does not respond, and reads the response as the type it expects. \<open>in_time\<close> says whether
  a response arrives within the limit of a timed call.
\<close>

definition run_call ::
  "dispatch \<Rightarrow> (rpc_call \<Rightarrow> bool) \<Rightarrow> rpc_def list \<Rightarrow> rpc_call \<Rightarrow> (unit, rpc_io, rpc_val option) prog"
where
  "run_call D in_time table c =
     (case D table (call_name c) (call_id c) (call_args c) of
        Inl e \<Rightarrow> halt (Thrown e)
      | Inr (out, r) \<Rightarrow>
          bindp (emit out) (\<lambda>_.
            case call_ret c of
              None \<Rightarrow> ret None
            | Some t \<Rightarrow>
                if call_timed c \<and> \<not> in_time c then halt (Thrown (RuntimeError ''timeout''))
                else case r of
                   None \<Rightarrow> halt Blocked
                 | Some v \<Rightarrow> if type_of v = t then ret (Some v) else halt (Thrown (RuntimeError ''deserialization''))))"

definition call_and_print ::
  "dispatch \<Rightarrow> (rpc_call \<Rightarrow> bool) \<Rightarrow> rpc_def list \<Rightarrow> string \<times> rpc_call \<Rightarrow> (unit, rpc_io, unit) prog"
where
  "call_and_print D in_time table wc = bindp (run_call D in_time table (snd wc)) (\<lambda>r.
     case r of None \<Rightarrow> ret () | Some v \<Rightarrow> emit [Answered (fst wc) v])"

definition run_client ::
  "dispatch \<Rightarrow> (rpc_call \<Rightarrow> bool) \<Rightarrow> rpc_def list \<Rightarrow> (string \<times> rpc_call) list \<Rightarrow> rpc_io list \<times> prog_end"
where
  "run_client D in_time table cs = snd (run_main (block (map (call_and_print D in_time table) cs)) ())"

section \<open>The clients\<close>

text \<open>The client of \<open>thallium_provider\<close>; \<open>thallium_provider2\<close> adds a remote shutdown at the end.\<close>

definition provider_client :: "16 word \<Rightarrow> (string \<times> rpc_call) list" where
  "provider_client provider_id =
     [(''(sum) Server answered'', \<lparr>call_name = ''sum'', call_id = provider_id, call_args = [VInt 42, VInt 63], call_ret = Some TInt, call_timed = False\<rparr>),
      (''(prod) Server answered'', \<lparr>call_name = ''prod'', call_id = provider_id, call_args = [VInt 42, VInt 63], call_ret = Some TInt, call_timed = False\<rparr>),
      ('''', \<lparr>call_name = ''hello'', call_id = provider_id, call_args = [VString ''Matthieu''], call_ret = None, call_timed = False\<rparr>),
      ('''', \<lparr>call_name = ''print'', call_id = provider_id, call_args = [VString ''Matthieu''], call_ret = None, call_timed = False\<rparr>)]"

definition hello_client :: "(string \<times> rpc_call) list" where
  "hello_client =
     [('''', \<lparr>call_name = ''hello'', call_id = 0, call_args = [VString ''Ichiro''], call_ret = None, call_timed = False\<rparr>),
      (''Server answered:'', \<lparr>call_name = ''sum'', call_id = 0, call_args = [VInt 42, VInt 63], call_ret = Some TInt, call_timed = True\<rparr>),
      ('''', \<lparr>call_name = ''lambda'', call_id = 0, call_args = [VInt 777], call_ret = None, call_timed = False\<rparr>),
      (''Returned Point class ='', \<lparr>call_name = ''user_class'', call_id = 0,
        call_args = [VPoint \<lparr>px = 10, py = 20, pz = 30\<rparr>], call_ret = Some TPoint, call_timed = False\<rparr>),
      ('''', \<lparr>call_name = ''shutdown'', call_id = 0, call_args = [], call_ret = None, call_timed = False\<rparr>)]"

text \<open>\<open>async\<close> and \<open>wait\<close> of \<open>thallium_nonblocking\<close>, and the plain call of \<open>thallium_with_argobot_pools\<close>.\<close>

definition nonblocking_client :: "(string \<times> rpc_call) list" where
  "nonblocking_client =
     [(''Server answered'', \<lparr>call_name = ''sum'', call_id = 0, call_args = [VInt 42, VInt 63], call_ret = Some TInt, call_timed = False\<rparr>)]"

definition pool_client :: "(string \<times> rpc_call) list" where
  "pool_client =
     [(''Server answered'', \<lparr>call_name = ''sum'', call_id = 0, call_args = [VInt 42, VInt 63], call_ret = Some TInt, call_timed = False\<rparr>)]"

section \<open>Options\<close>

text \<open>
  What a program becomes: a server at an address with its table, which may allow remote shutdown, or a
  client of a protocol and an address with its calls, which may shut the server down at the end.
\<close>

datatype rpc_role =
    Server string "rpc_def list" bool
  | Client string string "(string \<times> rpc_call) list" bool

definition provider_main :: "(string \<Rightarrow> 16 word res) \<Rightarrow> parsed \<Rightarrow> rpc_io list \<times> (prog_end + rpc_role)" where
  "provider_main as_uint16 r =
     (if opt_count r ''help'' \<noteq> 0 then ([HelpText], Inl (Finished 0))
      else if opt_count r ''server'' = 0 \<and> opt_count r ''client'' = 0
      then ([RpcError ''Error: need --server or --client option'', HelpText], Inl (Finished (-1)))
      else case as_uint16 (opt_text r ''provider'') of
        Inl e \<Rightarrow> ([], Inl (Thrown e))
      | Inr provider_id \<Rightarrow>
          let addr = opt_text r ''addr'' in
          if opt_count r ''server'' \<noteq> 0
          then ([Running addr [uint provider_id]], Inr (Server addr (MySumProvider provider_id) False))
          else ([], Inr (Client (protocol addr) addr (provider_client provider_id) False)))"

text \<open>The second number is printed as an \<open>int\<close> and registered as a \<open>uint16_t\<close>.\<close>

definition provider2_main :: "(string \<Rightarrow> 16 word res) \<Rightarrow> parsed \<Rightarrow> rpc_io list \<times> (prog_end + rpc_role)" where
  "provider2_main as_uint16 r =
     (if opt_count r ''help'' \<noteq> 0 then ([HelpText], Inl (Finished 0))
      else if opt_count r ''server'' = 0 \<and> opt_count r ''client'' = 0
      then ([RpcError ''Error: need --server or --client option'', HelpText], Inl (Finished (-1)))
      else case as_uint16 (opt_text r ''provider'') of
        Inl e \<Rightarrow> ([], Inl (Thrown e))
      | Inr provider_id \<Rightarrow>
          let addr = opt_text r ''addr'' in
          if opt_count r ''server'' \<noteq> 0
          then ([Running addr [uint provider_id, uint provider_id + 1]],
                Inr (Server addr (MySumProvider provider_id @ MySumProvider (provider_id + 1)) True))
          else ([], Inr (Client (protocol addr) addr (provider_client provider_id) True)))"

definition nonblocking_main :: "(string \<Rightarrow> bool) \<Rightarrow> parsed \<Rightarrow> rpc_io list \<times> (prog_end + rpc_role)" where
  "nonblocking_main as_bool r =
     (let addr = opt_text r ''addr'' in
      if opt_count r ''help'' \<noteq> 0 then ([HelpText], Inl (Finished 0))
      else if as_bool (opt_text r ''server'') then ([Running addr []], Inr (Server addr sum_server False))
      else ([], Inr (Client (protocol addr) addr nonblocking_client False)))"

definition pools_main :: "(string \<Rightarrow> bool) \<Rightarrow> parsed \<Rightarrow> rpc_io list \<times> (prog_end + rpc_role)" where
  "pools_main as_bool r =
     (let addr = opt_text r ''addr'' in
      if opt_count r ''help'' \<noteq> 0 then ([HelpText], Inl (Finished 0))
      else if as_bool (opt_text r ''server'') then ([Running addr []], Inr (Server addr pool_sum_server False))
      else ([], Inr (Client (protocol addr) addr pool_client False)))"

definition hello_server_main :: "parsed \<Rightarrow> rpc_io list \<times> (prog_end + rpc_role)" where
  "hello_server_main r =
     (let addr = opt_text r ''addr'' in
      if opt_count r ''help'' \<noteq> 0 then ([HelpText], Inl (Finished 0))
      else ([Running addr []], Inr (Server addr hello_server False)))"

definition hello_client_main :: "parsed \<Rightarrow> rpc_io list \<times> (prog_end + rpc_role)" where
  "hello_client_main r =
     (if opt_count r ''help'' \<noteq> 0 then ([HelpText], Inl (Finished 0))
      else ([], Inr (Client (opt_text r ''provider'') (opt_text r ''addr'') hello_client False)))"

section \<open>Life of the providers of \<open>thallium_provider2\<close>\<close>

text \<open>
  The engine: the registered procedures and the finalization callbacks, each named by its provider.
  The constructor registers four procedures and a callback, the destructor removes them; finalizing
  the engine calls the callbacks, which delete the providers.
\<close>

record rpc_engine =
  registry :: "rpc_def list"
  callbacks :: "16 word list"

definition provider_create :: "16 word \<Rightarrow> rpc_engine \<Rightarrow> rpc_engine" where
  "provider_create pid e = e\<lparr>registry := registry e @ MySumProvider pid, callbacks := pid # callbacks e\<rparr>"

definition deregister :: "string \<Rightarrow> 16 word \<Rightarrow> rpc_engine \<Rightarrow> rpc_engine" where
  "deregister name pid e = e\<lparr>registry := filter (\<lambda>d. \<not> (rpc_name d = name \<and> rpc_id d = pid)) (registry e)\<rparr>"

definition provider_delete :: "16 word \<Rightarrow> rpc_engine \<Rightarrow> rpc_engine" where
  "provider_delete pid e =
     (let e = deregister ''prod'' pid e; e = deregister ''sum'' pid e; e = deregister ''hello'' pid e;
          e = deregister ''print'' pid e
      in e\<lparr>callbacks := remove1 pid (callbacks e)\<rparr>)"

definition provider2_server :: "16 word \<Rightarrow> rpc_engine" where
  "provider2_server pid = provider_create (pid + 1) (provider_create pid \<lparr>registry = [], callbacks = []\<rparr>)"

section \<open>Bulk transfer, \<open>thallium_rdma\<close> and \<open>thallium_rdma2\<close>\<close>

text \<open>
  \<open>pull remote n\<close> is the transfer of exposed memory into a local buffer of \<open>n\<close> bytes. The first program
  takes the address of the first element of a vector, which an empty one does not have, and exposes
  one byte more than the string.
\<close>

definition rdma_segment :: "string \<Rightarrow> string" where
  "rdma_segment payload = payload @ [CHR 0x00]"

definition rdma2_segment :: "string \<Rightarrow> string" where
  "rdma2_segment payload = payload"

definition rdma_handler :: "(string \<Rightarrow> nat \<Rightarrow> string res) \<Rightarrow> nat \<Rightarrow> string \<Rightarrow> (string \<times> nat) res" where
  "rdma_handler pull payload_size remote =
     (if payload_size = 0 then Inl Undefined
      else case pull remote payload_size of Inl e \<Rightarrow> Inl e | Inr buf \<Rightarrow> Inr (buf, payload_size))"

definition rdma2_handler :: "(string \<Rightarrow> nat \<Rightarrow> string res) \<Rightarrow> nat \<Rightarrow> string \<Rightarrow> (string \<times> nat) res" where
  "rdma2_handler pull payload_size remote =
     (case pull remote payload_size of Inl e \<Rightarrow> Inl e | Inr buf \<Rightarrow> Inr (buf, payload_size))"

definition rdma_client :: "(nat \<Rightarrow> 'g \<Rightarrow> nat \<times> 'g) \<Rightarrow> 'g \<Rightarrow> nat \<Rightarrow> string" where
  "rdma_client draw rng n = rdma_segment (fst (generateRandomAlphanumericString draw n rng))"

definition rdma2_client :: "(nat \<Rightarrow> 'g \<Rightarrow> nat \<times> 'g) \<Rightarrow> 'g \<Rightarrow> nat \<Rightarrow> string" where
  "rdma2_client draw rng n = rdma2_segment (fst (generateRandomAlphanumericString draw n rng))"

text \<open>
  What the programs become: a server at an address that provides so many bytes, or a client of a
  protocol and an address that sends so many. \<open>thallium_rdma2\<close> has the same options.
\<close>

datatype rdma_role = RdmaServer string nat | RdmaClient string string nat

definition rdma_main ::
  "(string \<Rightarrow> nat res) \<Rightarrow> (string \<Rightarrow> bool) \<Rightarrow> parsed \<Rightarrow> rpc_io list \<times> (prog_end + rdma_role)"
where
  "rdma_main as_size as_bool r =
     (if opt_count r ''help'' \<noteq> 0 then ([HelpText], Inl (Finished 0))
      else case as_size (opt_text r ''size'') of
        Inl e \<Rightarrow> ([], Inl (Thrown e))
      | Inr payload_size \<Rightarrow>
          let addr = opt_text r ''addr'' in
          if as_bool (opt_text r ''server'') then ([Running addr []], Inr (RdmaServer addr payload_size))
          else ([], Inr (RdmaClient (protocol addr) addr payload_size)))"

section \<open>Heartbeats, the client of \<open>thallium_failure_detector\<close>\<close>

fun fd_client :: "nat \<Rightarrow> rpc_call list" where
  "fd_client 0 = []"
| "fd_client (Suc n) =
     \<lparr>call_name = ''hb'', call_id = 0, call_args = [], call_ret = None, call_timed = False\<rparr> # fd_client n"

text \<open>The options: a server (\<open>Inl\<close> its address, theory \<open>Phi_Accrual\<close>) or a client.\<close>

definition fd_main ::
  "(string \<Rightarrow> nat res) \<Rightarrow> (string \<Rightarrow> bool) \<Rightarrow> parsed \<Rightarrow> rpc_io list \<times> (prog_end + (string + rpc_call list))"
where
  "fd_main as_size as_bool r =
     (if opt_count r ''help'' \<noteq> 0 then ([HelpText], Inl (Finished 0))
      else if as_bool (opt_text r ''server'')
      then ([Running (opt_text r ''addr'') []], Inr (Inl (opt_text r ''addr'')))
      else case as_size (opt_text r ''times'') of
        Inl e \<Rightarrow> ([], Inl (Thrown e))
      | Inr n \<Rightarrow> ([], Inr (Inr (fd_client n))))"

lemma fd_client_length: "length (fd_client n) = n"
  by (induction n) simp_all

section \<open>Typed services\<close>

definition in_int :: "int \<Rightarrow> bool" where
  "in_int x \<longleftrightarrow> int_min \<le> x \<and> x \<le> int_max"

text \<open>
  A handler keeps to its types: on arguments of its types it responds with a value of its response
  type, or not at all where it has none, unless it adds two numbers whose sum overflows.
\<close>

definition handler_ok :: "rpc_def \<Rightarrow> bool" where
  "handler_ok d \<longleftrightarrow>
     (\<forall>args. map type_of args = rpc_args d \<longrightarrow>
        (case rpc_run d args of
           Inr (out, r) \<Rightarrow> map_option type_of r = rpc_ret d
         | Inl e \<Rightarrow> e = Undefined \<and> (\<exists>x y. args = [VInt x, VInt y] \<and> \<not> in_int (x + y))))"

text \<open>A call fits a table if it is made with the types under which the procedure is registered.\<close>

definition call_fits :: "rpc_def list \<Rightarrow> rpc_call \<Rightarrow> bool" where
  "call_fits table c \<longleftrightarrow>
     list_ex (\<lambda>d. rpc_name d = call_name c \<and> rpc_id d = call_id c \<and> rpc_args d = map type_of (call_args c) \<and>
       rpc_ret d = call_ret c) table"

locale rpc_service =
  fixes table :: "rpc_def list"
  assumes keys: "distinct (map rpc_key table)" and handlers: "list_all handler_ok table"
begin

lemma call_cases:
  assumes "dispatches D" "call_fits table c"
  shows "case run_call D in_time table c () of
      (_, _, Inr r) \<Rightarrow> map_option type_of r = call_ret c
    | (_, _, Inl e) \<Rightarrow> e = Thrown (RuntimeError ''timeout'') \<and> call_timed c \<and> \<not> in_time c \<or>
        e = Thrown Undefined \<and> (\<exists>x y. call_args c = [VInt x, VInt y] \<and> \<not> in_int (x + y))"
proof -
  obtain d where d: "d \<in> set table" "rpc_name d = call_name c" "rpc_id d = call_id c"
      "rpc_args d = map type_of (call_args c)" "rpc_ret d = call_ret c"
    using assms(2) by (auto simp: call_fits_def list_ex_iff)
  have "D table (rpc_name d) (rpc_id d) (call_args c) = rpc_run d (call_args c)"
    by (rule dispatchesD [OF assms(1) d(1) keys]) (simp add: d)
  then have run: "D table (call_name c) (call_id c) (call_args c) = rpc_run d (call_args c)" by (simp add: d)
  have ok: "case rpc_run d (call_args c) of
      Inr (out, r) \<Rightarrow> map_option type_of r = call_ret c
    | Inl e \<Rightarrow> e = Undefined \<and> (\<exists>x y. call_args c = [VInt x, VInt y] \<and> \<not> in_int (x + y))"
  proof -
    have "handler_ok d" using handlers d(1) by (simp add: list_all_iff)
    from this [unfolded handler_ok_def, rule_format, of "call_args c"] d(4) show ?thesis unfolding d(5) by simp
  qed
  show ?thesis
  proof (cases "rpc_run d (call_args c)")
    case (Inr r)
    then show ?thesis using ok run
      by (cases "call_ret c"; cases "snd r"; cases "call_timed c \<and> \<not> in_time c") (auto simp: run_call_def prog_defs)
  qed (use ok run in \<open>simp add: run_call_def prog_defs\<close>)
qed

text \<open>No call that fits waits for a response that is never sent.\<close>

lemma never_blocked:
  assumes "dispatches D" "call_fits table c"
  shows "snd (snd (run_call D in_time table c ())) \<noteq> Inl Blocked"
  using call_cases [OF assms, of in_time] by (auto split: prod.splits sum.splits)

end

lemma type_of_eq [simp]:
  "type_of v = TInt \<longleftrightarrow> (\<exists>x. v = VInt x)" "type_of v = TString \<longleftrightarrow> (\<exists>x. v = VString x)"
  "type_of v = TPoint \<longleftrightarrow> (\<exists>x. v = VPoint x)" "type_of v = TSize \<longleftrightarrow> (\<exists>x. v = VSize x)"
  by (cases v; simp)+

lemmas rpc_handlers = prod_rpc_def sum_rpc_def hello_rpc_def print_word_def ignore_return_value_def
  lambda_handler_def user_class_def shutdown_def int_add_def

lemma provider_handlers: "list_all handler_ok (MySumProvider pid)"
  by (auto simp: MySumProvider_def handler_ok_def map_eq_Cons_conv rpc_handlers in_int_def)

lemma provider_keys: "map rpc_key (MySumProvider pid) = [(''prod'', pid), (''sum'', pid), (''hello'', pid), (''print'', pid)]"
  by (simp add: MySumProvider_def rpc_key_def)

lemma hello_handlers: "list_all handler_ok hello_server"
  by (auto simp: hello_server_def handler_ok_def map_eq_Cons_conv rpc_handlers in_int_def)

interpretation provider: rpc_service "MySumProvider pid"
  by unfold_locales (simp_all add: provider_handlers provider_keys)

interpretation provider2: rpc_service "MySumProvider pid @ MySumProvider (pid + 1)"
  by unfold_locales (simp_all add: provider_handlers provider_keys)

interpretation hello: rpc_service hello_server
  by unfold_locales (simp add: hello_server_def rpc_key_def, rule hello_handlers)

interpretation sums: rpc_service sum_server
  by unfold_locales (auto simp: sum_server_def handler_ok_def map_eq_Cons_conv rpc_handlers in_int_def)

interpretation pool_sums: rpc_service pool_sum_server
  by unfold_locales (auto simp: pool_sum_server_def handler_ok_def map_eq_Cons_conv rpc_handlers in_int_def)

text \<open>The servers of the programs, each with the client that is written for it.\<close>

definition programs :: "(rpc_def list \<times> (string \<times> rpc_call) list) set" where
  "programs = {(hello_server, hello_client), (sum_server, nonblocking_client), (pool_sum_server, pool_client)} \<union>
     {(MySumProvider p, provider_client p) |p. True} \<union>
     {(MySumProvider p @ MySumProvider (p + 1), provider_client q) |p q. q = p \<or> q = p + 1}"

lemma programs_service: "(table, cs) \<in> programs \<Longrightarrow> rpc_service table"
  unfolding programs_def
  using hello.rpc_service_axioms sums.rpc_service_axioms pool_sums.rpc_service_axioms provider.rpc_service_axioms
    provider2.rpc_service_axioms by auto

lemma clients_fit: "(table, cs) \<in> programs \<Longrightarrow> list_all (\<lambda>(w, c). call_fits table c) cs"
  unfolding programs_def
  by (auto simp: call_fits_def hello_server_def hello_client_def sum_server_def nonblocking_client_def
      pool_sum_server_def pool_client_def MySumProvider_def provider_client_def)

lemma dispatch_at:
  assumes "dispatches D" "rpc_service table" "d \<in> set table" "map type_of args = rpc_args d"
    "rpc_name d = n" "rpc_id d = i"
  shows "D table n i args = rpc_run d args"
  using dispatchesD [OF assms(1,3) rpc_service.keys [OF assms(2)] assms(4)] by (simp only: assms(5,6))

lemma provider2_dispatch:
  assumes "dispatches D" "q = p \<or> q = p + 1"
  defines "T \<equiv> MySumProvider p @ MySumProvider (p + 1)"
  shows "D T ''sum'' q [VInt x, VInt y] = sum_rpc x y" "D T ''prod'' q [VInt x, VInt y] = prod_rpc x y"
    "D T ''hello'' q [VString s] = hello_rpc s" "D T ''print'' q [VString s] = ignore_return_value (print_word s)"
proof -
  have at: "d \<in> set (MySumProvider q) \<Longrightarrow> map type_of args = rpc_args d \<Longrightarrow> D T (rpc_name d) q args = rpc_run d args" for d args
  proof (rule dispatch_at [OF assms(1)])
    show "rpc_service T" unfolding T_def by (rule provider2.rpc_service_axioms)
    show "d \<in> set T" if "d \<in> set (MySumProvider q)" using that assms(2) by (auto simp: T_def)
    show "rpc_id d = q" if "d \<in> set (MySumProvider q)" using that by (auto simp: MySumProvider_def)
  qed simp_all
  show "D T ''sum'' q [VInt x, VInt y] = sum_rpc x y" "D T ''prod'' q [VInt x, VInt y] = prod_rpc x y"
    "D T ''hello'' q [VString s] = hello_rpc s" "D T ''print'' q [VString s] = ignore_return_value (print_word s)"
    using at [of "MySumProvider q ! 1" "[VInt x, VInt y]"] at [of "MySumProvider q ! 0" "[VInt x, VInt y]"]
      at [of "MySumProvider q ! 2" "[VString s]"] at [of "MySumProvider q ! 3" "[VString s]"]
    by (simp_all add: MySumProvider_def)
qed

lemma hello_dispatch:
  assumes "dispatches D"
  shows "D hello_server ''hello'' 0 [VString s] = hello_rpc s" "D hello_server ''sum'' 0 [VInt x, VInt y] = sum_rpc x y"
    "D hello_server ''lambda'' 0 [VInt x] = lambda_handler x" "D hello_server ''user_class'' 0 [VPoint p] = user_class p"
    "D hello_server ''shutdown'' 0 [] = shutdown"
proof -
  note at = dispatch_at [OF assms hello.rpc_service_axioms]
  show "D hello_server ''hello'' 0 [VString s] = hello_rpc s" "D hello_server ''sum'' 0 [VInt x, VInt y] = sum_rpc x y"
    "D hello_server ''lambda'' 0 [VInt x] = lambda_handler x" "D hello_server ''user_class'' 0 [VPoint p] = user_class p"
    "D hello_server ''shutdown'' 0 [] = shutdown"
    using at [of "hello_server ! 0" "[VString s]"] at [of "hello_server ! 1" "[VInt x, VInt y]"]
      at [of "hello_server ! 2" "[VInt x]"] at [of "hello_server ! 3" "[VPoint p]"] at [of "hello_server ! 4" "[]"]
    by (simp_all add: hello_server_def)
qed

section \<open>Properties\<close>


text \<open>A library that looks a procedure up by name and number, for concrete runs.\<close>

definition lookup_dispatch :: dispatch where
  "lookup_dispatch table n i args =
     (case find (\<lambda>d. rpc_name d = n \<and> rpc_id d = i) table of
        None \<Rightarrow> Inl (RuntimeError ''not found'')
      | Some d \<Rightarrow> rpc_run d args)"

lemma lookup_dispatches: "dispatches lookup_dispatch"
proof -
  have "find (\<lambda>e. rpc_name e = rpc_name d \<and> rpc_id e = rpc_id d) table = Some d"
    if "d \<in> set table" "distinct (map rpc_key table)" for d :: rpc_def and table
    using that by (induction table) (auto simp: image_iff rpc_key_def)
  then show ?thesis by (simp add: dispatches_def lookup_dispatch_def)
qed


text \<open>
  What the clients print. Both procedures of \<open>MySumProvider\<close> answer with the sum: the client is
  told that the product of 42 and 63 is 105. A client of the second provider of \<open>thallium_provider2\<close>
  gets the same answers, and the client of \<open>hello_thallium_server\<close> gets its point back unchanged, if
  its timed call is answered in time.
\<close>

theorem rpc_clients_print:
  assumes "dispatches D" and "q = p \<or> q = p + 1"
  shows "run_client D in_time (MySumProvider p @ MySumProvider (p + 1)) (provider_client q) =
      ([Computing 42 ''+'' 63, Answered ''(sum) Server answered'' (VInt 105),
        Computing 42 ''*'' 63, Answered ''(prod) Server answered'' (VInt 105), HelloLine ''Matthieu'',
        PrintingLine ''Matthieu''], Finished 0) \<and>
    run_client D (\<lambda>_. True) hello_server hello_client =
      ([HelloLine ''Ichiro'', Computing 42 ''+'' 63, Answered ''Server answered:'' (VInt 105), LambdaTest 777,
        PointClass \<lparr>px = 10, py = 20, pz = 30\<rparr>,
        Answered ''Returned Point class ='' (VPoint \<lparr>px = 10, py = 20, pz = 30\<rparr>), ServerShutdown], Finished 0)"
proof -
  note run = run_client_def call_and_print_def run_call_def run_main_def prog_defs rpc_handlers int_min_def int_max_def
  have "run_client D in_time (MySumProvider p @ MySumProvider (p + 1)) (provider_client q) =
      ([Computing 42 ''+'' 63, Answered ''(sum) Server answered'' (VInt 105),
        Computing 42 ''*'' 63, Answered ''(prod) Server answered'' (VInt 105), HelloLine ''Matthieu'',
        PrintingLine ''Matthieu''], Finished 0)"
    by (simp add: provider_client_def provider2_dispatch [OF assms] run)
  moreover have "run_client D (\<lambda>_. True) hello_server hello_client =
      ([HelloLine ''Ichiro'', Computing 42 ''+'' 63, Answered ''Server answered:'' (VInt 105), LambdaTest 777,
        PointClass \<lparr>px = 10, py = 20, pz = 30\<rparr>,
        Answered ''Returned Point class ='' (VPoint \<lparr>px = 10, py = 20, pz = 30\<rparr>), ServerShutdown], Finished 0)"
    by (simp add: hello_client_def hello_dispatch [OF assms(1)] run)
  ultimately show ?thesis ..
qed

theorem rpc_clients_print_witness:
  "run_client lookup_dispatch (\<lambda>_. False) (MySumProvider 7 @ MySumProvider (7 + 1)) (provider_client 8) =
      ([Computing 42 ''+'' 63, Answered ''(sum) Server answered'' (VInt 105),
        Computing 42 ''*'' 63, Answered ''(prod) Server answered'' (VInt 105), HelloLine ''Matthieu'',
        PrintingLine ''Matthieu''], Finished 0)"
proof -
  have "(8 :: 16 word) = 7 \<or> (8 :: 16 word) = 7 + 1" by simp
  from rpc_clients_print [OF lookup_dispatches this, of "\<lambda>_. False"] show ?thesis by blast
qed

text \<open>
  The providers of \<open>thallium_provider2\<close>: while the engine runs, eight procedures with distinct
  names and numbers are registered, four for each of two different numbers. Finalizing it, in
  whatever order the callbacks are called, deletes each provider once and leaves neither a procedure
  nor a callback behind. The second number is the first plus one modulo \<open>2\<^sup>1\<^sup>6\<close>, so for the largest
  number the server announces 65536 and registers 0.
\<close>

theorem provider2_lifecycle:
  assumes "mset order = mset (callbacks (provider2_server pid))"
  shows "distinct (map rpc_key (registry (provider2_server pid))) \<and> length (registry (provider2_server pid)) = 8 \<and>
    fold provider_delete order (provider2_server pid) = \<lparr>registry = [], callbacks = []\<rparr> \<and>
    (as_uint16 (opt_text r ''provider'') = Inr 65535 \<and> opt_count r ''help'' = 0 \<and> opt_count r ''server'' = 1 \<longrightarrow>
     provider2_main as_uint16 r = ([Running (opt_text r ''addr'') [65535, 65536]],
       Inr (Server (opt_text r ''addr'') (registry (provider2_server 65535)) True)) \<and>
     callbacks (provider2_server 65535) = [0, 65535])"
proof -
  have ne: "pid + 1 \<noteq> pid" by simp
  have cb: "callbacks (provider2_server pid) = [pid + 1, pid]"
    by (simp add: provider2_server_def provider_create_def)
  have reg: "registry (provider2_server pid) = MySumProvider pid @ MySumProvider (pid + 1)"
    by (simp add: provider2_server_def provider_create_def)
  have "mset order = mset [pid + 1, pid]" using assms cb by simp
  moreover from this have "length order = 2" using mset_eq_length by fastforce
  then obtain x y where "order = [x, y]" by (auto simp: length_Suc_conv numeral_2_eq_2)
  moreover have "set order = {pid + 1, pid}"
    using arg_cong [OF \<open>mset order = mset [pid + 1, pid]\<close>, of set_mset] by simp
  ultimately have "order = [pid + 1, pid] \<or> order = [pid, pid + 1]" by (auto simp: doubleton_eq_iff)
  then have "fold provider_delete order (provider2_server pid) = \<lparr>registry = [], callbacks = []\<rparr>"
    by (auto simp: provider2_server_def provider_create_def provider_delete_def deregister_def MySumProvider_def)
  moreover have "distinct (map rpc_key (registry (provider2_server pid)))"
    unfolding reg by (rule provider2.keys)
  moreover have "length (registry (provider2_server pid)) = 8" unfolding reg by (simp add: MySumProvider_def)
  moreover have "provider2_main as_uint16 r = ([Running (opt_text r ''addr'') [65535, 65536]],
       Inr (Server (opt_text r ''addr'') (registry (provider2_server 65535)) True)) \<and>
     callbacks (provider2_server 65535) = [0, 65535]"
    if "as_uint16 (opt_text r ''provider'') = Inr 65535" "opt_count r ''help'' = 0" "opt_count r ''server'' = 1"
  proof -
    have "(65536 :: 16 word) = 0" by simp
    then show ?thesis using that by (simp add: provider2_main_def provider2_server_def provider_create_def Let_def)
  qed
  ultimately show ?thesis by blast
qed

theorem provider2_lifecycle_witness:
  "fold provider_delete [5, 6] (provider2_server 5) = \<lparr>registry = [], callbacks = []\<rparr> \<and>
   provider2_main (\<lambda>_. Inr 65535) (command_line [(''addr'', ''tcp'')] [] [''server'']) =
     ([Running ''tcp'' [65535, 65536]], Inr (Server ''tcp'' (registry (provider2_server 65535)) True))"
proof -
  let ?r = "command_line [(''addr'', ''tcp'')] [] [''server'']"
  have order: "mset [5, 6] = mset (callbacks (provider2_server 5))" by (simp add: provider2_server_def provider_create_def)
  have r: "opt_text ?r ''addr'' = ''tcp''" "opt_count ?r ''help'' = 0" "opt_count ?r ''server'' = 1"
    by (simp_all add: command_line_def)
  from provider2_lifecycle [OF order, of "\<lambda>_. Inr 65535" ?r] r show ?thesis by simp
qed

text \<open>
  Bulk transfers, with server and client started with the same size and a library that copies
  memory of equal sizes. The server of \<open>thallium_rdma2\<close> receives exactly the client's random string, of
  that many letters and digits. In \<open>thallium_rdma\<close> the client exposes one byte more than the server
  provides, whatever the size, and size 0 is undefined.
\<close>

theorem rdma_transfer:
  assumes "in_range draw" "\<And>remote. pull remote (length remote) = Inr remote"
  shows "(\<exists>s. rdma2_handler pull n (rdma2_client draw rng n) = Inr (s, n) \<and> length s = n \<and> list_all is_alnum s) \<and>
    length (rdma_client draw rng n) = n + 1 \<and> rdma_handler pull 0 (rdma_client draw rng 0) = Inl Undefined"
proof -
  let ?s = "fst (generateRandomAlphanumericString draw n rng)"
  have "length ?s = n" "list_all is_alnum ?s" using random_string_alnum [OF assms(1), of n rng] by simp_all
  then show ?thesis
    using assms(2) [of ?s]
    by (simp add: rdma2_handler_def rdma2_client_def rdma2_segment_def rdma_client_def rdma_segment_def rdma_handler_def)
qed

theorem rdma_transfer_witness:
  "\<exists>s. rdma2_handler (\<lambda>r n. Inr (take n r)) 5 (rdma2_client (\<lambda>m (g :: nat). (g mod (m + 1), g + 7)) 58 5) = Inr (s, 5) \<and>
     length s = 5 \<and> list_all is_alnum s"
proof -
  have "in_range (\<lambda>m (g :: nat). (g mod (m + 1), g + 7))" by (simp add: in_range_def less_Suc_eq_le [symmetric])
  from rdma_transfer [OF this, of "\<lambda>r n. Inr (take n r)" 5 58] show ?thesis by simp
qed

end
