(* ===== verification/Argobots.thy ===== *)
theory Argobots
  imports Work_Pool
begin

text \<open>
  The programs that start execution streams and threads through Argobots: \<open>argobots_1\<close>, \<open>main\<close> of
  \<open>thallium_custom_schedulers_and_pools\<close> and the streams of \<open>thallium_with_argobot_pools\<close>. A program is the sequence of its library calls; the elements
  of its vectors of handles are numbered. The properties are about the use of these handles.
\<close>

section \<open>Calls and handles\<close>

datatype handle = HStream nat | HPool nat | HSched nat | HThread nat

datatype abt_call =
    Init
  | StreamSelf nat
  | StreamCreate nat
  | GetMainPool nat nat
  | ThreadCreate nat nat
  | ThreadFree nat
  | StreamJoin nat
  | StreamFree nat
  | PoolCreate nat
  | SchedCreate nat "nat list"
  | StreamCreateSched nat nat
  | StreamCreatePool nat nat
  | MakeThread nat nat
  | ThreadJoin nat
  | Finalize

text \<open>The handles a call reads, the ones it sets and the ones that are gone after it.\<close>

fun needs :: "abt_call \<Rightarrow> handle set" where
  "needs (GetMainPool s p) = {HStream s}"
| "needs (ThreadCreate t p) = {HPool p}"
| "needs (ThreadFree t) = {HThread t}"
| "needs (StreamJoin s) = {HStream s}"
| "needs (StreamFree s) = {HStream s}"
| "needs (SchedCreate i ps) = HPool ` set ps"
| "needs (StreamCreateSched s i) = {HSched i}"
| "needs (StreamCreatePool s p) = {HPool p}"
| "needs (MakeThread t s) = {HStream s}"
| "needs (ThreadJoin t) = {HThread t}"
| "needs _ = {}"

fun sets :: "abt_call \<Rightarrow> handle set" where
  "sets (StreamSelf s) = {HStream s}"
| "sets (StreamCreate s) = {HStream s}"
| "sets (GetMainPool s p) = {HPool p}"
| "sets (ThreadCreate t p) = {HThread t}"
| "sets (PoolCreate p) = {HPool p}"
| "sets (SchedCreate i ps) = {HSched i}"
| "sets (StreamCreateSched s i) = {HStream s}"
| "sets (StreamCreatePool s p) = {HStream s}"
| "sets (MakeThread t s) = {HThread t}"
| "sets _ = {}"

fun drops :: "abt_call \<Rightarrow> handle set" where
  "drops (ThreadFree t) = {HThread t}"
| "drops (StreamFree s) = {HStream s}"
| "drops _ = {}"

text \<open>
  The handles after a sequence of calls; \<open>None\<close> if a call uses a handle that is not set, or no longer,
  or sets one that is still in use.
\<close>

fun live_after :: "abt_call list \<Rightarrow> handle set \<Rightarrow> handle set option" where
  "live_after [] H = Some H"
| "live_after (c # cs) H =
     (if needs c \<subseteq> H \<and> sets c \<inter> H = {} then live_after cs ((H - drops c) \<union> sets c) else None)"

section \<open>\<open>argobots_1\<close>\<close>

definition kNxstreams :: nat where "kNxstreams = 2"
definition kNthreads :: nat where "kNthreads = 8"

text \<open>What a thread prints: its number and the rank of the stream it runs on.\<close>

definition helloWorld :: "nat \<Rightarrow> nat \<Rightarrow> nat \<times> nat" where
  "helloWorld tid rank = (tid, rank)"

text \<open>\<open>main\<close> with \<open>n\<close> streams and \<open>t\<close> threads; thread \<open>i\<close> gets the argument number \<open>i\<close>.\<close>

definition abt_main :: "nat \<Rightarrow> nat \<Rightarrow> abt_call list" where
  "abt_main n t =
     [Init, StreamSelf 0] @ map StreamCreate [1..<n] @ map (\<lambda>i. GetMainPool i i) [0..<n] @
     map (\<lambda>i. ThreadCreate i (i mod n)) [0..<t] @ map ThreadFree [0..<t] @
     concat (map (\<lambda>i. [StreamJoin i, StreamFree i]) [0..<n]) @ [Finalize]"

section \<open>\<open>main\<close> of \<open>thallium_custom_schedulers_and_pools\<close>\<close>

definition custom_main :: "nat \<Rightarrow> nat \<Rightarrow> abt_call list" where
  "custom_main n t =
     [Init] @ map PoolCreate [0..<n] @ map (\<lambda>i. SchedCreate i (poolsForSched n i)) [0..<n] @
     map (\<lambda>i. StreamCreateSched i i) [0..<n] @ map (\<lambda>i. MakeThread i (xstream_of n i)) [0..<t] @
     map ThreadJoin [0..<t] @ map StreamJoin [0..<n]"

section \<open>The server of \<open>thallium_with_argobot_pools\<close>\<close>

text \<open>One pool of handlers and \<open>n\<close> streams that serve it; the source has four.\<close>

definition pools_server :: "nat \<Rightarrow> abt_call list" where
  "pools_server n = [Init, PoolCreate 0] @ map (\<lambda>i. StreamCreatePool i 0) [0..<n] @ map StreamJoin [0..<n]"

section \<open>Laws\<close>

lemma live_append: "live_after (cs @ ds) H = (case live_after cs H of None \<Rightarrow> None | Some H' \<Rightarrow> live_after ds H')"
  by (induction cs arbitrary: H) simp_all

text \<open>Calls that each set one new handle, and calls that each use or drop one.\<close>

lemma live_new:
  assumes "\<And>i. i \<in> set is \<Longrightarrow> needs (c i) \<subseteq> H \<and> drops (c i) = {} \<and> sets (c i) = {h i}"
    and "h ` set is \<inter> H = {}" "inj h" "distinct is"
  shows "live_after (map c is) H = Some (H \<union> h ` set is)"
  using assms(1,2,4)
proof (induction "is" arbitrary: H)
  case (Cons i "is")
  have "live_after (map c is) (insert (h i) H) = Some (insert (h i) H \<union> h ` set is)"
  proof (rule Cons.IH)
    show "needs (c j) \<subseteq> insert (h i) H \<and> drops (c j) = {} \<and> sets (c j) = {h j}" if "j \<in> set is" for j
      using Cons.prems(1) [of j] that by auto
    show "h ` set is \<inter> insert (h i) H = {}" using Cons.prems(2,3) assms(3) by (auto dest: injD)
  qed (use Cons.prems(3) in simp)
  then show ?case using Cons.prems(1) [of i] Cons.prems(2) by auto
qed simp

lemma live_use:
  assumes "\<And>i. i \<in> set is \<Longrightarrow> needs (c i) \<subseteq> H \<and> drops (c i) = {} \<and> sets (c i) = {}"
  shows "live_after (map c is) H = Some H"
  using assms by (induction "is") auto

lemma live_drop:
  assumes "h ` set is \<subseteq> H" "inj h" "distinct is" "\<And>i. needs (c i) = {h i} \<and> drops (c i) = {h i} \<and> sets (c i) = {}"
  shows "live_after (map c is) H = Some (H - h ` set is)"
  using assms(1,3)
proof (induction "is" arbitrary: H)
  case (Cons i "is")
  have "h ` set is \<subseteq> H - {h i}" using Cons.prems assms(2) by (auto dest: injD)
  from Cons.IH [OF this] Cons.prems show ?case by (auto simp: assms(4))
qed simp

lemma live_join_free:
  "HStream ` set is \<subseteq> H \<Longrightarrow> distinct is \<Longrightarrow>
   live_after (concat (map (\<lambda>i. [StreamJoin i, StreamFree i]) is)) H = Some (H - HStream ` set is)"
proof (induction "is" arbitrary: H)
  case (Cons i "is")
  have "HStream ` set is \<subseteq> H - {HStream i}" using Cons.prems by auto
  from Cons.IH [OF this] Cons.prems show ?case by auto
qed simp

lemma inj_handles: "inj HStream" "inj HPool" "inj HSched" "inj HThread"
  by (auto simp: inj_def)

lemma custom_pools: "0 < n \<Longrightarrow> i < n \<Longrightarrow> HPool ` set (poolsForSched n i) \<subseteq> HPool ` {0..<n} \<longleftrightarrow> i = 0"
proof -
  assume n: "0 < n" "i < n"
  have "i = 0" if "HPool ` set (poolsForSched n i) \<subseteq> HPool ` {0..<n}"
  proof -
    have "HPool (n - 1 + i mod n) \<in> HPool ` set (poolsForSched n i)" using n by (auto simp: poolsForSched_def)
    then have "n - 1 + i < n" using that n by auto
    then show ?thesis using n by simp
  qed
  then show ?thesis by (auto simp: poolsForSched_def)
qed

lemma custom_main_pools: "live_after ([Init] @ map PoolCreate [0..<n]) {} = Some (HPool ` {0..<n})"
  unfolding live_append by (simp, subst live_new [where h = HPool]) (auto simp: inj_handles)

lemma custom_main_one: "live_after (custom_main 1 t) {} \<noteq> None"
proof -
  let ?H = "{HPool 0, HSched 0, HStream 0}"
  have "live_after (map (\<lambda>i. MakeThread i (xstream_of 1 i)) [0..<t]) ?H = Some (?H \<union> HThread ` {0..<t})"
    by (subst live_new [where h = HThread]) (auto simp: inj_handles xstream_of_def)
  moreover have "live_after (map ThreadJoin [0..<t]) (?H \<union> HThread ` {0..<t}) = Some (?H \<union> HThread ` {0..<t})"
    by (rule live_use) auto
  ultimately show ?thesis
    by (simp add: custom_main_def live_append poolsForSched_def insert_commute)
qed

lemma custom_main_more: "2 \<le> n \<Longrightarrow> live_after (custom_main n t) {} = None"
proof -
  assume n: "2 \<le> n"
  have "\<not> HPool ` set (poolsForSched n 1) \<subseteq> HPool ` {0..<n}" using custom_pools [of n 1] n by simp
  then have bad: "\<not> HPool ` set (poolsForSched n 1) \<subseteq> insert (HSched 0) (HPool ` {0..<n})" by blast
  have ups: "[0..<n] = 0 # 1 # [2..<n]" using n by (simp add: upt_rec numeral_2_eq_2)
  have "live_after (map (\<lambda>i. SchedCreate i (poolsForSched n i)) (0 # 1 # [2..<n])) (HPool ` {0..<n}) = None"
    using bad by simp
  then have "live_after (map (\<lambda>i. SchedCreate i (poolsForSched n i)) [0..<n]) (HPool ` {0..<n}) = None"
    by (simp only: ups)
  then show ?thesis
    using custom_main_pools [of n] unfolding custom_main_def append_assoc [symmetric] live_append by simp
qed

lemma pools_server_handles: "live_after (pools_server n) {} = Some (insert (HPool 0) (HStream ` {0..<n}))"
proof -
  let ?H = "insert (HPool 0) (HStream ` {0..<n})"
  have "live_after (map (\<lambda>i. StreamCreatePool i 0) [0..<n]) {HPool 0} = Some ?H"
    by (subst live_new [where h = HStream]) (auto simp: inj_handles)
  moreover have "live_after (map StreamJoin [0..<n]) ?H = Some ?H" by (rule live_use) auto
  ultimately show ?thesis by (simp add: pools_server_def live_append)
qed

section \<open>Properties\<close>

text \<open>
  Both programs as sequences of library calls, with any number of streams and threads. In
  \<open>argobots_1\<close> every handle is set before it is used and not used after it is freed, every thread is
  created once on an existing pool and freed, and every stream is joined and freed, the primary one,
  which only \<open>StreamSelf\<close> has looked up, included. In \<open>main\<close> of \<open>thallium_custom_schedulers_and_pools\<close>
  the handles are used correctly exactly if there is one stream, as the constant says: with more, the
  second scheduler is given a pool past the end of the vector.
\<close>

theorem abt_handles:
  assumes "0 < n"
  shows "live_after (abt_main n t) {} = Some (HPool ` {0..<n}) \<and>
    {StreamSelf 0, StreamJoin 0, StreamFree 0} \<subseteq> set (abt_main n t) \<and> StreamCreate 0 \<notin> set (abt_main n t) \<and>
    (live_after (custom_main n t) {} \<noteq> None \<longleftrightarrow> n = 1)"
proof -
  have 0: "live_after [Init, StreamSelf 0] {} = Some {HStream 0}" by simp
  have 1: "live_after (map StreamCreate [1..<n]) {HStream 0} = Some (HStream ` {0..<n})"
  proof -
    have "{0..<n} = insert 0 {1..<n}" using assms by auto
    then show ?thesis by (subst live_new [where h = HStream]) (auto simp: inj_handles)
  qed
  have 2: "live_after (map (\<lambda>i. GetMainPool i i) [0..<n]) (HStream ` {0..<n}) = Some (HStream ` {0..<n} \<union> HPool ` {0..<n})"
    by (subst live_new [where h = HPool]) (auto simp: inj_handles)
  have 3: "live_after (map (\<lambda>i. ThreadCreate i (i mod n)) [0..<t]) (HStream ` {0..<n} \<union> HPool ` {0..<n}) =
      Some (HStream ` {0..<n} \<union> HPool ` {0..<n} \<union> HThread ` {0..<t})"
    by (subst live_new [where h = HThread]) (use assms in \<open>auto simp: inj_handles\<close>)
  have 4: "live_after (map ThreadFree [0..<t]) (HStream ` {0..<n} \<union> HPool ` {0..<n} \<union> HThread ` {0..<t}) =
      Some (HStream ` {0..<n} \<union> HPool ` {0..<n})"
    by (subst live_drop [where h = HThread]) (auto simp: inj_handles)
  have 5: "live_after (concat (map (\<lambda>i. [StreamJoin i, StreamFree i]) [0..<n])) (HStream ` {0..<n} \<union> HPool ` {0..<n}) =
      Some (HPool ` {0..<n})"
    by (subst live_join_free) auto
  have "live_after (abt_main n t) {} = Some (HPool ` {0..<n})"
    unfolding abt_main_def live_append 0 option.case 1 2 3 4 5 by simp
  moreover have "{StreamSelf 0, StreamJoin 0, StreamFree 0} \<subseteq> set (abt_main n t)" "StreamCreate 0 \<notin> set (abt_main n t)"
    using assms by (auto simp: abt_main_def)
  moreover have "live_after (custom_main n t) {} \<noteq> None \<longleftrightarrow> n = 1"
    using custom_main_one [of t] custom_main_more [of n t] assms by (cases "n = 1") auto
  ultimately show ?thesis by blast
qed

theorem abt_handles_witness:
  "live_after (abt_main kNxstreams kNthreads) {} = Some (HPool ` {0..<2}) \<and>
   live_after (custom_main NUM_XSTREAMS NUM_THREADS) {} \<noteq> None"
proof -
  have n: "0 < kNxstreams" "0 < NUM_XSTREAMS" by (simp_all add: kNxstreams_def NUM_XSTREAMS_def)
  show ?thesis
    using abt_handles [OF n(1), of kNthreads] abt_handles [OF n(2), of NUM_THREADS]
    by (simp add: kNxstreams_def NUM_XSTREAMS_def)
qed

end
