(* ===== verification/Small_Programs.thy ===== *)
theory Small_Programs
  imports Program_Effects Byte_Memory Small_Libraries Striping
begin

text \<open>
  The remaining small programs: \<open>libpmemblk_example\<close> on a pool of blocks, whose library is a parameter,
  the two deliberate memory errors \<open>ppm_ch12_1_stackoverflow\<close> and \<open>ppm_ch12_3_leak\<close>, and the programs
  that show the use of a library: \<open>use_library\<close>, \<open>use_header_only\<close> \<open>example_cxxopts\<close> and
  \<open>holder_class_example\<close>.
\<close>

section \<open>\<open>libpmemblk_example\<close>\<close>

definition ELEMENT_SIZE :: nat where "ELEMENT_SIZE = 512"
definition POOL_SIZE :: u64 where "POOL_SIZE = 1073741824"

text \<open>The library: a call that fails returns \<open>False\<close> or \<open>None\<close>.\<close>

record ('s) blk_lib =
  blk_create :: "string \<Rightarrow> nat \<Rightarrow> u64 \<Rightarrow> 's option"
  blk_open_pool :: "string \<Rightarrow> nat \<Rightarrow> 's option"
  blk_nblock :: "'s \<Rightarrow> nat"
  blk_write :: "string \<Rightarrow> nat \<Rightarrow> 's \<Rightarrow> 's \<times> bool"
  blk_read :: "nat \<Rightarrow> 's \<Rightarrow> string option"
  blk_set_zero :: "nat \<Rightarrow> 's \<Rightarrow> 's \<times> bool"

text \<open>Its contract: what a call that succeeds has done to the blocks.\<close>

definition blk_contract :: "'s blk_lib \<Rightarrow> ('s \<Rightarrow> nat \<Rightarrow> string) \<Rightarrow> bool" where
  "blk_contract lib blocks \<longleftrightarrow>
     (\<forall>buf i s s'. blk_write lib buf i s = (s', True) \<longrightarrow> blocks s' = (blocks s)(i := buf)) \<and>
     (\<forall>i s buf. blk_read lib i s = Some buf \<longrightarrow> buf = blocks s i) \<and>
     (\<forall>i s s'. blk_set_zero lib i s = (s', True) \<longrightarrow> blocks s' = (blocks s)(i := replicate ELEMENT_SIZE NUL))"

datatype blk_io = HoldsElements nat | BlkError string

definition blk_try :: "string \<Rightarrow> ('s \<Rightarrow> 's \<times> bool) \<Rightarrow> ('s, blk_io, unit) prog" where
  "blk_try what f = bindp (call f) (\<lambda>ok. if ok then ret () else block [emit [BlkError what], halt (Finished 1)])"

text \<open>
  \<open>garbage\<close> is what the buffer held before \<open>strcpy\<close>: the rest of it is written to the block as it is.
\<close>

definition blk_buf :: "string \<Rightarrow> string" where
  "blk_buf garbage = ''hello, world'' @ [NUL] @ drop 13 garbage"

definition blk_example_ops :: "'s blk_lib \<Rightarrow> string \<Rightarrow> ('s, blk_io, unit) prog" where
  "blk_example_ops lib garbage = block
     [bindp (query (blk_nblock lib)) (\<lambda>n. emit [HoldsElements n]),
      blk_try ''pmemblk_write'' (blk_write lib (blk_buf garbage) 5),
      bindp (query (blk_read lib 10)) (\<lambda>r. if r = None then block [emit [BlkError ''pmemblk_read''], halt (Finished 1)] else ret ()),
      blk_try ''pmemblk_set_zero'' (blk_set_zero lib 5)]"

definition blk_example_main :: "'s blk_lib \<Rightarrow> string \<Rightarrow> 's option \<times> blk_io list \<times> prog_end" where
  "blk_example_main lib garbage =
     (let path = ''./blkexample.pool'' in
      case (case blk_create lib path ELEMENT_SIZE POOL_SIZE of
              Some p \<Rightarrow> Some p | None \<Rightarrow> blk_open_pool lib path ELEMENT_SIZE) of
        None \<Rightarrow> (None, [BlkError path], Finished 1)
      | Some pbp \<Rightarrow> (case run_main (blk_example_ops lib garbage) pbp of (s', out, e) \<Rightarrow> (Some s', out, e)))"

section \<open>\<open>ppm_ch12_1_stackoverflow\<close> and \<open>ppm_ch12_3_leak\<close>\<close>

text \<open>The C heap: the allocated arrays of \<open>int\<close>.\<close>

type_synonym int_heap = "addr \<rightharpoonup> int list"

definition c_malloc :: "(int_heap \<Rightarrow> addr option) \<Rightarrow> nat \<Rightarrow> int list \<Rightarrow> int_heap \<Rightarrow> int_heap \<times> addr option" where
  "c_malloc mk n garbage h =
     (case mk h of None \<Rightarrow> (h, None) | Some a \<Rightarrow> (h(a \<mapsto> take n (garbage @ replicate n 0)), Some a))"

definition c_store :: "addr option \<Rightarrow> nat \<Rightarrow> int \<Rightarrow> int_heap \<Rightarrow> int_heap res" where
  "c_store p i x h =
     (case p of
        None \<Rightarrow> Inl Undefined
      | Some a \<Rightarrow>
          (case h a of
             None \<Rightarrow> Inl Undefined
           | Some xs \<Rightarrow> if i < length xs then Inr (h(a \<mapsto> xs[i := x])) else Inl Undefined))"

definition c_free :: "addr option \<Rightarrow> int_heap \<Rightarrow> int_heap" where
  "c_free p h = (case p of None \<Rightarrow> h | Some a \<Rightarrow> h(a := None))"

definition stackoverflow_main :: "(int_heap \<Rightarrow> addr option) \<Rightarrow> int list \<Rightarrow> int_heap \<Rightarrow> (int_heap \<times> int) res" where
  "stackoverflow_main mk garbage h =
     (case c_malloc mk 100 garbage h of
        (h, stack) \<Rightarrow>
          (case c_store stack 100 1234 h of Inl e \<Rightarrow> Inl e | Inr h \<Rightarrow> Inr (c_free stack h, 0)))"

definition leak_func :: "(int_heap \<Rightarrow> addr option) \<Rightarrow> int list \<Rightarrow> int_heap \<Rightarrow> int_heap" where
  "leak_func mk garbage h = fst (c_malloc mk 100 garbage h)"

definition leak_main :: "(int_heap \<Rightarrow> addr option) \<Rightarrow> int list \<Rightarrow> int_heap \<Rightarrow> int_heap \<times> int" where
  "leak_main mk garbage h = (leak_func mk garbage h, 0)"

lemma stackoverflow_undefined: "stackoverflow_main mk garbage h = Inl Undefined"
  by (auto simp: stackoverflow_main_def c_malloc_def c_store_def split: option.splits)

lemma leak_main_leaks:
  "mk h = Some a \<Longrightarrow> h a = None \<Longrightarrow> dom (fst (leak_main mk garbage h)) = insert a (dom h)"
  by (simp add: leak_main_def leak_func_def c_malloc_def)

section \<open>Users of libraries\<close>

definition use_library_main :: "string list" where
  "use_library_main = [''Hello World'', say]"

definition use_header_only_main :: string where
  "use_header_only_main = doubleHello ''Konnitiwa!''"

text \<open>\<open>parse\<close> is the option parser, which may throw; with or without help the status is 0.\<close>

definition example_cxxopts_main :: "(string list \<Rightarrow> parsed res) \<Rightarrow> string \<Rightarrow> string list \<Rightarrow> string list \<times> ended" where
  "example_cxxopts_main parse_options help_text argv =
     (case parse_options argv of
        Inl e \<Rightarrow> ([], Uncaught e)
      | Inr r \<Rightarrow> if opt_count r ''help'' \<noteq> 0 then ([help_text], Exited 0) else ([], Exited 0))"

section \<open>\<open>holder_class_example\<close>\<close>

text \<open>
  \<open>Holder<T>\<close> with its constructors. \<open>mv v\<close> is what a move leaves where \<open>v\<close> was; for \<open>unique_ptr<int>\<close>, null or
  the address of an object it owns, that is null. A constructor from an rvalue gives the new
  object and what is left of its argument. The defaulted copy constructor and the one from a
  constant reference exist only for a \<open>T\<close> that can be copied.
\<close>

record 'v holder =
  hv :: 'v

definition holder_move :: "('v \<Rightarrow> 'v) \<Rightarrow> 'v holder \<Rightarrow> 'v holder \<times> 'v holder" where
  "holder_move mv other = (\<lparr>hv = hv other\<rparr>, \<lparr>hv = mv (hv other)\<rparr>)"

definition holder_copy :: "bool \<Rightarrow> 'v holder \<Rightarrow> 'v holder option" where
  "holder_copy copyable other = (if copyable then Some \<lparr>hv = hv other\<rparr> else None)"

definition holder_of_const :: "bool \<Rightarrow> 'v \<Rightarrow> 'v holder option" where
  "holder_of_const copyable other = (if copyable then Some \<lparr>hv = other\<rparr> else None)"

definition holder_of_rvalue :: "('v \<Rightarrow> 'v) \<Rightarrow> 'v \<Rightarrow> 'v holder \<times> 'v" where
  "holder_of_rvalue mv other = (\<lparr>hv = other\<rparr>, mv other)"

type_synonym ptr_heap = "addr \<rightharpoonup> int"

definition make_unique_int :: "(ptr_heap \<Rightarrow> addr) \<Rightarrow> int \<Rightarrow> ptr_heap \<Rightarrow> addr option \<times> ptr_heap" where
  "make_unique_int new_int v h = (let a = new_int h in (Some a, h(a \<mapsto> v)))"

text \<open>The destructor of a \<open>unique_ptr\<close>; deleting what is not there is undefined.\<close>

definition unique_delete :: "addr option \<Rightarrow> ptr_heap \<Rightarrow> ptr_heap res" where
  "unique_delete p h =
     (case p of None \<Rightarrow> Inr h | Some a \<Rightarrow> if h a = None then Inl Undefined else Inr (h(a := None)))"

fun delete_all :: "addr option list \<Rightarrow> ptr_heap \<Rightarrow> ptr_heap res" where
  "delete_all [] h = Inr h"
| "delete_all (p # ps) h = (case unique_delete p h of Inl e \<Rightarrow> Inl e | Inr h' \<Rightarrow> delete_all ps h')"

text \<open>
  Each \<open>emplace_back\<close> builds the element from the temporary, which is destroyed at the end of the
  statement; the vectors are destroyed at the end of \<open>main\<close>, the second first. The result is what is
  left on the heap.
\<close>

definition holder_main :: "(ptr_heap \<Rightarrow> addr) \<Rightarrow> ptr_heap \<Rightarrow> ptr_heap res" where
  "holder_main new_int h =
     (let (p, h) = make_unique_int new_int 100 h; (v1, rest1) = ([p], None) in
      case unique_delete rest1 h of Inl e \<Rightarrow> Inl e | Inr h \<Rightarrow>
      (let (q, h) = make_unique_int new_int 200 h; (x, rest2) = holder_of_rvalue (\<lambda>_. None) q; v2 = [x] in
       case unique_delete rest2 h of Inl e \<Rightarrow> Inl e | Inr h \<Rightarrow> delete_all (map hv v2 @ v1) h))"

text \<open>Nothing is deleted twice and nothing is left: ownership is passed on by every move.\<close>

lemma holder_main_clean:
  assumes "\<And>h. h (new_int h) = None"
  shows "holder_main new_int h = Inr h"
proof -
  define a b where "a = new_int h" and "b = new_int (h(a \<mapsto> 100))"
  have "h a = None" "b \<noteq> a" "h b = None"
    using assms [of h] assms [of "h(a \<mapsto> 100)"] by (auto simp: a_def b_def split: if_splits)
  moreover from this have "(h(a \<mapsto> 100, b \<mapsto> 200))(b := None, a := None) = h" by (auto simp: fun_eq_iff)
  ultimately show ?thesis
    by (simp add: holder_main_def make_unique_int_def unique_delete_def holder_of_rvalue_def Let_def
        flip: a_def b_def)
qed

section \<open>Properties\<close>

text \<open>
  \<open>libpmemblk_example\<close> on a library that keeps its contract, whichever calls fail: a run that
  ends with 0 has zeroed block 5 and left every other block as it was, so the text it has written in
  between is gone. A run that fails ends with 1 and an error message as its last output; if it fails
  at the read, block 5 holds the text and the uninitialised rest of the buffer.
\<close>

theorem blk_example_effect:
  assumes "blk_contract lib blocks" "blk_create lib ''./blkexample.pool'' ELEMENT_SIZE POOL_SIZE = Some s"
    and "blk_example_main lib garbage = (Some s', out, e)"
  shows "e = Finished 0 \<and> blocks s' = (blocks s)(5 := replicate ELEMENT_SIZE NUL) \<or>
    e = Finished 1 \<and> last out = BlkError ''pmemblk_read'' \<and> blocks s' = (blocks s)(5 := blk_buf garbage) \<or>
    e = Finished 1 \<and> (last out = BlkError ''pmemblk_write'' \<or> last out = BlkError ''pmemblk_set_zero'')"
proof -
  have c: "blk_write lib buf i t = (t', True) \<Longrightarrow> blocks t' = (blocks t)(i := buf)"
    "blk_set_zero lib i t = (t', True) \<Longrightarrow> blocks t' = (blocks t)(i := replicate ELEMENT_SIZE NUL)" for buf i t t'
    using assms(1) by (simp_all add: blk_contract_def)
  have run: "run_main (blk_example_ops lib garbage) s = (s', out, e)"
    using assms(2,3) by (auto simp: blk_example_main_def Let_def split: prod.splits)
  obtain s1 ok1 where w: "blk_write lib (blk_buf garbage) 5 s = (s1, ok1)" by fastforce
  obtain s2 ok2 where z: "blk_set_zero lib 5 s1 = (s2, ok2)" by fastforce
  note defs = blk_example_ops_def blk_try_def run_main_def prog_defs
  show ?thesis
  proof (cases "ok1 \<and> blk_read lib 10 s1 \<noteq> None \<and> ok2")
    case True
    then show ?thesis using run w z c(1) [of _ 5 s s1] c(2) [of 5 s1 s2] by (auto simp: defs)
  next
    case False
    then show ?thesis using run w z c(1) [of _ 5 s s1] by (cases ok1; cases "blk_read lib 10 s1") (auto simp: defs)
  qed
qed

theorem blk_example_effect_witness:
  "\<exists>s'. blk_example_main \<lparr>blk_create = (\<lambda>_ _ _. Some (\<lambda>_. ''x'')), blk_open_pool = (\<lambda>_ _. None), blk_nblock = (\<lambda>_. 20),
      blk_write = (\<lambda>buf i s. (s(i := buf), True)), blk_read = (\<lambda>i s. Some (s i)),
      blk_set_zero = (\<lambda>i s. (s(i := replicate ELEMENT_SIZE NUL), True))\<rparr> (replicate 512 CHR ''g'') =
    (Some s', [HoldsElements 20], Finished 0) \<and> s' = (\<lambda>_. ''x'')(5 := replicate ELEMENT_SIZE NUL)"
proof -
  let ?lib = "\<lparr>blk_create = (\<lambda>_ _ _. Some (\<lambda>_. ''x'')), blk_open_pool = (\<lambda>_ _. None), blk_nblock = (\<lambda>_. 20),
      blk_write = (\<lambda>buf i s. (s(i := buf), True)), blk_read = (\<lambda>i s. Some (s i)),
      blk_set_zero = (\<lambda>i s. (s(i := replicate ELEMENT_SIZE NUL), True))\<rparr> :: (nat \<Rightarrow> string) blk_lib"
  have con: "blk_contract ?lib id" by (auto simp: blk_contract_def)
  have o: "blk_create ?lib ''./blkexample.pool'' ELEMENT_SIZE POOL_SIZE = Some (\<lambda>_. ''x'')" by simp
  obtain s' where m: "blk_example_main ?lib (replicate 512 CHR ''g'') = (Some s', [HoldsElements 20], Finished 0)"
    by (simp add: blk_example_main_def blk_example_ops_def blk_try_def run_main_def prog_defs)
  from blk_example_effect [OF con o m] m show ?thesis by simp
qed

end
