(* ===== verification/Bench_Reports.thy ===== *)
theory Bench_Reports
  imports Pmem2_Bench Pmemblk_Bench Pmemobj_Bench Atomic_Bench
begin

text \<open>
  The reports of \<open>pmem2bench\<close>, \<open>pmemblkbench\<close> and \<open>pmemobjbench\<close> as JSON values, the verbose output, the clean-up of
  \<open>pmem2bench\<close>, and its timed run: the workers of theory \<open>Pmem2_Bench\<close> in the frame of barriers and
  clock readings of theory \<open>Timed_Workers\<close>. The layout of the printed text is left to the JSON library.
\<close>

section \<open>JSON values\<close>

text \<open>A real number may be infinite (\<open>None\<close>): the rate over no time.\<close>

datatype json =
    JBool bool
  | JNum u64
  | JReal "rat option"
  | JStr string
  | JObj "(string \<times> json) list"

fun json_get :: "string \<Rightarrow> json \<Rightarrow> json option" where
  "json_get k (JObj xs) = map_of xs k"
| "json_get k _ = None"

fun json_at :: "string list \<Rightarrow> json \<Rightarrow> json option" where
  "json_at [] j = Some j"
| "json_at (k # ks) j = (case json_get k j of None \<Rightarrow> None | Some j' \<Rightarrow> json_at ks j')"

text \<open>\<open>j[k] = v\<close>: replaces the member or adds it.\<close>

fun json_put :: "string \<Rightarrow> json \<Rightarrow> json \<Rightarrow> json" where
  "json_put k v (JObj xs) =
     JObj (if k \<in> fst ` set xs then map (\<lambda>(l, w). (l, if l = k then v else w)) xs else xs @ [(k, v)])"
| "json_put k v j = JObj [(k, v)]"

text \<open>\<open>benchmark_result["results"][k] = v\<close>.\<close>

definition put_result :: "string \<Rightarrow> json \<Rightarrow> json \<Rightarrow> json" where
  "put_result k v j =
     json_put ''results'' (json_put k v (case json_get ''results'' j of Some r \<Rightarrow> r | None \<Rightarrow> JObj [])) j"

section \<open>The reports\<close>

definition access_type :: "bench_args \<Rightarrow> string" where
  "access_type a = (if op_read a then ''read'' else ''write'')"

definition access_pattern :: "bench_args \<Rightarrow> string" where
  "access_pattern a = (if op_random a then ''random'' else ''sequential'')"

definition p2_report_new :: "parsed \<Rightarrow> bench_args \<Rightarrow> json" where
  "p2_report_new r a = JObj
     [(''params'', JObj
        [(''source'', JStr (opt_text r ''source'')), (''path'', JStr (opt_text r ''path'')),
         (''fileSize'', JNum (file_size a)), (''blockSize'', JNum (block_size a)),
         (''stripeSize'', JNum (stripe_size a)), (''nthreads'', JNum (nthreads_arg a)),
         (''totalSize'', JNum (total_size a)), (''accessType'', JStr (access_type a)),
         (''accessPattern'', JStr (access_pattern a)), (''granularity'', JStr (opt_text r ''granularity'')),
         (''nonTemporal'', JBool (opt_count r ''non-temporal'' \<noteq> 0))]),
      (''results'', JObj
        [(''success'', JBool False), (''time'', JReal (Some 0)), (''throuput'', JReal (Some 0)), (''addr'', JNum 0)])]"

definition blk_report_new :: "parsed \<Rightarrow> bench_args \<Rightarrow> json" where
  "blk_report_new r a = JObj
     [(''params'', JObj
        [(''pool'', JStr (opt_text r ''pool'')), (''poolSize'', JNum (file_size a)), (''blockSize'', JNum (block_size a)),
         (''stripeSize'', JNum (stripe_size a)), (''nthreads'', JNum (nthreads_arg a)),
         (''totalSize'', JNum (total_size a)), (''accessType'', JStr (access_type a)),
         (''accessPattern'', JStr (access_pattern a))]),
      (''results'', JObj [(''success'', JBool False), (''time'', JReal (Some 0)), (''throuput'', JReal (Some 0))])]"

definition obj_report_new :: "parsed \<Rightarrow> bench_args \<Rightarrow> json" where
  "obj_report_new r a = JObj
     [(''params'', JObj
        [(''path'', JStr (opt_text r ''path'')), (''fileSize'', JNum (file_size a)), (''blockSize'', JNum (block_size a)),
         (''stripeSize'', JNum (stripe_size a)), (''nthreads'', JNum (nthreads_arg a)),
         (''totalSize'', JNum (total_size a)), (''accessType'', JStr (access_type a)),
         (''onlyAllocation'', JBool (opt_count r ''alloc'' \<noteq> 0)), (''accessPattern'', JStr (access_pattern a))]),
      (''results'', JObj [(''success'', JBool False), (''time'', JReal (Some 0)), (''throuput'', JReal (Some 0))])]"

text \<open>After the run; the timer is frozen, so the time of the call does not matter.\<close>

definition p2_report :: "parsed \<Rightarrow> bench_args \<Rightarrow> bool \<Rightarrow> elapsed_time \<Rightarrow> u64 \<Rightarrow> json" where
  "p2_report r a fail et address =
     (let j = put_result ''success'' (JBool (\<not> fail)) (p2_report_new r a) in
      if fail then j
      else put_result ''addr'' (JNum address)
             (put_result ''throuput'' (JReal (rate (unat (total_size a)) (et_sec 0 et)))
               (put_result ''time'' (JReal (Some (et_msec 0 et))) j)))"

definition blk_report :: "parsed \<Rightarrow> bench_args \<Rightarrow> bool \<Rightarrow> elapsed_time \<Rightarrow> json" where
  "blk_report r a fail et =
     (let j = put_result ''success'' (JBool (\<not> fail)) (blk_report_new r a) in
      if fail then j
      else put_result ''throuput'' (JReal (rate (unat (total_size a)) (et_sec 0 et)))
             (put_result ''time'' (JReal (Some (et_msec 0 et))) j))"

definition obj_report :: "parsed \<Rightarrow> bench_args \<Rightarrow> bool \<Rightarrow> elapsed_time \<Rightarrow> json" where
  "obj_report r a fail et =
     (let j = put_result ''success'' (JBool (\<not> fail)) (obj_report_new r a) in
      if fail then j
      else put_result ''throuput'' (JReal (rate (unat (total_size a)) (et_sec 0 et)))
             (put_result ''time'' (JReal (Some (et_msec 0 et))) j))"

section \<open>Verbose output\<close>

text \<open>
  What \<open>--verbose\<close> prints on the console in \<open>pmem2bench\<close> and \<open>pmemblkbench\<close>: the parameters before the run, and
  after a run that did not fail the time and the rate. A line is its label and its value.
\<close>

definition p2_verbose_params :: "bench_args \<Rightarrow> (string \<times> json) list" where
  "p2_verbose_params a =
     [(''block size'', JNum (block_size a)), (''stripe size'', JNum (stripe_size a)),
      (''nthreads'', JNum (nthreads_arg a)), (''total_size'', JNum (total_size a)),
      (''access pattern'', JStr (if op_random a then ''random'' else ''sequential''))]"

definition p2_verbose_results :: "bench_args \<Rightarrow> bool \<Rightarrow> elapsed_time \<Rightarrow> (string \<times> json) list" where
  "p2_verbose_results a fail et =
     (if fail then []
      else [(''Elapsed Time'', JReal (Some (et_msec 0 et))),
            (''Throuput'', JReal (rate (unat (total_size a)) (et_sec 0 et)))])"

definition blk_verbose_params :: "bench_args \<Rightarrow> (string \<times> json) list" where
  "blk_verbose_params a =
     [(''block size'', JNum (block_size a)), (''stripe size'', JNum (stripe_size a)),
      (''nthreads'', JNum (nthreads_arg a)), (''total_size'', JNum (total_size a)),
      (''access pattern'', JStr (if op_random a then ''random'' else ''sequential''))]"

definition blk_verbose_results :: "bench_args \<Rightarrow> bool \<Rightarrow> elapsed_time \<Rightarrow> (string \<times> json) list" where
  "blk_verbose_results a fail et =
     (if fail then []
      else [(''Elapsed Time'', JReal (Some (et_msec 0 et))),
            (''Throuput'', JReal (rate (unat (total_size a)) (et_sec 0 et)))])"

text \<open>The console and the report agree, on the parameters and on the results.\<close>

lemma verbose_agrees:
  "map_of (p2_verbose_params a) ''total_size'' = json_at [''params'', ''totalSize''] (p2_report r a fail et adr)"
  "map_of (p2_verbose_params a) ''access pattern'' = json_at [''params'', ''accessPattern''] (p2_report r a fail et adr)"
  "map_of (p2_verbose_results a False et) ''Throuput'' = json_at [''results'', ''throuput''] (p2_report r a False et adr)"
  "map_of (p2_verbose_results a False et) ''Elapsed Time'' = json_at [''results'', ''time''] (p2_report r a False et adr)"
  "map_of (blk_verbose_params a) ''total_size'' = json_at [''params'', ''totalSize''] (blk_report r a fail et)"
  "map_of (blk_verbose_params a) ''access pattern'' = json_at [''params'', ''accessPattern''] (blk_report r a fail et)"
  "map_of (blk_verbose_results a False et) ''Throuput'' = json_at [''results'', ''throuput''] (blk_report r a False et)"
  "map_of (blk_verbose_results a False et) ''Elapsed Time'' = json_at [''results'', ''time''] (blk_report r a False et)"
  by (cases fail; simp add: p2_verbose_params_def p2_verbose_results_def blk_verbose_params_def
      blk_verbose_results_def p2_report_def p2_report_new_def blk_report_def blk_report_new_def put_result_def
      access_pattern_def)+

section \<open>The clean-up of \<open>pmem2bench\<close>\<close>

text \<open>
  The descriptors that are open at the end of \<open>main\<close>. \<open>source_get_fd\<close> is the result of
  \<open>pmem2_source_get_fd\<close>: the descriptor the source was made from, nothing for an anonymous source.
\<close>

definition pmem2_cleanup :: "bool \<Rightarrow> int option \<Rightarrow> int list \<Rightarrow> int list" where
  "pmem2_cleanup dry source_get_fd fds =
     (if dry then fds else case source_get_fd of Some fd \<Rightarrow> remove1 fd fds | None \<Rightarrow> fds)"

text \<open>A run that gets that far leaves no descriptor open.\<close>

lemma pmem2_cleanup_closes:
  assumes "fst (pmem2_source sys r a)" "\<And>fd. fd \<in> set (snd (pmem2_source sys r a)) \<Longrightarrow> source_get_fd = Some fd"
  shows "pmem2_cleanup False source_get_fd (snd (pmem2_source sys r a)) = []"
  using assms
  by (auto simp: pmem2_cleanup_def pmem2_source_def createPmem2SourceFromFsdax_def createPmem2SourceFromDevdax_def
      createPmem2SourceFromAnonymous_def Let_def split: option.splits if_splits)

section \<open>The timed run of \<open>pmem2bench\<close>\<close>

text \<open>An iteration of worker \<open>i\<close> in the frame: its next access. \<open>Inl\<close> is the undefined outcome.\<close>

definition pmem2_act :: "bool \<Rightarrow> nat \<Rightarrow> bench_args \<Rightarrow> nat \<Rightarrow> nat \<Rightarrow> pmem2_state res \<Rightarrow> pmem2_state res" where
  "pmem2_act dry map_size a i j sh =
     (case sh of
        Inl e \<Rightarrow> Inl e
      | Inr s \<Rightarrow> (case pmem2_work dry map_size a i s of None \<Rightarrow> Inr s | Some r \<Rightarrow> r))"

definition accesses_per_thread :: "bench_args \<Rightarrow> nat" where
  "accesses_per_thread a = unat (stripe_count a) * unat (blocks_in_strip_unit a)"

definition pmem2_timed_step ::
  "bool \<Rightarrow> nat \<Rightarrow> bench_args \<Rightarrow> pmem2_state res tw \<Rightarrow> pmem2_state res tw \<Rightarrow> bool"
where
  "pmem2_timed_step dry map_size a =
     tw_step (unat (nthreads_arg a)) (accesses_per_thread a) (pmem2_act dry map_size a)"

section \<open>Lemmas\<close>

lemma map_of_update:
  "map_of (map (\<lambda>(l, w). (l, if l = k then v else w)) xs) l =
     (if l = k then map_option (\<lambda>_. v) (map_of xs k) else map_of xs l)"
  by (induction xs) auto

lemma json_get_put: "json_get l (json_put k v (JObj xs)) = (if l = k then Some v else json_get l (JObj xs))"
proof (cases "map_of xs k")
  case None
  then show ?thesis by (auto simp: map_add_def dest: weak_map_of_SomeI split: option.splits)
next
  case (Some w)
  then have "k \<in> fst ` set xs" by (metis map_of_eq_None_iff option.distinct(1))
  with Some show ?thesis by (simp add: map_of_update)
qed

lemma put_result_at:
  assumes "json_get ''results'' j = Some (JObj xs)"
  shows "json_get ''results'' (put_result k v j) = Some (json_put k v (JObj xs))"
    and "json_get ''params'' (put_result k v j) = json_get ''params'' j"
proof -
  obtain ys where j: "j = JObj ys" using assms by (cases j) auto
  have "put_result k v j = json_put ''results'' (json_put k v (JObj xs)) (JObj ys)"
    using assms by (simp add: put_result_def j)
  then show "json_get ''results'' (put_result k v j) = Some (json_put k v (JObj xs))"
    "json_get ''params'' (put_result k v j) = json_get ''params'' j"
    by (simp_all only: json_get_put) (simp_all add: j)
qed

lemma accesses_length: "length (pmem2_offsets a access i) = accesses_per_thread a"
  by (simp add: pmem2_offsets_def accesses_per_thread_def Let_def length_concat comp_def sum_list_triv)

text \<open>The accesses of the frame, one after the other, keep the invariant of the workers.\<close>

lemma fold_pmem2_act:
  assumes "p2_inv dry map_size a access data m s0" "fst ` set ws \<subseteq> {..<unat (nthreads_arg a)}"
  shows "\<exists>st. fold (\<lambda>(i, j). pmem2_act dry map_size a i j) ws (Inr s0) = Inr st \<and> p2_inv dry map_size a access data m st \<and>
    (\<forall>i. pending_ops st i = drop (length (filter (\<lambda>w. fst w = i) ws)) (pending_ops s0 i))"
  using assms
proof (induction ws arbitrary: s0)
  case (Cons w ws)
  obtain i j where w: "w = (i, j)" by (cases w)
  have i: "i < unat (nthreads_arg a)" using Cons.prems(2) by (simp add: w)
  show ?case
  proof (cases "pending_ops s0 i")
    case Nil
    then have "pmem2_act dry map_size a i j (Inr s0) = Inr s0" by (simp add: pmem2_act_def pmem2_work_def)
    with Cons.IH [OF Cons.prems(1)] Cons.prems(2) Nil show ?thesis by (auto simp: w)
  next
    case (Cons x xs)
    have "pmem2_work dry map_size a i s0 \<noteq> None" using Cons by (simp add: pmem2_work_def)
    moreover have "pmem2_work dry map_size a i s0 \<noteq> Some (Inl e)" for e
      using p2_not_stuck [OF Cons.prems(1)] i by (auto simp: pmem2_stuck_def)
    ultimately obtain t where t: "pmem2_work dry map_size a i s0 = Some (Inr t)" by (metis option.exhaust sum.exhaust)
    have pend: "pending_ops t = (pending_ops s0)(i := xs)"
      using t Cons by (auto simp: pmem2_work_def split: sum.splits)
    have "pmem2_act dry map_size a i j (Inr s0) = Inr t" by (simp add: pmem2_act_def t)
    with Cons.IH [OF p2_work_inv [OF Cons.prems(1) i t]] Cons.prems(2) Cons pend show ?thesis by (auto simp: w)
  qed
qed simp

text \<open>The bytes the threads access, all together, against the bytes the report counts.\<close>

lemma accessed_bytes:
  assumes "pmem2_check a = Inr True"
  shows "unat (nthreads_arg a) * accesses_per_thread a * unat (block_size a) \<le> unat (total_size a)"
    and "0 < total_size a \<Longrightarrow> unat (nthreads_arg a) * accesses_per_thread a * unat (block_size a) = unat (total_size a) \<longleftrightarrow>
      unat (block_size a) dvd unat (stripe_size a) div unat (nthreads_arg a)"
proof -
  let ?t = "unat (total_size a)" and ?s = "unat (stripe_size a)" and ?b = "unat (block_size a)" and ?n = "unat (nthreads_arg a)"
  have ok: "striping_ok ?t ?s ?b ?n" by (rule check_nat [OF assms])
  let ?u = "unit_blocks ?s ?b ?n"
  have per: "accesses_per_thread a = ?t div ?s * ?u"
    by (simp add: accesses_per_thread_def unat_unit args_unit_def stripe_count_def unat_div)
  have sb: "?s div ?b * ?b = ?s" and ts: "?t div ?s * ?s = ?t" using ok by (auto simp: striping_ok_def)
  have eq: "?n * accesses_per_thread a * ?b = ?t div ?s * (?n * ?u * ?b)" by (simp add: per ac_simps)
  have le: "?n * ?u * ?b \<le> ?s" using mult_le_mono1 [OF unit_fits(1) [OF ok], of ?b] sb by simp
  have "?t div ?s * (?n * ?u * ?b) \<le> ?t div ?s * ?s" by (rule mult_le_mono2 [OF le])
  then show "?n * accesses_per_thread a * ?b \<le> ?t" by (simp only: eq ts)
  show "?n * accesses_per_thread a * ?b = ?t \<longleftrightarrow> ?b dvd ?s div ?n" if "0 < total_size a"
  proof -
    have t: "0 < ?t" using that by (simp add: word_less_nat_alt)
    have "0 < ?t div ?s" using t ts by (metis gr0I mult_0)
    then have "?n * accesses_per_thread a * ?b = ?t \<longleftrightarrow> ?n * ?u * ?b = ?s" using eq ts by (metis mult_left_cancel not_gr0)
    also have "\<dots> \<longleftrightarrow> ?n * ?u = ?s div ?b" using sb ok by (metis mult_right_cancel neq0_conv striping_ok_def)
    also have "\<dots> \<longleftrightarrow> ?b dvd ?s div ?n" by (rule unit_exact [OF ok])
    finally show ?thesis .
  qed
qed

lemmas report_defs = p2_report_def p2_report_new_def put_result_def Let_def

section \<open>Properties\<close>



end
