(* ===== verification/Timed_Frame.thy ===== *)
theory Timed_Frame
  imports Prelude
begin

text \<open>
  The timed runs of \<open>pmemblkbench\<close> and \<open>pmemobjbench\<close>. Their workers may give up early, so the frame of
  theory \<open>Timed_Workers\<close>, where every worker makes the same number of iterations, does not fit. Here
  the body of a worker is a step relation with a test whether its loops are over. \<open>pmemobjbench\<close> meets
  its workers at a third barrier, stops the clock and joins them; \<open>pmemblkbench\<close> has no third barrier:
  it joins the workers and stops the clock afterwards.
\<close>

section \<open>The frame\<close>

datatype stage = SReady | SReadyWait | SClock | STimer | STimerWait | SBody | SFinishWait | SFreeze | SJoin | SEnd

datatype fr_event = ReadStart | Moved nat | ReadStop

text \<open>Participants \<open>0\<close> to \<open>N - 1\<close> are the workers, participant \<open>N\<close> is the main thread.\<close>

record 'b frame =
  fbody :: 'b
  stage :: "nat \<Rightarrow> stage"
  events :: "fr_event list"

definition fr_new :: "'b \<Rightarrow> 'b frame" where
  "fr_new b = \<lparr>fbody = b, stage = (\<lambda>_. SReady), events = []\<rparr>"

fun srank :: "stage \<Rightarrow> nat" where
  "srank SReady = 0" | "srank SReadyWait = 1" | "srank SClock = 2" | "srank STimer = 3" | "srank STimerWait = 4"
| "srank SBody = 5" | "srank SFinishWait = 6" | "srank SFreeze = 7" | "srank SJoin = 7" | "srank SEnd = 8"

definition all_in :: "nat \<Rightarrow> nat \<Rightarrow> (nat \<Rightarrow> stage) \<Rightarrow> bool" where
  "all_in N k p \<longleftrightarrow> list_all (\<lambda>j. k \<le> srank (p j)) [0..<N + 1]"

definition go_to :: "nat \<Rightarrow> stage \<Rightarrow> 'b frame \<Rightarrow> 'b frame" where
  "go_to i q s = s\<lparr>stage := (stage s)(i := q)\<rparr>"

text \<open>
  \<open>fin\<close> says whether there is a third barrier. A thread waits at a barrier until all have entered it.
\<close>

inductive fr_step :: "bool \<Rightarrow> nat \<Rightarrow> (nat \<Rightarrow> 'b \<Rightarrow> 'b \<Rightarrow> bool) \<Rightarrow> (nat \<Rightarrow> 'b \<Rightarrow> bool) \<Rightarrow> 'b frame \<Rightarrow> 'b frame \<Rightarrow> bool"
  for fin N W over where
  ready_enter: "i \<le> N \<Longrightarrow> stage s i = SReady \<Longrightarrow> fr_step fin N W over s (go_to i SReadyWait s)"
| ready_pass: "i \<le> N \<Longrightarrow> stage s i = SReadyWait \<Longrightarrow> all_in N 1 (stage s) \<Longrightarrow>
    fr_step fin N W over s (go_to i (if i = N then SClock else STimer) s)"
| clock: "stage s N = SClock \<Longrightarrow>
    fr_step fin N W over s (go_to N STimer (s\<lparr>events := events s @ [ReadStart]\<rparr>))"
| timer_enter: "i \<le> N \<Longrightarrow> stage s i = STimer \<Longrightarrow> fr_step fin N W over s (go_to i STimerWait s)"
| timer_pass: "i \<le> N \<Longrightarrow> stage s i = STimerWait \<Longrightarrow> all_in N 4 (stage s) \<Longrightarrow> fr_step fin N W over s (go_to i SBody s)"
| work: "i < N \<Longrightarrow> stage s i = SBody \<Longrightarrow> W i (fbody s) b \<Longrightarrow>
    fr_step fin N W over s (s\<lparr>fbody := b, events := events s @ [Moved i]\<rparr>)"
| leave: "i < N \<Longrightarrow> stage s i = SBody \<Longrightarrow> over i (fbody s) \<Longrightarrow>
    fr_step fin N W over s (go_to i (if fin then SFinishWait else SEnd) s)"
| main_on: "stage s N = SBody \<Longrightarrow> fr_step fin N W over s (go_to N (if fin then SFinishWait else SJoin) s)"
| finish_pass: "i \<le> N \<Longrightarrow> stage s i = SFinishWait \<Longrightarrow> all_in N 6 (stage s) \<Longrightarrow>
    fr_step fin N W over s (go_to i (if i = N then SFreeze else SEnd) s)"
| freeze: "stage s N = SFreeze \<Longrightarrow>
    fr_step fin N W over s (go_to N (if fin then SJoin else SEnd) (s\<lparr>events := events s @ [ReadStop]\<rparr>))"
| join: "stage s N = SJoin \<Longrightarrow> list_all (\<lambda>j. stage s j = SEnd) [0..<N] \<Longrightarrow>
    fr_step fin N W over s (go_to N (if fin then SEnd else SFreeze) s)"

definition fr_final :: "nat \<Rightarrow> 'b frame \<Rightarrow> bool" where
  "fr_final N s \<longleftrightarrow> stage s N = SEnd"

definition body_step :: "nat \<Rightarrow> (nat \<Rightarrow> 'b \<Rightarrow> 'b \<Rightarrow> bool) \<Rightarrow> 'b \<Rightarrow> 'b \<Rightarrow> bool" where
  "body_step N W b b' \<longleftrightarrow> (\<exists>i < N. W i b b')"

section \<open>Invariant\<close>

definition fr_stopped :: "bool \<Rightarrow> stage \<Rightarrow> bool" where
  "fr_stopped fin q \<longleftrightarrow> q = SEnd \<or> fin \<and> q = SJoin"

text \<open>Who is past a barrier has seen all enter it; the main thread ends after its workers.\<close>

definition fr_gates :: "bool \<Rightarrow> nat \<Rightarrow> (nat \<Rightarrow> stage) \<Rightarrow> bool" where
  "fr_gates fin N p \<longleftrightarrow>
     (\<forall>i\<le>N. (2 \<le> srank (p i) \<longrightarrow> all_in N 1 p) \<and> (5 \<le> srank (p i) \<longrightarrow> all_in N 4 p) \<and>
            (fin \<and> 7 \<le> srank (p i) \<longrightarrow> all_in N 6 p)) \<and>
     (\<forall>i<N. p i \<noteq> SClock \<and> p i \<noteq> SFreeze \<and> p i \<noteq> SJoin \<and> (\<not> fin \<longrightarrow> p i \<noteq> SFinishWait)) \<and>
     (\<not> fin \<longrightarrow> p N \<noteq> SFinishWait) \<and> (p N = SEnd \<or> \<not> fin \<and> p N = SFreeze \<longrightarrow> (\<forall>i<N. p i = SEnd))"

definition fr_events :: "bool \<Rightarrow> nat \<Rightarrow> stage \<Rightarrow> fr_event list \<Rightarrow> bool" where
  "fr_events fin N q es \<longleftrightarrow>
     (\<exists>ws. set ws \<subseteq> {..<N} \<and> es = (if 3 \<le> srank q then [ReadStart] else []) @ map Moved ws @
        (if fr_stopped fin q then [ReadStop] else []) \<and> (ws \<noteq> [] \<longrightarrow> 3 \<le> srank q))"

definition fr_inv ::
  "bool \<Rightarrow> nat \<Rightarrow> (nat \<Rightarrow> 'b \<Rightarrow> 'b \<Rightarrow> bool) \<Rightarrow> (nat \<Rightarrow> 'b \<Rightarrow> bool) \<Rightarrow> 'b \<Rightarrow> 'b frame \<Rightarrow> bool"
where
  "fr_inv fin N W over b0 s \<longleftrightarrow> fr_gates fin N (stage s) \<and> fr_events fin N (stage s N) (events s) \<and>
     (\<forall>i<N. 6 \<le> srank (stage s i) \<longrightarrow> over i (fbody s)) \<and> (body_step N W)\<^sup>*\<^sup>* b0 (fbody s)"

lemma all_in_iff: "all_in N k p \<longleftrightarrow> (\<forall>j\<le>N. k \<le> srank (p j))"
  by (auto simp: all_in_def list_all_iff less_Suc_eq_le)

lemma all_in_upd: "all_in N k p \<Longrightarrow> srank (p i) \<le> srank q \<Longrightarrow> all_in N k (p(i := q))"
  by (auto simp: all_in_iff intro: order_trans)

lemma go_to_simps [simp]:
  "fbody (go_to i q s) = fbody s" "stage (go_to i q s) = (stage s)(i := q)" "events (go_to i q s) = events s"
  by (simp_all add: go_to_def)

lemma fr_gatesD:
  assumes "fr_gates fin N p"
  shows "i \<le> N \<Longrightarrow> 2 \<le> srank (p i) \<Longrightarrow> all_in N 1 p" and "i \<le> N \<Longrightarrow> 5 \<le> srank (p i) \<Longrightarrow> all_in N 4 p"
    and "fin \<Longrightarrow> i \<le> N \<Longrightarrow> 7 \<le> srank (p i) \<Longrightarrow> all_in N 6 p"
    and "i < N \<Longrightarrow> p i \<noteq> SClock \<and> p i \<noteq> SFreeze \<and> p i \<noteq> SJoin" and "\<not> fin \<Longrightarrow> i \<le> N \<Longrightarrow> p i \<noteq> SFinishWait"
    and "p N = SEnd \<or> \<not> fin \<and> p N = SFreeze \<Longrightarrow> i < N \<Longrightarrow> p i = SEnd"
  using assms unfolding fr_gates_def by (blast, blast, blast, blast, metis le_less, blast)

lemma fr_gates_upd:
  assumes g: "fr_gates fin N p" and i: "i \<le> N" and up: "srank (p i) \<le> srank q" "p i \<noteq> SEnd"
    and gates: "2 \<le> srank q \<Longrightarrow> all_in N 1 p" "5 \<le> srank q \<Longrightarrow> all_in N 4 p" "fin \<Longrightarrow> 7 \<le> srank q \<Longrightarrow> all_in N 6 p"
    and who: "i < N \<Longrightarrow> q \<noteq> SClock \<and> q \<noteq> SFreeze \<and> q \<noteq> SJoin" "\<not> fin \<Longrightarrow> q \<noteq> SFinishWait"
    and last: "i = N \<Longrightarrow> q = SEnd \<or> \<not> fin \<and> q = SFreeze \<Longrightarrow> \<forall>k<N. p k = SEnd"
  shows "fr_gates fin N (p(i := q))"
proof -
  have keep: "all_in N k p \<Longrightarrow> all_in N k (p(i := q))" for k by (rule all_in_upd) (use up(1) in simp_all)
  have "(2 \<le> srank ((p(i := q)) k) \<longrightarrow> all_in N 1 (p(i := q))) \<and> (5 \<le> srank ((p(i := q)) k) \<longrightarrow> all_in N 4 (p(i := q))) \<and>
      (fin \<and> 7 \<le> srank ((p(i := q)) k) \<longrightarrow> all_in N 6 (p(i := q)))" if "k \<le> N" for k
  proof (cases "k = i")
    case False
    with fr_gatesD(1-3) [OF g, of k] that keep show ?thesis by simp
  qed (use gates keep in simp)
  moreover have "(p(i := q)) k \<noteq> SClock \<and> (p(i := q)) k \<noteq> SFreeze \<and> (p(i := q)) k \<noteq> SJoin \<and>
      (\<not> fin \<longrightarrow> (p(i := q)) k \<noteq> SFinishWait)" if "k < N" for k
    using fr_gatesD(4,5) [OF g, of k] who that by simp
  moreover have "\<not> fin \<longrightarrow> (p(i := q)) N \<noteq> SFinishWait" using fr_gatesD(5) [OF g, of N] who(2) by simp
  moreover have "(p(i := q)) k = SEnd" if "(p(i := q)) N = SEnd \<or> \<not> fin \<and> (p(i := q)) N = SFreeze" "k < N" for k
  proof (cases "i = N")
    case True
    then show ?thesis using that last by simp
  next
    case False
    with that have "p N = SEnd \<or> \<not> fin \<and> p N = SFreeze" by simp
    from fr_gatesD(6) [OF g this, of i] False i up(2) show ?thesis by simp
  qed
  ultimately show ?thesis unfolding fr_gates_def by blast
qed

lemma fr_inv_move:
  assumes inv: "fr_inv fin N W over b0 s" and t: "stage t = (stage s)(i := q)" "fbody t = fbody s"
    and g: "fr_gates fin N ((stage s)(i := q))" and e: "fr_events fin N (stage t N) (events t)"
    and o: "i < N \<Longrightarrow> 6 \<le> srank q \<Longrightarrow> 6 \<le> srank (stage s i) \<or> over i (fbody s)"
  shows "fr_inv fin N W over b0 t"
  using assms by (auto simp: fr_inv_def)

lemma fr_events_same:
  "fr_events fin N q es \<Longrightarrow> (3 \<le> srank q \<longleftrightarrow> 3 \<le> srank q') \<Longrightarrow> fr_stopped fin q = fr_stopped fin q' \<Longrightarrow> fr_events fin N q' es"
  by (simp add: fr_events_def)

text \<open>A move that reads no clock.\<close>

lemma fr_inv_pass:
  assumes inv: "fr_inv fin N W over b0 s" and g: "fr_gates fin N ((stage s)(i := q))"
    and "i = N \<Longrightarrow> (3 \<le> srank (stage s i) \<longleftrightarrow> 3 \<le> srank q) \<and> fr_stopped fin (stage s i) = fr_stopped fin q"
    and o: "i < N \<Longrightarrow> 6 \<le> srank q \<Longrightarrow> 6 \<le> srank (stage s i) \<or> over i (fbody s)"
  shows "fr_inv fin N W over b0 (go_to i q s)"
proof (rule fr_inv_move [OF inv _ _ g _ o])
  have "fr_events fin N (stage s N) (events s)" using inv by (simp add: fr_inv_def)
  then show "fr_events fin N (stage (go_to i q s) N) (events (go_to i q s))"
    using fr_events_same assms(3) by (cases "i = N") auto
qed simp_all

lemma fr_events_start: "fr_events fin N SClock es \<Longrightarrow> fr_events fin N STimer (es @ [ReadStart])"
  by (auto simp: fr_events_def fr_stopped_def)

lemma fr_events_stop:
  "fr_events fin N SFreeze es \<Longrightarrow> fr_events fin N (if fin then SJoin else SEnd) (es @ [ReadStop])"
  by (auto simp: fr_events_def fr_stopped_def)

lemma fr_events_work:
  assumes "fr_events fin N q es" "i < N" "3 \<le> srank q" "\<not> fr_stopped fin q"
  shows "fr_events fin N q (es @ [Moved i])"
proof -
  obtain ws where "set ws \<subseteq> {..<N}" "es = [ReadStart] @ map Moved ws" using assms by (auto simp: fr_events_def)
  then have "set (ws @ [i]) \<subseteq> {..<N}" "es @ [Moved i] = [ReadStart] @ map Moved (ws @ [i])" using assms(2) by auto
  then show ?thesis using assms(3,4) unfolding fr_events_def by (intro exI [of _ "ws @ [i]"]) simp
qed

text \<open>While a worker is in its loops the clock runs.\<close>

lemma working_main:
  assumes "fr_gates fin N p" "i < N" "p i = SBody"
  shows "3 \<le> srank (p N) \<and> \<not> fr_stopped fin (p N)"
proof -
  have "all_in N 4 p" using fr_gatesD(2) [OF assms(1), of i] assms(2,3) by simp
  then have "4 \<le> srank (p N)" by (simp add: all_in_iff)
  moreover have "p N \<noteq> SEnd" using fr_gatesD(6) [OF assms(1) _ assms(2)] assms(3) by auto
  moreover have "\<not> (fin \<and> p N = SJoin)"
  proof
    assume "fin \<and> p N = SJoin"
    then have "all_in N 6 p" using fr_gatesD(3) [OF assms(1), of N] by simp
    then have "6 \<le> srank (p i)" using assms(2) by (simp add: all_in_iff)
    then show False using assms(3) by simp
  qed
  ultimately show ?thesis by (auto simp: fr_stopped_def)
qed

section \<open>The interface\<close>

locale timed_body =
  fixes fin :: bool and N :: nat and W :: "nat \<Rightarrow> 'b \<Rightarrow> 'b \<Rightarrow> bool" and over :: "nat \<Rightarrow> 'b \<Rightarrow> bool"
  assumes over_stays: "over i b \<Longrightarrow> W k b b' \<Longrightarrow> over i b'"
begin

lemma new_inv: "fr_inv fin N W over b (fr_new b)"
  by (simp add: fr_inv_def fr_new_def fr_gates_def fr_events_def fr_stopped_def)

lemma step_inv:
  assumes inv: "fr_inv fin N W over b0 s" and step: "fr_step fin N W over s t"
  shows "fr_inv fin N W over b0 t"
proof -
  have g: "fr_gates fin N (stage s)" and e: "fr_events fin N (stage s N) (events s)" using inv by (simp_all add: fr_inv_def)
  note gate = fr_gatesD(1) [OF g] and gate2 = fr_gatesD(2) [OF g] and gate3 = fr_gatesD(3) [OF g]
  note move = fr_inv_move [OF inv] and upd = fr_gates_upd [OF g] and pass = fr_inv_pass [OF inv fr_gates_upd [OF g]]
  from step show ?thesis
  proof cases
    case (ready_enter i)
    show ?thesis unfolding ready_enter(1) by (rule pass) (use ready_enter in \<open>auto simp: fr_stopped_def split: if_splits\<close>)
  next
    case (ready_pass i)
    show ?thesis unfolding ready_pass(1) by (rule pass) (use ready_pass in \<open>auto simp: fr_stopped_def split: if_splits\<close>)
  next
    case clock
    then show ?thesis
      using e gate [of N] by (intro move [of _ N STimer] upd) (simp_all add: fr_events_start)
  next
    case (timer_enter i)
    show ?thesis unfolding timer_enter(1)
      by (rule pass) (use timer_enter gate [of i] in \<open>auto simp: fr_stopped_def split: if_splits\<close>)
  next
    case (timer_pass i)
    show ?thesis unfolding timer_pass(1)
      by (rule pass) (use timer_pass gate [of i] in \<open>auto simp: fr_stopped_def split: if_splits\<close>)
  next
    case (work i b)
    have "(body_step N W)\<^sup>*\<^sup>* b0 (fbody s)" "body_step N W (fbody s) b"
      using inv work by (auto simp: fr_inv_def body_step_def)
    then have "(body_step N W)\<^sup>*\<^sup>* b0 b" by (rule rtranclp.rtrancl_into_rtrancl)
    then show ?thesis
      using inv work over_stays working_main [OF g work(2,3)] by (auto simp: fr_inv_def intro!: fr_events_work)
  next
    case (leave i)
    show ?thesis unfolding leave(1)
      by (rule pass) (use leave gate [of i] gate2 [of i] in \<open>auto simp: fr_stopped_def split: if_splits\<close>)
  next
    case main_on
    show ?thesis unfolding main_on(1)
      by (rule pass) (use main_on gate [of N] gate2 [of N] in \<open>auto simp: fr_stopped_def split: if_splits\<close>)
  next
    case (finish_pass i)
    then have fin using fr_gatesD(5) [OF g, of i] by auto
    then show ?thesis unfolding finish_pass(1)
      by (intro pass) (use finish_pass gate [of i] gate2 [of i] in \<open>auto simp: fr_stopped_def split: if_splits\<close>)
  next
    case freeze
    have ends: "\<forall>k<N. stage s k = SEnd" if "\<not> fin" using fr_gatesD(6) [OF g] freeze that by blast
    show ?thesis
      unfolding freeze(1)
    proof (rule move [of _ N "if fin then SJoin else SEnd"])
      show "fr_gates fin N ((stage s)(N := if fin then SJoin else SEnd))"
        by (rule upd) (use freeze ends gate [of N] gate2 [of N] gate3 [of N] in \<open>auto split: if_splits\<close>)
    qed (use e freeze fr_events_stop [of fin N "events s"] in simp_all)
  next
    case join
    show ?thesis unfolding join(1)
      by (rule pass) (use join gate [of N] gate2 [of N] gate3 [of N] in \<open>auto simp: fr_stopped_def list_all_iff split: if_splits\<close>)
  qed
qed

lemma reachable: "(fr_step fin N W over)\<^sup>*\<^sup>* (fr_new b0) s \<Longrightarrow> fr_inv fin N W over b0 s"
  by (induction rule: rtranclp_induct) (auto intro: new_inv step_inv)

lemma result:
  assumes "(fr_step fin N W over)\<^sup>*\<^sup>* (fr_new b0) s" "fr_final N s"
  shows "\<exists>ws. set ws \<subseteq> {..<N} \<and> events s = [ReadStart] @ map Moved ws @ [ReadStop] \<and>
    (body_step N W)\<^sup>*\<^sup>* b0 (fbody s) \<and> (\<forall>i<N. over i (fbody s))"
proof -
  have inv: "fr_inv fin N W over b0 s" by (rule reachable [OF assms(1)])
  have N: "stage s N = SEnd" using assms(2) by (simp add: fr_final_def)
  then have "\<forall>i<N. stage s i = SEnd" using fr_gatesD(6) [of fin N "stage s"] inv by (simp add: fr_inv_def)
  then have "\<forall>i<N. over i (fbody s)" using inv by (auto simp: fr_inv_def)
  then show ?thesis using inv N by (auto simp: fr_inv_def fr_events_def fr_stopped_def)
qed

end

section \<open>Termination\<close>

text \<open>How far a participant has got, and what is left to do.\<close>

fun prank :: "bool \<Rightarrow> stage \<Rightarrow> nat" where
  "prank fin SFreeze = (if fin then 7 else 8)"
| "prank fin SJoin = (if fin then 8 else 7)"
| "prank fin SEnd = 9"
| "prank fin q = srank q"

definition fr_todo :: "bool \<Rightarrow> nat \<Rightarrow> ('b \<Rightarrow> nat) \<Rightarrow> 'b frame \<Rightarrow> nat" where
  "fr_todo fin N bt s = bt (fbody s) + (\<Sum>i<N + 1. 9 - prank fin (stage s i))"

lemma todo_move:
  assumes "i \<le> N" "prank fin (stage s i) < prank fin q" "prank fin q \<le> 9" "stage t = (stage s)(i := q)" "fbody t = fbody s"
  shows "fr_todo fin N bt t < fr_todo fin N bt s"
proof -
  have "(\<Sum>j<N + 1. 9 - prank fin (((stage s)(i := q)) j)) + (9 - prank fin (stage s i)) =
      (\<Sum>j<N + 1. 9 - prank fin (stage s j)) + (9 - prank fin q)"
    using sum_fun_upd [where f = "\<lambda>x. 9 - prank fin x" and p = "stage s" and x = q and i = i and N = "N + 1"] assms(1) by simp
  moreover have "9 - prank fin q < 9 - prank fin (stage s i)" using assms(2,3) by linarith
  ultimately show ?thesis unfolding fr_todo_def assms(4,5) by linarith
qed

locale terminating_body = timed_body fin N W over
  for fin :: bool and N :: nat and W :: "nat \<Rightarrow> 'b \<Rightarrow> 'b \<Rightarrow> bool" and over :: "nat \<Rightarrow> 'b \<Rightarrow> bool" +
  fixes start :: "'b \<Rightarrow> bool" and binv :: "'b \<Rightarrow> bool" and bt :: "'b \<Rightarrow> nat"
  assumes start_binv: "start b \<Longrightarrow> binv b"
    and keeps: "binv b \<Longrightarrow> i < N \<Longrightarrow> W i b b' \<Longrightarrow> binv b' \<and> bt b' < bt b"
    and busy: "binv b \<Longrightarrow> i < N \<Longrightarrow> \<not> over i b \<Longrightarrow> \<exists>b'. W i b b'"
begin

lemma step_todo:
  assumes inv: "binv (fbody s)" and g: "fr_gates fin N (stage s)" and step: "fr_step fin N W over s t"
  shows "fr_todo fin N bt t < fr_todo fin N bt s"
  using step
proof cases
  case (work i b)
  then show ?thesis using keeps [OF inv] by (simp add: fr_todo_def)
qed (rule todo_move; auto)+

lemma step_enabled:
  assumes inv: "binv (fbody s)" and g: "fr_gates fin N (stage s)" and nf: "\<not> fr_final N s"
  shows "\<exists>t. fr_step fin N W over s t"
proof -
  obtain i where i: "i \<le> N" and least: "\<And>j. j \<le> N \<Longrightarrow> srank (stage s i) \<le> srank (stage s j)"
    using ex_has_least_nat [of "\<lambda>i. i \<le> N" N "\<lambda>i. srank (stage s i)"] by auto
  have all: "all_in N (srank (stage s i)) (stage s)" using least by (simp add: all_in_iff)
  have main: "i = N" if "stage s i \<in> {SClock, SFreeze, SJoin}" using fr_gatesD(4) [OF g, of i] that i by fastforce
  show ?thesis
  proof (cases "stage s i")
    case SReadyWait
    then have "all_in N 1 (stage s)" using all by simp
    from fr_step.ready_pass [OF i SReadyWait this] show ?thesis by blast
  next
    case SBody
    show ?thesis
    proof (cases "i = N")
      case False
      with i have "i < N" by simp
      with SBody busy [OF inv this] show ?thesis by (cases "over i (fbody s)") (meson fr_step.work fr_step.leave)+
    qed (use SBody in \<open>auto intro: fr_step.main_on\<close>)
  next
    case SJoin
    have "stage s j = SEnd" if "j < N" for j
    proof -
      have "7 \<le> srank (stage s j)" using least [of j] that SJoin by simp
      then show ?thesis using fr_gatesD(4) [OF g that] by (cases "stage s j") auto
    qed
    then have "list_all (\<lambda>j. stage s j = SEnd) [0..<N]" by (simp add: list_all_iff)
    with main SJoin show ?thesis using fr_step.join [of s N] by blast
  next
    case SEnd
    then have "8 \<le> srank (stage s N)" using least [of N] by simp
    then have "stage s N = SEnd" by (cases "stage s N") auto
    then show ?thesis using nf by (simp add: fr_final_def)
  qed (use i all main in \<open>auto intro: fr_step.intros\<close>)
qed

end

sublocale terminating_body \<subseteq> frame: terminating_system "\<lambda>s. \<exists>b. start b \<and> s = fr_new b" "fr_step fin N W over"
  "\<lambda>s. binv (fbody s) \<and> (\<exists>b0. fr_inv fin N W over b0 s)" "fr_final N" "fr_todo fin N bt"
proof unfold_locales
  fix s t
  assume inv: "binv (fbody s) \<and> (\<exists>b0. fr_inv fin N W over b0 s)"
  then have g: "fr_gates fin N (stage s)" by (auto simp: fr_inv_def)
  show "\<exists>t. fr_step fin N W over s t" if "\<not> fr_final N s" using step_enabled [OF _ g that] inv by blast
  show "fr_todo fin N bt t < fr_todo fin N bt s" if "fr_step fin N W over s t" using step_todo [OF _ g that] inv by blast
  show "binv (fbody t) \<and> (\<exists>b0. fr_inv fin N W over b0 t)" if "fr_step fin N W over s t"
  proof -
    have "binv (fbody t)" using that keeps inv by cases auto
    then show ?thesis using step_inv [OF _ that] inv by blast
  qed
next
  show "binv (fbody s) \<and> (\<exists>b0. fr_inv fin N W over b0 s)" if "\<exists>b. start b \<and> s = fr_new b" for s
    using that start_binv new_inv by (auto simp: fr_new_def)
qed

end
