(* ===== verification/Bench_Frames.thy ===== *)
theory Bench_Frames
  imports Bench_Reports Timed_Frame
begin

text \<open>
  The timed runs of \<open>pmemblkbench\<close> and \<open>pmemobjbench\<close>: their workers in the frame of theory
  \<open>Timed_Frame\<close>, with the report that follows.
\<close>

section \<open>\<open>pmemblkbench\<close>\<close>

definition blk_moves :: "bench_args \<Rightarrow> u64 list \<Rightarrow> nat \<Rightarrow> 'd blk_state \<Rightarrow> 'd blk_state \<Rightarrow> bool" where
  "blk_moves a access i s t \<longleftrightarrow> (\<exists>io. blk_work io a access i s = Some t)"

definition blk_over :: "nat \<Rightarrow> 'd blk_state \<Rightarrow> bool" where
  "blk_over i s \<longleftrightarrow> w_pc (workers s i) = BEnd"

text \<open>The workers are joined before the clock is stopped; there is no third barrier.\<close>

definition blk_timed_step :: "bench_args \<Rightarrow> u64 list \<Rightarrow> 'd blk_state frame \<Rightarrow> 'd blk_state frame \<Rightarrow> bool" where
  "blk_timed_step a access = fr_step False (unat (nthreads_arg a)) (blk_moves a access) blk_over"

lemma blk_moves_workers: "blk_moves a access k s t \<Longrightarrow> w_pc (workers s k) \<noteq> BEnd \<and> (\<exists>w. workers t = (workers s)(k := w))"
  by (cases "w_pc (workers s k)") (auto simp: blk_moves_def blk_work_def Let_def split: if_splits prod.splits)

lemma blk_body_step: "body_step (unat (nthreads_arg a)) (blk_moves a access) = blk_step a access"
  by (intro ext) (auto simp: body_step_def blk_moves_def blk_step.simps)

interpretation blkf: terminating_body False "unat (nthreads_arg a)" "blk_moves a access" blk_over
  "\<lambda>s. \<exists>d. s = blk_start d" "blk_inv a access" "blk_todo a" for a access
proof unfold_locales
  show "blk_over i b'" if "blk_over i b" "blk_moves a access k b b'" for i k b b'
    using that blk_moves_workers [OF that(2)] by (auto simp: blk_over_def)
  show "blk_inv a access b" if "\<exists>d. b = blk_start d" for b using blkw.initial_inv [OF that] .
  show "blk_inv a access b' \<and> blk_todo a b' < blk_todo a b"
    if "blk_inv a access b" "i < unat (nthreads_arg a)" "blk_moves a access i b b'" for b b' i
    using that blk_work_inv blk_work_todo by (auto simp: blk_moves_def)
  show "\<exists>b'. blk_moves a access i b b'" if "\<not> blk_over i b" for b i
    using that blk_work_enabled [of b i "\<lambda>_ _ d. (d, 0)" a access] by (auto simp: blk_over_def blk_moves_def)
qed

section \<open>\<open>pmemobjbench\<close>\<close>

definition obj_moves :: "bool \<Rightarrow> bench_args \<Rightarrow> u64 list \<Rightarrow> nat \<Rightarrow> obj_state \<Rightarrow> obj_state \<Rightarrow> bool" where
  "obj_moves alloc a access i s t \<longleftrightarrow> (\<exists>junk res. obj_work alloc junk res a access i s = Some (Inr t))"

definition obj_over :: "nat \<Rightarrow> obj_state \<Rightarrow> bool" where
  "obj_over i s \<longleftrightarrow> o_pc (oworkers s i) = OEnd"

definition obj_timed_step :: "bool \<Rightarrow> bench_args \<Rightarrow> u64 list \<Rightarrow> obj_state frame \<Rightarrow> obj_state frame \<Rightarrow> bool" where
  "obj_timed_step alloc a access = fr_step True (unat (nthreads_arg a)) (obj_moves alloc a access) obj_over"

lemma obj_moves_workers:
  "obj_moves alloc a access k s t \<Longrightarrow> o_pc (oworkers s k) \<noteq> OEnd \<and> (\<exists>w. oworkers t = (oworkers s)(k := w))"
  unfolding obj_moves_def by (elim exE, erule obj_work_cases) auto

lemma obj_body_step: "body_step (unat (nthreads_arg a)) (obj_moves alloc a access) = obj_step alloc a access"
  by (intro ext) (auto simp: body_step_def obj_moves_def obj_step.simps)

interpretation objf: timed_body True "unat (nthreads_arg a)" "obj_moves alloc a access" obj_over for alloc a access
proof unfold_locales
  show "obj_over i b'" if "obj_over i b" "obj_moves alloc a access k b b'" for i k b b'
    using that obj_moves_workers [OF that(2)] by (auto simp: obj_over_def)
qed

text \<open>
  A timed run of \<open>pmemobjbench\<close> that reaches its end has a run of the workers between the clock
  readings, in which all of them have ended; the report says success if no failure was noticed.
\<close>

lemma obj_timed_report:
  assumes "(obj_timed_step alloc a access)\<^sup>*\<^sup>* (fr_new (obj_start data r0 os)) s" "fr_final (unat (nthreads_arg a)) s"
  shows "\<exists>ws. events s = [ReadStart] @ map Moved ws @ [ReadStop] \<and>
    (obj_step alloc a access)\<^sup>*\<^sup>* (obj_start data r0 os) (fbody s) \<and> obj_joined a (fbody s) \<and>
    json_at [''results'', ''success''] (obj_report r a (obj_fail (fbody s)) et) = Some (JBool (obj_success (fbody s)))"
proof -
  obtain ws where "events s = [ReadStart] @ map Moved ws @ [ReadStop]"
    "(obj_step alloc a access)\<^sup>*\<^sup>* (obj_start data r0 os) (fbody s)" "\<forall>i < unat (nthreads_arg a). obj_over i (fbody s)"
    using objf.result [OF assms(1) [unfolded obj_timed_step_def] assms(2)] unfolding obj_body_step by blast
  moreover have "json_at [''results'', ''success''] (obj_report r a f et) = Some (JBool (\<not> f))" for f
    by (simp add: obj_report_def obj_report_new_def put_result_def Let_def)
  ultimately show ?thesis by (auto simp: obj_joined_def obj_over_def obj_success_def)
qed

section \<open>Property\<close>

lemmas blk_report_defs = blk_report_def blk_report_new_def put_result_def Let_def

lemma blk_report_values:
  "json_at [''results'', ''success''] (blk_report r a f et) = Some (JBool (\<not> f))"
  "json_at [''results'', ''throuput''] (blk_report r a True et) = Some (JReal (Some 0))"
  "et_sec 0 et \<noteq> 0 \<Longrightarrow> json_at [''results'', ''throuput''] (blk_report r a False et) =
     Some (JReal (Some (of_nat (unat (total_size a)) / et_sec 0 et)))"
  by (simp_all add: blk_report_defs rate_def)



end
