(* ===== verification/Sync_Condvar.thy ===== *)
theory Sync_Condvar
  imports Synchronized_Value
begin

text \<open>
  A synchronized value with a condition variable, as the test \<open>condition_variable\<close> of
  \<open>synchronized_value/tests/main.cpp\<close> uses them: a producer adds one to a counter, each time under
  the guard of \<open>uniqueSynchronize\<close>, and notifies after the guard is gone; the main thread waits on
  the guard, a \<open>std::unique_lock\<close>, until the counter has reached a goal, and joins the producer.
  Every access, every release and every notification is a step of its own, and a waiting thread
  may wake for no reason. The program has 1000 rounds and the goal 1000.
\<close>

section \<open>Definitions\<close>

type_synonym i32 = "32 word"

datatype cv_producer = PTest | PLock | PAdd | PUnlock | PNotify | PDone
datatype cv_waiter = MLock | MTest | MBlocked | MWoken | MUnlock | MJoin | MDone

record cv_state =
  counter :: "i32 cell"
  round :: u64
  ppc :: cv_producer
  mpc :: cv_waiter
  cv_fault :: bool

text \<open>\<open>uniqueSynchronize\<close> by thread \<open>i\<close>; \<open>None\<close> is a mutex that is held: the thread has to wait.\<close>

definition uniqueSynchronize :: "nat \<Rightarrow> 'v cell \<Rightarrow> 'v cell option" where
  "uniqueSynchronize i c = (if sv_mutex c = None then Some (c\<lparr>sv_mutex := Some i\<rparr>) else None)"

text \<open>\<open>*uniq\<close> and the destructor of the guard need the mutex of the thread that calls them.\<close>

definition guard_value :: "nat \<Rightarrow> 'v cell \<Rightarrow> 'v option" where
  "guard_value i c = (if sv_mutex c = Some i then Some (sv_value c) else None)"

definition guard_release :: "nat \<Rightarrow> 'v cell \<Rightarrow> 'v cell option" where
  "guard_release i c = (if sv_mutex c = Some i then Some (c\<lparr>sv_mutex := None\<rparr>) else None)"

definition cv_broken :: "cv_state \<Rightarrow> cv_state" where
  "cv_broken s = s\<lparr>cv_fault := True\<rparr>"

text \<open>
  The producer is thread 1. The increment of the largest \<open>int\<close> is undefined, as is an access
  without the mutex.
\<close>

definition producer_step :: "u64 \<Rightarrow> cv_state \<Rightarrow> cv_state option" where
  "producer_step rounds s =
     (case ppc s of
        PTest \<Rightarrow> Some (s\<lparr>ppc := if round s < rounds then PLock else PDone\<rparr>)
      | PLock \<Rightarrow> map_option (\<lambda>c. s\<lparr>counter := c, ppc := PAdd\<rparr>) (uniqueSynchronize 1 (counter s))
      | PAdd \<Rightarrow>
          Some (case guard_value 1 (counter s) of
                  None \<Rightarrow> cv_broken s
                | Some v \<Rightarrow>
                    if sint v < 2 ^ 31 - 1
                    then s\<lparr>counter := (counter s)\<lparr>sv_value := v + 1\<rparr>, ppc := PUnlock\<rparr> else cv_broken s)
      | PUnlock \<Rightarrow>
          Some (case guard_release 1 (counter s) of
                  None \<Rightarrow> cv_broken s | Some c \<Rightarrow> s\<lparr>counter := c, ppc := PNotify\<rparr>)
      | PNotify \<Rightarrow>
          Some (s\<lparr>mpc := if mpc s = MBlocked then MWoken else mpc s, round := round s + 1, ppc := PTest\<rparr>)
      | PDone \<Rightarrow> None)"

text \<open>
  The main thread is thread 0. \<open>cond.wait(uniq, pred)\<close> tests the predicate under the mutex and, when
  it fails, releases the mutex and blocks in one action; a woken thread takes the mutex again.
\<close>

definition waiter_step :: "int \<Rightarrow> cv_state \<Rightarrow> cv_state option" where
  "waiter_step goal s =
     (case mpc s of
        MLock \<Rightarrow> map_option (\<lambda>c. s\<lparr>counter := c, mpc := MTest\<rparr>) (uniqueSynchronize 0 (counter s))
      | MTest \<Rightarrow>
          Some (case guard_value 0 (counter s) of
                  None \<Rightarrow> cv_broken s
                | Some v \<Rightarrow>
                    if sint v \<ge> goal then s\<lparr>mpc := MUnlock\<rparr>
                    else s\<lparr>counter := (counter s)\<lparr>sv_mutex := None\<rparr>, mpc := MBlocked\<rparr>)
      | MBlocked \<Rightarrow> None
      | MWoken \<Rightarrow> map_option (\<lambda>c. s\<lparr>counter := c, mpc := MTest\<rparr>) (uniqueSynchronize 0 (counter s))
      | MUnlock \<Rightarrow>
          Some (case guard_release 0 (counter s) of
                  None \<Rightarrow> cv_broken s | Some c \<Rightarrow> s\<lparr>counter := c, mpc := MJoin\<rparr>)
      | MJoin \<Rightarrow> if ppc s = PDone then Some (s\<lparr>mpc := MDone\<rparr>) else None
      | MDone \<Rightarrow> None)"

definition cv_wakeup :: "cv_state \<Rightarrow> cv_state \<Rightarrow> bool" where
  "cv_wakeup s t \<longleftrightarrow> mpc s = MBlocked \<and> t = s\<lparr>mpc := MWoken\<rparr>"

inductive cv_step :: "u64 \<Rightarrow> int \<Rightarrow> cv_state \<Rightarrow> cv_state \<Rightarrow> bool" for rounds goal where
  producer: "\<not> cv_fault s \<Longrightarrow> producer_step rounds s = Some t \<Longrightarrow> cv_step rounds goal s t"
| waiter: "\<not> cv_fault s \<Longrightarrow> waiter_step goal s = Some t \<Longrightarrow> cv_step rounds goal s t"
| wakeup: "\<not> cv_fault s \<Longrightarrow> cv_wakeup s t \<Longrightarrow> cv_step rounds goal s t"

inductive_cases cv_stepE: "cv_step rounds goal s t"

definition cv_new :: cv_state where
  "cv_new = \<lparr>counter = \<lparr>sv_value = 0, sv_mutex = None\<rparr>, round = 0, ppc = PTest, mpc = MLock, cv_fault = False\<rparr>"

section \<open>Invariant\<close>

text \<open>How many increments the producer has made.\<close>

definition added :: "cv_state \<Rightarrow> nat" where
  "added s = unat (round s) + of_bool (ppc s \<in> {PUnlock, PNotify})"

definition cv_mutex_ok :: "cv_state \<Rightarrow> bool" where
  "cv_mutex_ok s \<longleftrightarrow> sv_mutex (counter s) =
     (if ppc s \<in> {PAdd, PUnlock} then Some 1 else if mpc s \<in> {MTest, MUnlock} then Some 0 else None) \<and>
     \<not> (ppc s \<in> {PAdd, PUnlock} \<and> mpc s \<in> {MTest, MUnlock})"

definition producer_ok :: "u64 \<Rightarrow> cv_state \<Rightarrow> bool" where
  "producer_ok rounds s \<longleftrightarrow> unat rounds < 2 ^ 31 \<and> sv_value (counter s) = of_nat (added s) \<and>
     added s \<le> unat rounds \<and> (ppc s \<in> {PLock, PAdd} \<longrightarrow> added s < unat rounds) \<and>
     (ppc s = PDone \<longrightarrow> added s = unat rounds)"

text \<open>
  A thread asleep although the goal is reached has a notification coming; who has passed the wait
  has seen the goal.
\<close>

definition waiter_ok :: "int \<Rightarrow> cv_state \<Rightarrow> bool" where
  "waiter_ok goal s \<longleftrightarrow>
     (mpc s = MBlocked \<longrightarrow> goal \<le> int (added s) \<longrightarrow> ppc s \<in> {PUnlock, PNotify}) \<and>
     (mpc s \<in> {MUnlock, MJoin, MDone} \<longrightarrow> goal \<le> int (added s)) \<and> (mpc s = MDone \<longrightarrow> ppc s = PDone)"

definition cv_inv :: "u64 \<Rightarrow> int \<Rightarrow> cv_state \<Rightarrow> bool" where
  "cv_inv rounds goal s \<longleftrightarrow> \<not> cv_fault s \<and> goal \<le> int (unat rounds) \<and> cv_mutex_ok s \<and>
     producer_ok rounds s \<and> waiter_ok goal s"

lemmas waiter_defs = cv_inv_def cv_mutex_ok_def producer_ok_def waiter_ok_def
lemmas cv_inv_defs = waiter_defs added_def

lemma added_frame [simp]: "added (s\<lparr>counter := c\<rparr>) = added s" "added (s\<lparr>mpc := q\<rparr>) = added s"
  by (simp_all add: added_def)

lemma sint_small: "n < 2 ^ 31 \<Longrightarrow> sint (of_nat n :: i32) = int n"
proof -
  assume "n < 2 ^ 31"
  then have "signed_take_bit 31 (int n) = int n" by (intro signed_take_bit_int_eq_self) simp_all
  then show ?thesis using signed_of_int [of "int n", where 'b = 32] by simp
qed

lemma counter_value: "cv_inv rounds goal s \<Longrightarrow> sint (sv_value (counter s)) = int (added s)"
  using sint_small [of "added s"] by (simp add: cv_inv_def producer_ok_def)

lemma next_round: "r < (rounds :: u64) \<Longrightarrow> unat (r + 1) = unat r + 1"
  using unat_add_u64 [of r 1] unat_u64_less [of rounds] by (simp add: word_less_nat_alt)

section \<open>Every step keeps it\<close>

lemma producer_inv:
  assumes inv: "cv_inv rounds goal s" and step: "producer_step rounds s = Some t"
  shows "cv_inv rounds goal t"
proof (cases "ppc s")
  case PTest
  with step have t: "t = s\<lparr>ppc := if round s < rounds then PLock else PDone\<rparr>"
    by (simp add: producer_step_def)
  show ?thesis
    using inv PTest unfolding t by (auto simp: cv_inv_defs word_less_nat_alt)
next
  case PLock
  with step have t: "t = s\<lparr>counter := (counter s)\<lparr>sv_mutex := Some 1\<rparr>, ppc := PAdd\<rparr>"
    and "sv_mutex (counter s) = None"
    by (auto simp: producer_step_def uniqueSynchronize_def split: if_splits)
  then show ?thesis
    using inv PLock unfolding t by (auto simp: cv_inv_defs split: if_splits)
next
  case PAdd
  have "added s < 2 ^ 31 - 1" using inv PAdd by (auto simp: cv_inv_def producer_ok_def)
  then have "sint (sv_value (counter s)) < 2 ^ 31 - 1" using counter_value [OF inv] by simp
  moreover have "sv_mutex (counter s) = Some 1" using inv PAdd by (simp add: cv_inv_def cv_mutex_ok_def)
  ultimately have t: "t = s\<lparr>counter := (counter s)\<lparr>sv_value := sv_value (counter s) + 1\<rparr>, ppc := PUnlock\<rparr>"
    using step PAdd by (simp add: producer_step_def guard_value_def)
  show ?thesis
    using inv PAdd unfolding t by (auto simp: cv_inv_defs)
next
  case PUnlock
  moreover have "sv_mutex (counter s) = Some 1" using inv PUnlock by (simp add: cv_inv_def cv_mutex_ok_def)
  ultimately have t: "t = s\<lparr>counter := (counter s)\<lparr>sv_mutex := None\<rparr>, ppc := PNotify\<rparr>"
    using step by (simp add: producer_step_def guard_release_def)
  show ?thesis
    using inv PUnlock unfolding t by (auto simp: cv_inv_defs split: if_splits)
next
  case PNotify
  with step have t: "t = s\<lparr>mpc := if mpc s = MBlocked then MWoken else mpc s, round := round s + 1, ppc := PTest\<rparr>"
    by (simp add: producer_step_def)
  have "unat (round s + 1) = unat (round s) + 1"
    using inv PNotify by (intro next_round [of _ rounds]) (simp add: cv_inv_defs word_less_nat_alt)
  then show ?thesis
    using inv PNotify unfolding t by (auto simp: cv_inv_defs split: if_splits)
qed (use step in \<open>simp add: producer_step_def\<close>)

lemma waiter_inv:
  assumes inv: "cv_inv rounds goal s" and step: "waiter_step goal s = Some t"
  shows "cv_inv rounds goal t"
proof -
  have own: "sv_mutex (counter s) = Some 0" if "mpc s \<in> {MTest, MUnlock}"
    using inv that by (auto simp: cv_inv_def cv_mutex_ok_def)
  have lock: "cv_inv rounds goal (s\<lparr>counter := (counter s)\<lparr>sv_mutex := Some 0\<rparr>, mpc := MTest\<rparr>)"
    if "sv_mutex (counter s) = None"
    using inv that by (auto simp: waiter_defs split: if_splits)
  show ?thesis
  proof (cases "mpc s")
    case MTest
    then have "t = (if sint (sv_value (counter s)) \<ge> goal then s\<lparr>mpc := MUnlock\<rparr>
        else s\<lparr>counter := (counter s)\<lparr>sv_mutex := None\<rparr>, mpc := MBlocked\<rparr>)"
      using step own by (simp add: waiter_step_def guard_value_def)
    with inv MTest counter_value [OF inv] show ?thesis
      by (cases "goal \<le> int (added s)") (auto simp: waiter_defs)
  next
    case MUnlock
    with step own have t: "t = s\<lparr>counter := (counter s)\<lparr>sv_mutex := None\<rparr>, mpc := MJoin\<rparr>"
      by (simp add: waiter_step_def guard_release_def)
    show ?thesis using inv MUnlock unfolding t by (auto simp: waiter_defs)
  next
    case MJoin
    with step have t: "t = s\<lparr>mpc := MDone\<rparr>" "ppc s = PDone"
      by (auto simp: waiter_step_def split: if_splits)
    then show ?thesis using inv MJoin unfolding t(1) by (auto simp: waiter_defs)
  qed (use step lock in \<open>auto simp: waiter_step_def uniqueSynchronize_def split: if_splits\<close>)
qed

lemma wakeup_inv: "cv_inv rounds goal s \<Longrightarrow> cv_wakeup s t \<Longrightarrow> cv_inv rounds goal t"
  by (auto simp: cv_wakeup_def waiter_defs)

lemma cv_step_inv: "cv_inv rounds goal s \<Longrightarrow> cv_step rounds goal s t \<Longrightarrow> cv_inv rounds goal t"
  by (elim cv_stepE) (blast intro: producer_inv waiter_inv wakeup_inv)+

section \<open>Progress\<close>

fun ppc_weight :: "cv_producer \<Rightarrow> nat" where
  "ppc_weight PTest = 5" | "ppc_weight PLock = 4" | "ppc_weight PAdd = 3"
| "ppc_weight PUnlock = 2" | "ppc_weight PNotify = 1" | "ppc_weight PDone = 0"

fun mpc_weight :: "cv_waiter \<Rightarrow> nat" where
  "mpc_weight MLock = 5" | "mpc_weight MWoken = 5" | "mpc_weight MTest = 4" | "mpc_weight MUnlock = 3"
| "mpc_weight MJoin = 2" | "mpc_weight MBlocked = 1" | "mpc_weight MDone = 0"

text \<open>A notification may wake the waiter, but it costs the producer more than that.\<close>

definition cv_todo :: "u64 \<Rightarrow> cv_state \<Rightarrow> nat" where
  "cv_todo rounds s = 5 * (6 * (unat rounds - unat (round s)) + ppc_weight (ppc s)) +
     mpc_weight (mpc s) + of_bool (\<not> cv_fault s)"

lemma producer_decreases:
  assumes inv: "cv_inv rounds goal s" and step: "producer_step rounds s = Some t"
  shows "cv_todo rounds t < cv_todo rounds s"
proof -
  have nf: "\<not> cv_fault t" "\<not> cv_fault s"
    using inv producer_inv [OF inv step] by (auto simp: cv_inv_def)
  show ?thesis
  proof (cases "ppc s")
    case PNotify
    have lt: "unat (round s) < unat rounds" using inv PNotify by (simp add: cv_inv_defs)
    then have "unat (round s + 1) = unat (round s) + 1"
      by (intro next_round [of _ rounds]) (simp add: word_less_nat_alt)
    with step PNotify lt show ?thesis by (auto simp: producer_step_def cv_todo_def)
  qed (use step nf in \<open>auto simp: producer_step_def cv_todo_def cv_broken_def uniqueSynchronize_def
         split: if_splits option.splits\<close>)
qed

lemma waiter_decreases:
  assumes inv: "cv_inv rounds goal s" and step: "waiter_step goal s = Some t"
  shows "cv_todo rounds t < cv_todo rounds s"
proof -
  have "\<not> cv_fault t" using waiter_inv [OF inv step] by (simp add: cv_inv_def)
  then show ?thesis
    using step by (cases "mpc s") (auto simp: waiter_step_def cv_todo_def cv_broken_def uniqueSynchronize_def
        split: if_splits option.splits)
qed

lemma cv_decreases:
  "cv_inv rounds goal s \<Longrightarrow> cv_step rounds goal s t \<Longrightarrow> \<not> cv_wakeup s t \<Longrightarrow>
   cv_todo rounds t < cv_todo rounds s"
  by (elim cv_stepE) (auto intro: producer_decreases waiter_decreases)

text \<open>A waiter that is not done can move, or the producer can: nobody sleeps forever.\<close>

lemma cv_enabled:
  assumes inv: "cv_inv rounds goal s" and "mpc s \<noteq> MDone"
  shows "\<exists>t. cv_step rounds goal s t \<and> \<not> cv_wakeup s t"
proof -
  have nf: "\<not> cv_fault s" and mu: "cv_mutex_ok s" using inv by (auto simp: cv_inv_def)
  have p: "\<exists>t. cv_step rounds goal s t \<and> \<not> cv_wakeup s t" if "producer_step rounds s = Some t" "ppc t \<noteq> ppc s" for t
    using cv_step.producer [OF nf that(1), of goal] that(2) by (intro exI [of _ t]) (auto simp: cv_wakeup_def)
  have w: "\<exists>t. cv_step rounds goal s t \<and> \<not> cv_wakeup s t" if "waiter_step goal s = Some t" "mpc s \<noteq> MBlocked" for t
    using cv_step.waiter [OF nf that(1), of rounds] that(2) by (intro exI [of _ t]) (auto simp: cv_wakeup_def)
  show ?thesis
  proof (cases "ppc s \<in> {PLock, PDone}")
    case False
    moreover from this producer_inv [OF inv] obtain t where "producer_step rounds s = Some t"
      by (cases "ppc s") (auto simp: producer_step_def)
    moreover have "\<not> cv_fault t" using producer_inv [OF inv calculation(2)] by (simp add: cv_inv_def)
    ultimately have "ppc t \<noteq> ppc s"
      by (cases "ppc s") (auto simp: producer_step_def cv_broken_def split: if_splits option.splits)
    with p \<open>producer_step rounds s = Some t\<close> show ?thesis by blast
  next
    case True
    show ?thesis
    proof (cases "mpc s")
      case MBlocked
      have "ppc s \<noteq> PDone" using inv MBlocked by (auto simp: waiter_defs)
      with True MBlocked mu show ?thesis
        by (intro p) (auto simp: producer_step_def uniqueSynchronize_def cv_mutex_ok_def)
    next
      case MJoin
      show ?thesis
      proof (cases "ppc s = PDone")
        case True
        with MJoin show ?thesis by (intro w) (auto simp: waiter_step_def)
      next
        case False
        with True MJoin mu show ?thesis
          by (intro p) (auto simp: producer_step_def uniqueSynchronize_def cv_mutex_ok_def)
      qed
    qed (use True mu assms(2) in \<open>auto intro!: w simp: waiter_step_def uniqueSynchronize_def cv_mutex_ok_def\<close>)
  qed
qed

definition cv_initial :: "u64 \<Rightarrow> int \<Rightarrow> cv_state \<Rightarrow> bool" where
  "cv_initial rounds goal s \<longleftrightarrow> unat rounds < 2 ^ 31 \<and> goal \<le> int (unat rounds) \<and> s = cv_new"

lemma cv_initial_inv: "cv_initial rounds goal s \<Longrightarrow> cv_inv rounds goal s"
  by (auto simp: cv_initial_def cv_new_def cv_inv_defs)

interpretation cv: noisy_system "cv_initial rounds goal" "cv_step rounds goal" "cv_inv rounds goal"
  "\<lambda>s. mpc s = MDone" "cv_todo rounds" cv_wakeup for rounds goal
  by unfold_locales (auto intro: cv_initial_inv cv_step_inv cv_enabled cv_decreases)

section \<open>Properties\<close>

text \<open>
  C12. Waiting on a synchronized value. A producer that increments the value a number of rounds
  under its guard and notifies after each release, and a thread that waits under the guard until
  the value has reached a goal of at most that many: no access is made without the mutex and no
  increment overflows; the thread that has passed the wait has seen the goal, and when it has
  joined the producer the value is the number of rounds. No wake-up is lost although the
  notification is made without the mutex: until both threads are done one of them can move other
  than by waking up for no reason, both can get done without any spurious wake-up, and an
  execution that goes on forever has infinitely many of them.
\<close>

theorem condvar_wait:
  assumes "unat rounds < 2 ^ 31" and "goal \<le> int (unat rounds)" and "(cv_step rounds goal)\<^sup>*\<^sup>* cv_new s"
  shows "\<not> cv_fault s \<and>
    (mpc s \<in> {MUnlock, MJoin, MDone} \<longrightarrow> goal \<le> sint (sv_value (counter s))) \<and>
    (mpc s = MDone \<longrightarrow> ppc s = PDone \<and> sint (sv_value (counter s)) = int (unat rounds)) \<and>
    (mpc s = MDone \<or> (\<exists>t. cv_step rounds goal s t \<and> \<not> cv_wakeup s t)) \<and>
    (\<exists>t. (\<lambda>s t. cv_step rounds goal s t \<and> \<not> cv_wakeup s t)\<^sup>*\<^sup>* s t \<and> mpc t = MDone) \<and>
    (\<nexists>f. f 0 = s \<and> (\<forall>n. cv_step rounds goal (f n) (f (Suc n))) \<and>
         (\<exists>k. \<forall>n. k \<le> n \<longrightarrow> \<not> cv_wakeup (f n) (f (Suc n))))"
proof -
  have init: "cv_initial rounds goal cv_new" using assms(1,2) by (simp add: cv_initial_def)
  have inv: "cv_inv rounds goal s" by (rule cv.reachable_inv [OF init assms(3)])
  have "\<exists>m\<ge>n. cv_wakeup (f m) (f (Suc m))"
    if "f 0 = s" "\<forall>n. cv_step rounds goal (f n) (f (Suc n))" for f n
    using cv.noise_recurs [of rounds goal f n] that inv by simp
  moreover have "\<not> cv_fault s" "mpc s \<in> {MUnlock, MJoin, MDone} \<longrightarrow> goal \<le> sint (sv_value (counter s))"
    "mpc s = MDone \<longrightarrow> ppc s = PDone \<and> sint (sv_value (counter s)) = int (unat rounds)"
    using inv counter_value [OF inv] by (auto simp: cv_inv_def waiter_ok_def producer_ok_def)
  ultimately show ?thesis
    using cv.quiet_enabled [OF inv] cv.quiet.can_finish [OF inv] by blast
qed

theorem condvar_wait_witness:
  "\<exists>t. (cv_step 1000 1000)\<^sup>*\<^sup>* cv_new t \<and> mpc t = MDone \<and> ppc t = PDone \<and> \<not> cv_fault t \<and>
       sint (sv_value (counter t)) = 1000"
proof -
  have sub: "(\<lambda>s t. cv_step 1000 1000 s t \<and> \<not> cv_wakeup s t)\<^sup>*\<^sup>* \<le> (cv_step 1000 1000)\<^sup>*\<^sup>*"
    by (rule rtranclp_mono) blast
  then obtain t where t: "(cv_step 1000 1000)\<^sup>*\<^sup>* cv_new t" "mpc t = MDone"
    using condvar_wait [of 1000 1000 cv_new] by auto
  with condvar_wait [of 1000 1000 t] show ?thesis by auto
qed

end
