(* ===== verification/Library_Tests.thy ===== *)
theory Library_Tests
  imports Complex_Main Pretty_Bytes Phi_Accrual Synchronized_Value "HOL-Library.Monad_Syntax"
begin

text \<open>
  The unit tests of the libraries (\<open>src/tests/test_pretty_bytes.cpp\<close>,
  \<open>phi_accrual_fd/tests/main.cpp\<close>, \<open>synchronized_value/tests/main.cpp\<close>), run on the models of the
  libraries. A subcase is a definition that gives the outcomes of its \<open>CHECK\<close>s in order; a subcase
  whose evaluation is undefined gives \<open>Undefined\<close> or \<open>None\<close>. The subcase with a condition variable
  has a theory of its own, \<open>Sync_Condvar\<close>.
\<close>

section \<open>Byte counts\<close>

definition throws_invalid_argument :: "'a res \<Rightarrow> bool" where
  "throws_invalid_argument r = (case r of Inl (InvalidArgument _) \<Rightarrow> True | _ \<Rightarrow> False)"

definition test_pretty_bytes :: "bool list" where
  "test_pretty_bytes =
     [throws_invalid_argument (prettyTo 1024 ''hoge''),
      throws_invalid_argument (prettyTo 1024 ''12A''),
      throws_invalid_argument (prettyTo 1024 ''20k''),
      prettyTo 1024 ''100K'' = Inr (100 * 1024),
      prettyTo 1024 ''5M'' = Inr (5 * 1024 * 1024),
      prettyTo 1024 ''2G'' = Inr (2 * 1024 * 1024 * 1024),
      prettyTo 1024 ''1P'' = Inr (1 * 1024 * 1024 * 1024 * 1024 * 1024),
      prettyTo 1024 ''512'' = Inr 512]"

section \<open>The failure detector\<close>

text \<open>The epsilon and the smallest positive normal number of \<open>double\<close>.\<close>

definition almostEqual :: "real \<Rightarrow> real \<Rightarrow> bool" where
  "almostEqual x y \<longleftrightarrow> \<bar>x - y\<bar> \<le> 1 / 2 ^ 52 \<or> \<bar>x - y\<bar> < 1 / 2 ^ 1022"

definition is_almost :: "real option \<Rightarrow> real \<Rightarrow> bool" where
  "is_almost x y = (case x of None \<Rightarrow> False | Some v \<Rightarrow> almostEqual v y)"

text \<open>A call that throws, or is undefined, ends the subcase.\<close>

definition then_do :: "'a res \<Rightarrow> ('a \<Rightarrow> 'b res) \<Rightarrow> 'b res" where
  "then_do r f = (case r of Inl e \<Rightarrow> Inl e | Inr x \<Rightarrow> f x)"

text \<open>The window tests, on the window they construct; times are in milliseconds.\<close>

definition test_window_average :: "window \<Rightarrow> bool list res" where
  "test_window_average w =
     then_do (window_adds [1000, 3000, 2000] w) (\<lambda>w.
     then_do (mean w) (\<lambda>m.
     then_do (variance w) (\<lambda>_. Inr [is_almost m 2000])))"

definition test_window_overextend :: "window \<Rightarrow> bool list res" where
  "test_window_overextend w =
     then_do (window_adds [1000, 1000, 1000, 3000, 2000] w) (\<lambda>w.
     then_do (mean w) (\<lambda>m.
     then_do (variance w) (\<lambda>_. Inr [is_almost m 2000])))"

definition test_window_normal :: "window \<Rightarrow> bool list res" where
  "test_window_normal w =
     then_do (window_adds [1000, 3000, 2000] w) (\<lambda>w.
     then_do (normalDistribution w) (\<lambda>d.
     then_do (variance w) (\<lambda>v.
       Inr [is_almost (map_option fst d) 2000,
            (case v of None \<Rightarrow> False | Some v \<Rightarrow> is_almost (map_option snd d) (sqrt v))])))"

text \<open>The subcases as the tests run them.\<close>

definition test_window :: "bool list res list" where
  "test_window =
     [test_window_average (window_new 1000), test_window_overextend (window_new 3),
      test_window_normal (window_new 1000)]"

text \<open>The detector test prints the mean, the deviation, a good and a bad phi.\<close>

fun heartbeats :: "real list \<Rightarrow> real \<Rightarrow> failure_detector \<Rightarrow> (real \<times> failure_detector) res" where
  "heartbeats [] t fd = Inr (t, fd)"
| "heartbeats (d # ds) t fd = then_do (heartbeat (t + d) fd) (heartbeats ds (t + d))"

definition test_detector ::
  "real \<Rightarrow> real \<Rightarrow> (real option \<times> real option \<times> real option \<times> real option) res" where
  "test_detector now t =
     then_do (heartbeats [1000, 1100, 1300, 1000] t (fd_reset t (failure_detector_new now))) (\<lambda>(t, fd).
     then_do (mean (fd_window fd)) (\<lambda>m.
     then_do (normalDistribution (fd_window fd)) (\<lambda>d.
     then_do (phi (t + 1000) fd) (\<lambda>good.
     then_do (phi (t + 3000) fd) (\<lambda>bad. Inr (m, map_option snd d, good, bad))))))"

section \<open>Synchronized values\<close>

text \<open>
  The objects of a subcase are cells at fixed addresses. The constructors from a value take no
  mutex; a default constructed \<open>int\<close> has an arbitrary value, that of the memory.
\<close>

definition construct_value :: "addr \<Rightarrow> 'v \<Rightarrow> 'v cells \<Rightarrow> 'v cells" where
  "construct_value a v m = m(a := \<lparr>sv_value = v, sv_mutex = None\<rparr>)"

definition construct_default :: "addr \<Rightarrow> 'v cells \<Rightarrow> 'v cells" where
  "construct_default a m = m(a := (m a)\<lparr>sv_mutex := None\<rparr>)"

fun exec_all :: "nat \<Rightarrow> 'v instr list \<Rightarrow> 'v cells \<times> 'v list \<Rightarrow> ('v cells \<times> 'v list) option" where
  "exec_all i [] st = Some st"
| "exec_all i (ins # rest) st = Option.bind (exec_instr i ins st) (exec_all i rest)"

text \<open>Thread \<open>i\<close> calls a member and nobody disturbs it; \<open>None\<close> is a wait that never ends, or a fault.\<close>

definition take_locks :: "nat \<Rightarrow> addr list \<Rightarrow> 'v cells \<Rightarrow> 'v cells option" where
  "take_locks i ls m = (if distinct ls \<and> mutexes_free ls m then Some (lock_all i ls m) else None)"

definition call_op :: "nat \<Rightarrow> ('v \<Rightarrow> 'v) \<Rightarrow> 'v sv_op \<Rightarrow> 'v cells \<Rightarrow> ('v cells \<times> 'v list) option" where
  "call_op i mv op m =
     (let c = section_of mv op in
      do { m \<leftarrow> take_locks i (locks c) m;
           (m, env) \<leftarrow> exec_all i (code c) (m, []);
           Some (m, ret c env) })"

text \<open>\<open>mutex_.try_lock()\<close> of another thread.\<close>

definition try_lock :: "nat \<Rightarrow> addr \<Rightarrow> 'v cells \<Rightarrow> bool \<times> 'v cells" where
  "try_lock i a m = (if sv_mutex (m a) = None then (True, lock_all i [a] m) else (False, m))"

definition owns_lock :: "nat \<Rightarrow> addr \<Rightarrow> 'v cells \<Rightarrow> bool" where
  "owns_lock i a m \<longleftrightarrow> sv_mutex (m a) = Some i"

text \<open>A new object at \<open>a\<close> from the object at \<open>b\<close>.\<close>

definition new_copy :: "addr \<Rightarrow> addr \<Rightarrow> 'v cells \<Rightarrow> 'v cells option" where
  "new_copy a b m = do { (m, r) \<leftarrow> call_op 0 id (CopyConstruct b) m; Some (construct_value a (r ! 0) m) }"

definition new_move :: "('v \<Rightarrow> 'v) \<Rightarrow> addr \<Rightarrow> addr \<Rightarrow> 'v cells \<Rightarrow> 'v cells option" where
  "new_move mv a b m = do { (m, r) \<leftarrow> call_op 0 mv (MoveConstruct b) m; Some (construct_value a (r ! 0) m) }"

text \<open>
  Objects \<open>c\<close> to \<open>c10\<close> at 0 to 10, temporaries above. An assignment from an \<open>int\<close> goes through a
  temporary that is moved from; moving an \<open>int\<close> copies it.
\<close>

definition test_constructor :: "int cells \<Rightarrow> bool list option" where
  "test_constructor m =
     (let x = 100; m = construct_value 3 x (construct_value 2 200 (construct_value 1 x (construct_default 0 m))) in
      do { m \<leftarrow> new_copy 4 1 m;
           m \<leftarrow> new_copy 5 1 m;
           m \<leftarrow> new_move id 6 11 (construct_value 11 x m);
           (m, _) \<leftarrow> call_op 0 id (CopyAssign 7 1) (construct_default 7 m);
           (m, _) \<leftarrow> call_op 0 id (MoveAssign 8 12) (construct_value 12 x (construct_default 8 m));
           (m, _) \<leftarrow> call_op 0 id (MoveAssign 9 13) (construct_value 13 200 (construct_default 9 m));
           (m, _) \<leftarrow> call_op 0 id (MoveAssign 10 14) (construct_value 14 200 (construct_default 10 m));
           Some [sv_value (m 1) = x, sv_value (m 2) = 200, sv_value (m 3) = x, sv_value (m 4) = x,
                 sv_value (m 5) = x, sv_value (m 6) = x, sv_value (m 7) = x, sv_value (m 8) = x,
                 sv_value (m 9) = 200, sv_value (m 10) = 200] })"

definition test_constructor_pair :: "(int \<times> real) cells \<Rightarrow> bool list" where
  "test_constructor_pair m =
     (let xx = (100, 2); m = construct_value 2 xx (construct_value 1 xx (construct_default 0 m)) in
      [sv_value (m 1) = xx, sv_value (m 2) = xx])"

definition test_conversion :: "int cells \<Rightarrow> bool list option" where
  "test_conversion m =
     do { (m, x1) \<leftarrow> call_op 0 id (Get 0) (construct_value 0 100 m);
          (m, x2) \<leftarrow> call_op 0 id (Get 0) m;
          Some [x1 = [100], x2 = [100]] }"

text \<open>Formatted output and input of an \<open>int\<close> that is not negative.\<close>

definition read_int :: "string \<Rightarrow> int" where
  "read_int str = int (digits_val (takeWhile is_digit str))"

definition test_io :: "int cells \<Rightarrow> bool list option" where
  "test_io m =
     do { (m, out) \<leftarrow> call_op 0 id (stream_out 0) (construct_value 0 1000 m);
          (m, _) \<leftarrow> call_op 0 id (stream_in (\<lambda>_. read_int ''200'') 0) m;
          (m, v) \<leftarrow> call_op 0 id (Get 0) m;
          Some [concat (map (\<lambda>v. decimal (nat v)) out) = ''1000'', v = [200]] }"

text \<open>While the main thread 0 has a guard, thread 1 tries the mutex.\<close>

definition test_synchronize :: "int cells \<Rightarrow> bool list option" where
  "test_synchronize m =
     do { m \<leftarrow> take_locks 0 [0] (construct_value 0 250 m);
          let (c1, m) = try_lock 1 0 m;
          (m, _) \<leftarrow> exec_instr 0 (Unlock 0) (m, []);
          m \<leftarrow> take_locks 0 [0] m;
          (m, v1) \<leftarrow> exec_instr 0 (Read 0) (m, []);
          (m, _) \<leftarrow> exec_instr 0 (Write 0 (\<lambda>_. 100)) (m, []);
          (m, v2) \<leftarrow> exec_instr 0 (Read 0) (m, []);
          let (c2, m) = try_lock 1 0 m;
          (m, _) \<leftarrow> exec_instr 0 (Unlock 0) (m, []);
          Some [c1 = False, v1 = [250], v2 = [100], c2 = False, mutexes_free [0] m] }"

definition test_arrow :: "string cells \<Rightarrow> bool list option" where
  "test_arrow m =
     do { (m, _) \<leftarrow> call_op 0 (\<lambda>_. []) (Access 0 (\<lambda>v. v @ '' world'')) (construct_value 0 ''hello'' m);
          (m, v) \<leftarrow> call_op 0 (\<lambda>_. []) (Access 0 id) m;
          Some [v = [''hello world'']] }"

definition test_synchronize_multi :: "string cells \<Rightarrow> bool list option" where
  "test_synchronize_multi m =
     do { m \<leftarrow> take_locks 0 [0, 1] (construct_value 1 ''world'' (construct_value 0 ''hello'' m));
          let (c0, m) = try_lock 1 0 m;
          let (c1, m) = try_lock 1 1 m;
          (m, src) \<leftarrow> exec_instr 0 (Read 0) (m, []);
          (m, dst) \<leftarrow> exec_instr 0 (Read 1) (m, []);
          Some [c0 = False, c1 = False, owns_lock 0 0 m, owns_lock 0 1 m, src = [''hello''], dst = [''world'']] }"

text \<open>
  \<open>unique_ptr<MyClass>\<close> is null or owns a pair; moving from it leaves null, and so does \<open>reset\<close>. The
  last component counts the destructor calls that print.
\<close>

type_synonym my_ptr = "(int \<times> int) option"

definition test_unique_ptr :: "my_ptr cells \<Rightarrow> (bool list \<times> nat) option" where
  "test_unique_ptr m =
     do { m \<leftarrow> take_locks 0 [0] (construct_value 0 (Some (10, 20)) m);
          (m, p) \<leftarrow> exec_instr 0 (Read 0) (m, []);
          (m, _) \<leftarrow> exec_instr 0 (Write 0 (\<lambda>_. None)) (m, []);
          (m, _) \<leftarrow> exec_instr 0 (Unlock 0) (m, []);
          Some (case p of [Some (x, y)] \<Rightarrow> ([x = 10, y = 20], 1) | _ \<Rightarrow> ([], 0)) }"

text \<open>
  A vector that is full gets a new block of twice the size: the new element is built first, the
  old ones are moved after it. Here the second \<open>emplace_back\<close> moves the first element.
\<close>

definition test_vector :: "int cells \<Rightarrow> bool list option" where
  "test_vector m =
     do { m \<leftarrow> new_move id 1 0 (construct_value 2 20 (construct_value 0 10 m));
          (m, a) \<leftarrow> call_op 0 id (Get 1) m;
          (m, b) \<leftarrow> call_op 0 id (Get 2) m;
          Some [a = [10], b = [20]] }"

definition test_vector_unique :: "my_ptr cells \<Rightarrow> bool list option" where
  "test_vector_unique m =
     do { m \<leftarrow> new_move (\<lambda>_. None) 1 0 (construct_value 2 (Some (100, 200)) (construct_value 0 (Some (20, 30)) m));
          m \<leftarrow> take_locks 0 [1, 2] m;
          (m, p0) \<leftarrow> exec_instr 0 (Read 1) (m, []);
          (m, p1) \<leftarrow> exec_instr 0 (Read 2) (m, []);
          Some [p0 = [Some (20, 30)], p1 = [Some (100, 200)], owns_lock 0 1 m, owns_lock 0 2 m] }"

section \<open>Outcomes\<close>

lemmas call_defs =
  call_op_def take_locks_def mutexes_free_def lock_all_def code_def section_defs construct_value_def
  construct_default_def new_copy_def new_move_def try_lock_def owns_lock_def

lemma constructor_tests:
  "test_constructor m = Some (replicate 10 True)" "test_constructor_pair m' = [True, True]"
  "test_conversion m = Some [True, True]"
  by (simp_all add: test_constructor_def test_constructor_pair_def test_conversion_def call_defs numeral_nat)

lemma decimal_1000: "decimal 1000 = ''1000''"
  by code_simp

lemma io_tests: "test_io m = Some [True, True]"
  by (simp add: test_io_def call_defs stream_out_def stream_in_def decimal_1000 read_int_def digits_val_def
      digit_val_def is_digit_def)

lemma guard_tests:
  "test_synchronize m = Some [True, True, True, True, True]"
  "test_synchronize_multi m' = Some [True, True, True, True, True, True]"
  "test_arrow m' = Some [True]"
  by (simp_all add: test_synchronize_def test_synchronize_multi_def test_arrow_def call_defs)

lemma ownership_tests:
  "test_unique_ptr m = Some ([True, True], 1)" "test_vector m' = Some [True, True]"
  "test_vector_unique m = Some [True, True, True, True]"
  by (simp_all add: test_unique_ptr_def test_vector_def test_vector_unique_def call_defs)

text \<open>The window tests pass on a window that was reset, and on no other.\<close>

lemmas window_eval =
  then_do_def mean_def variance_def normalDistribution_def per_def pow2_def is_almost_def almostEqual_def

lemma window_tests_reset:
  "test_window_average (window_reset (window_new 1000)) = Inr [True]"
  "test_window_overextend (window_reset (window_new 3)) = Inr [True]"
  "test_window_normal (window_reset (window_new 1000)) = Inr [True, True]"
  by (simp_all add: test_window_average_def test_window_overextend_def test_window_normal_def
      window_reset_def window_new_def window_add_def window_eval)

section \<open>Properties\<close>


text \<open>
  The tests of the window prove nothing: each of them adds to a window that was constructed
  and never reset, whose sums no constructor initialises, so that all three read indeterminate
  values. On the same windows after a reset all their checks are true.
\<close>

theorem window_tests:
  "list_all (\<lambda>r. r = Inl Undefined) test_window \<and> length test_window = 3 \<and>
   test_window_average (window_reset (window_new 1000)) = Inr [True] \<and>
   test_window_overextend (window_reset (window_new 3)) = Inr [True] \<and>
   test_window_normal (window_reset (window_new 1000)) = Inr [True, True]"
  by (simp add: window_tests_reset)
     (simp add: test_window_def test_window_average_def test_window_overextend_def test_window_normal_def
        window_new_def window_add_def then_do_def)

end
