(* ===== verification/Program_Starts.thy ===== *)
theory Program_Starts
  imports Pool_Programs Pmemobj_Ctl Pmem2_Bench Pmemblk_Bench Pmemobj_Bench Atomic_Bench Rpc_Programs
    Burst_Buffer_Threads
begin

text \<open>
  Whole programs put together from their parts: the option tables of the programs that the other
  theories leave open, what the programs make of their default command lines, \<open>main\<close> of
  \<open>pmembb_list\<close> from its options to its exit status.
\<close>

section \<open>Option tables\<close>

text \<open>Options with a default; the flags have none.\<close>

definition bb_defaults :: "(string \<times> string) list" where
  "bb_defaults = [(''path'', ''pmembb_list.pool''), (''pool_size'', ''8M'')]"

definition dist_defaults :: "(string \<times> string) list" where
  "dist_defaults = [(''path'', ''./pmem_dist_counter.pool''), (''pool_size'', ''1G'')]"

definition ops_defaults :: "(string \<times> string) list" where
  "ops_defaults = [(''path'', ''pmemobj_atomic_ops.pool''), (''pool_size'', ''8M'')]"

definition mpsc_defaults :: "(string \<times> string) list" where
  "mpsc_defaults =
     [(''path'', ''./mpsc_queue_bench.pool''), (''pool_size'', ''1G''), (''queue_size'', ''1K''), (''nthreads'', ''1'')]"

definition rdma2_defaults :: "(string \<times> string) list" where
  "rdma2_defaults = [(''addr'', ''tcp''), (''server'', ''false''), (''size'', ''1'')]"

definition fd_defaults :: "(string \<times> string) list" where
  "fd_defaults = [(''addr'', ''tcp''), (''server'', ''false''), (''times'', ''10'')]"

definition custom_defaults :: "(string \<times> string) list" where
  "custom_defaults = [(''addr'', ''tcp''), (''server'', ''false'')]"

lemmas default_tables =
  bb_defaults_def dist_defaults_def ops_defaults_def mpsc_defaults_def atomic_defaults_def pmem2_defaults_def
  blk_defaults_def obj_defaults_def

text \<open>
  \<open>thallium_rdma2\<close> reads its options like \<open>thallium_rdma\<close>. The options of
  \<open>thallium_custom_schedulers_and_pools\<close> are declared but only the help flag is looked at.
\<close>

definition rdma2_main ::
  "(string \<Rightarrow> nat res) \<Rightarrow> (string \<Rightarrow> bool) \<Rightarrow> parsed \<Rightarrow> rpc_io list \<times> (prog_end + rdma_role)"
where
  "rdma2_main as_size as_bool r =
     (if opt_count r ''help'' \<noteq> 0 then ([HelpText], Inl (Finished 0))
      else case as_size (opt_text r ''size'') of
        Inl e \<Rightarrow> ([], Inl (Thrown e))
      | Inr payload_size \<Rightarrow>
          let addr = opt_text r ''addr'' in
          if as_bool (opt_text r ''server'') then ([Running addr []], Inr (RdmaServer addr payload_size))
          else ([], Inr (RdmaClient (protocol addr) addr payload_size)))"

definition custom_front :: "parsed \<Rightarrow> prog_end option" where
  "custom_front r = (if opt_count r ''help'' \<noteq> 0 then Some (Finished 0) else None)"

text \<open>
  With their defaults, where the option library reads numbers and \<open>false\<close> as they are written, the RPC
  programs are clients: one byte of payload, ten heartbeats.
\<close>

lemma rpc_defaults:
  assumes "as_size ''1'' = Inr 1" "as_size ''10'' = Inr 10" "\<not> as_bool ''false''"
  shows "rdma2_main as_size as_bool (command_line rdma2_defaults [] []) =
      ([], Inr (RdmaClient (protocol ''tcp'') ''tcp'' 1))"
    and "\<exists>cs. fd_main as_size as_bool (command_line fd_defaults [] []) = ([], Inr (Inr cs)) \<and> length cs = 10"
    and "custom_front (command_line custom_defaults [] []) = None"
  using assms
  by (simp_all add: rdma2_main_def rdma2_defaults_def fd_main_def fd_defaults_def custom_front_def
      custom_defaults_def command_line_def fd_client_length Let_def)

section \<open>\<open>main\<close> of \<open>pmembb_list\<close>\<close>

text \<open>
  The outcome of a run: the burst buffer the pool holds afterwards, the requests the writer has
  published and those the callback has seen, and how the program ends. Opening the pool, making
  the burst buffer and its sentinel may fail, which the handler around \<open>main\<close> reports; an exception
  in a thread is not caught. Both threads are joined before the pool is closed.
\<close>

inductive pmembb_main ::
  "bb_persistent option pool_lib \<Rightarrow> unit res \<Rightarrow> parsed \<Rightarrow> bb_persistent option \<Rightarrow> request list \<times> request list \<Rightarrow> ended \<Rightarrow> bool"
  for lib close r where
  no_pool: "bb_start lib r = Inl e \<Longrightarrow> pmembb_main lib close r None ([], []) e"
| no_buffer: "bb_start lib r = Inr None \<Longrightarrow> pmembb_main lib close r None ([], []) (Exited (-1))"
| no_sentinel: "bb_start lib r = Inr rt \<Longrightarrow> fresh_xalloc xalloc \<Longrightarrow> bb_setup xalloc rt = (p, Inl e) \<Longrightarrow>
    pmembb_main lib close r (Some p) ([], []) (if e = Undefined then Uncaught Undefined else Exited (-1))"
| joined: "bb_start lib r = Inr rt \<Longrightarrow> fresh_xalloc xalloc \<Longrightarrow> bb_setup xalloc rt = (p, Inr b) \<Longrightarrow>
    bb_step\<^sup>*\<^sup>* (threads_new 1000 b []) s \<Longrightarrow> wpc s = WDone \<Longrightarrow> fpc s = FDone \<Longrightarrow> stopped s = None \<Longrightarrow>
    pmembb_main lib close r (Some (persistent (buffer s))) (written s, seen s) (snd (close_pool close))"
| thread_throws: "bb_start lib r = Inr rt \<Longrightarrow> fresh_xalloc xalloc \<Longrightarrow> bb_setup xalloc rt = (p, Inr b) \<Longrightarrow>
    bb_step\<^sup>*\<^sup>* (threads_new 1000 b []) s \<Longrightarrow> stopped s = Some e \<Longrightarrow>
    pmembb_main lib close r (Some (persistent (buffer s))) (written s, seen s) (Uncaught e)"

text \<open>What the pool may hold before a run: no burst buffer, a new one, or one with its two lists.\<close>

definition root_holds :: "bb_persistent option \<Rightarrow> request list \<Rightarrow> bool" where
  "root_holds rt rs \<longleftrightarrow>
     (case rt of None \<Rightarrow> rs = []
      | Some p \<Rightarrow> p = bb_persistent_new \<and> rs = [] \<or> (\<exists>fl ac. bb_lists p fl ac \<and> rs = fl @ ac))"

section \<open>One run\<close>

lemma setup_holds:
  assumes "root_holds rt rs" and "fresh_xalloc xalloc" and "bb_setup xalloc rt = (p, Inr b)"
  obtains fl ac where "bb_rep b fl ac" "rs = fl @ ac"
proof (cases "rt = None \<or> rt = Some bb_persistent_new \<and> rs = []")
  case True
  then have init: "runtimeInitialize xalloc bb_persistent_new = (p, Inr b)" and rs: "rs = []"
    using assms(1,3) by (auto simp: bb_setup_def root_holds_def)
  have "bb_rep b [] []" by (rule runtimeInitialize_fresh [OF assms(2)]) (use init in auto)
  with rs that show thesis by simp
next
  case False
  with assms(1) obtain q fl ac where q: "rt = Some q" "bb_lists q fl ac" "rs = fl @ ac"
    by (cases rt) (auto simp: root_holds_def)
  have "bb_rep b fl ac"
    by (rule runtimeInitialize_lists [OF q(2), of xalloc]) (use assms(3) q(1) in \<open>simp add: bb_setup_def\<close>)
  with q that show thesis by blast
qed

lemma setup_fails:
  assumes "root_holds rt rs" and "fresh_xalloc xalloc" and "bb_setup xalloc rt = (p, Inl e)"
  shows "root_holds (Some p) rs \<and> rs = [] \<and> e \<noteq> Undefined"
proof (cases "rt = None \<or> rt = Some bb_persistent_new \<and> rs = []")
  case True
  then have init: "runtimeInitialize xalloc bb_persistent_new = (p, Inl e)" and rs: "rs = []"
    using assms(1,3) by (auto simp: bb_setup_def root_holds_def)
  show ?thesis
    by (rule runtimeInitialize_fresh [OF assms(2)]) (use init rs in \<open>auto simp: root_holds_def\<close>)
next
  case False
  with assms(1) obtain q fl ac where q: "rt = Some q" "bb_lists q fl ac"
    by (cases rt) (auto simp: root_holds_def)
  show ?thesis
    by (rule runtimeInitialize_lists [OF q(2), of xalloc]) (use assms(3) q(1) in \<open>simp add: bb_setup_def\<close>)
qed

text \<open>The threads of a run, from the requests found to those left.\<close>

lemma threads_run:
  assumes "root_holds rt rs" "fresh_xalloc xalloc" "bb_setup xalloc rt = (p, Inr b)"
    and "bb_step\<^sup>*\<^sup>* (threads_new K b []) s"
  shows "stopped s \<noteq> Some Undefined \<and> (\<exists>freed rest. rs @ written s = freed @ rest \<and>
    root_holds (Some (persistent (buffer s))) rest \<and> prefix freed (seen s) \<and> prefix (seen s) (rs @ written s))"
proof -
  obtain fl ac where b: "bb_rep b fl ac" and rs: "rs = fl @ ac" using setup_holds [OF assms(1-3)] .
  from b assms(4) obtain fl' ac' freed where l: "bb_lists (persistent (buffer s)) fl' ac'"
    "fl @ ac @ written s = freed @ fl' @ ac'" "prefix freed (seen s)" "prefix (seen s) (freed @ fl')"
    and "stopped s \<noteq> Some Undefined"
    by (rule one_life)
  have "prefix (seen s) (rs @ written s)"
    using l(2) prefix_prefix [OF l(4), of ac'] by (simp add: rs)
  then show ?thesis
    using l \<open>stopped s \<noteq> Some Undefined\<close> by (intro conjI exI [of _ freed] exI [of _ "fl' @ ac'"]) (auto simp: rs root_holds_def)
qed

section \<open>Properties\<close>

text \<open>
  C14. One run of \<open>pmembb_list\<close> from its command line to its exit, on a pool that holds no burst
  buffer, a new one or one with requests \<open>rs\<close> of earlier runs. Whatever fails, the run is never undefined
  and has an outcome. If it gets a pool, the requests found and those published are, in order, the freed ones and
  those the pool holds at the end; the callback has seen all that were freed, and only requests
  that were there, in their order. If no thread throws the exit status is that of closing the pool.
\<close>

theorem pmembb_main_delivers:
  assumes "\<And>rt. bb_start lib r = Inr rt \<Longrightarrow> root_holds rt rs" and "bb_start lib r \<noteq> Inl (Uncaught Undefined)"
    and "close \<noteq> Inl Undefined"
  shows "(\<exists>rt' out e. pmembb_main lib close r rt' out e) \<and>
    (\<forall>rt' pub saw e. pmembb_main lib close r rt' (pub, saw) e \<longrightarrow> e \<noteq> Uncaught Undefined \<and>
      ((\<exists>x. bb_start lib r = Inr x) \<longrightarrow>
       (\<exists>freed rest. rs @ pub = freed @ rest \<and> root_holds rt' rest \<and> prefix freed saw \<and> prefix saw (rs @ pub))))"
proof (intro conjI allI impI)
  show "\<exists>rt' out e. pmembb_main lib close r rt' out e"
  proof (cases "bb_start lib r")
    case (Inl e)
    then show ?thesis using no_pool by blast
  next
    case (Inr rt)
    note held = assms(1) [OF Inr] and fresh = small_xalloc_fresh
    obtain p x where st: "bb_setup small_xalloc rt = (p, x)" by fastforce
    show ?thesis
    proof (cases x)
      case (Inl e)
      with st no_sentinel [OF Inr fresh] show ?thesis by blast
    next
      case x: (Inr b)
      with st have st: "bb_setup small_xalloc rt = (p, Inr b)" by simp
      obtain fl ac where "bb_rep b fl ac" using setup_holds [OF held fresh st] .
      then obtain s where s: "bb_step\<^sup>*\<^sup>* (threads_new 1000 b []) s" "bb_final s" using one_life_ends by blast
      show ?thesis
      proof (cases "stopped s")
        case None
        with s(2) have "wpc s = WDone" "fpc s = FDone" by (auto simp: bb_final_def)
        with joined [OF Inr fresh st s(1)] None show ?thesis by blast
      next
        case (Some e)
        with thread_throws [OF Inr fresh st s(1)] show ?thesis by blast
      qed
    qed
  qed
next
  have close: "snd (close_pool close) \<noteq> Uncaught Undefined"
    using assms(3) by (auto simp: close_pool_def split: sum.splits option.splits)
  fix rt' pub saw e assume "pmembb_main lib close r rt' (pub, saw) e"
  then show "e \<noteq> Uncaught Undefined"
    by cases (use assms(1,2) setup_fails threads_run close in \<open>force+\<close>)
next
  fix rt' pub saw e
  assume "pmembb_main lib close r rt' (pub, saw) e" and "\<exists>x. bb_start lib r = Inr x"
  then show "\<exists>freed rest. rs @ pub = freed @ rest \<and> root_holds rt' rest \<and> prefix freed saw \<and> prefix saw (rs @ pub)"
  proof cases
    case no_buffer
    then have "rs = []" using assms(1) by (auto simp: root_holds_def)
    with no_buffer show ?thesis by (auto simp: root_holds_def)
  next
    case (no_sentinel rt xalloc p e')
    with setup_fails [OF assms(1) [OF no_sentinel(5)] no_sentinel(6,7)] show ?thesis by auto
  next
    case (joined rt xalloc p b s)
    with threads_run [OF assms(1) [OF joined(5)] joined(6-8)] show ?thesis by blast
  next
    case (thread_throws rt xalloc p b s)
    with threads_run [OF assms(1) [OF thread_throws(5)] thread_throws(6-8)] show ?thesis by blast
  qed auto
qed

text \<open>A pool library with no pool yet, for concrete runs.\<close>

definition empty_lib :: "bb_persistent option pool_lib" where
  "empty_lib = \<lparr>pool_check = (\<lambda>_ _. 0), pool_open = (\<lambda>_ _. Inl (RuntimeError ''open'')), pool_create = (\<lambda>_ _ _. Inr None)\<rparr>"

theorem pmembb_main_delivers_witness:
  "\<exists>rt' pub saw e freed rest. pmembb_main empty_lib (Inr ()) (command_line bb_defaults [] []) rt' (pub, saw) e \<and>
     e \<noteq> Uncaught Undefined \<and> pub = freed @ rest \<and> root_holds rt' rest \<and> prefix freed saw"
proof -
  let ?r = "command_line bb_defaults [] []"
  have start: "bb_start empty_lib ?r = Inr None"
    by (simp add: bb_start_def start_pool_def command_line_def bb_defaults_def pretty_eval open_or_create_def
        empty_lib_def catch_all_def)
  have held: "root_holds rt []" if "bb_start empty_lib ?r = Inr rt" for rt
    using that start by (simp add: root_holds_def)
  note run = pmembb_main_delivers [of empty_lib ?r "[]" "Inr ()", OF held]
  obtain rt' out e where m: "pmembb_main empty_lib (Inr ()) ?r rt' out e" using run start by auto
  obtain pub saw where out: "out = (pub, saw)" by fastforce
  with run start m show ?thesis by fastforce
qed


end
