(* ===== verification/Spec2Isabelle.thy ===== *)
theory Spec2Isabelle
  imports Pretty_Bytes Psync_Barrier Volatile_Queue Persistent_Queue Simple_KV_Rebuild Versioned_Array
    Burst_Buffer_Threads Pmem2_Bench Pmemblk_Bench Pmemobj_Bench Synchronized_Value Phi_Accrual Atomic_Bench Small_Libraries
    Counters Work_Pool Record_Log Accounts Subcommands Pmemobj_Ctl Pool_Writer Mapped_Files Kv_Programs
    Container_Programs Rpc_Programs Argobots Small_Programs Bench_Frames Sync_Condvar Library_Tests Program_Starts
begin

text \<open>
  Verification of the repository range3/spack-playground: a collection of small C++ libraries and of
  programs for persistent memory, threads and remote procedure calls. This theory imports the whole
  development; every property is stated in the theory of its component.

  \<^bold>\<open>The program.\<close> \<open>src/targets/libraries\<close> holds header-only libraries (byte-count parser, barrier,
  timer, random strings, synchronized values, phi accrual failure detector). \<open>src/targets/apps\<close> holds
  programs: a burst buffer on a persistent list (\<open>pmembb_list\<close>), benchmarks of block access
  (\<open>pmem2bench\<close>, \<open>pmemblkbench\<close>, \<open>pmemobjbench\<close>) and of atomics (\<open>atomic_bench\<close>), persistent data
  structures (\<open>ppm_ch8_6\<close>, \<open>ppm_ch8_7\<close>, \<open>ppm_ch11_4\<close> to \<open>ppm_ch11_6\<close>), counters, accounts, users of
  mapped files, key-value stores and containers, RPC servers with their clients, and front ends.
  The programs call the libraries: every size on a command line goes through the byte-count parser,
  the benchmarks use barrier, timer and random strings.

  \<^bold>\<open>Conventions.\<close> C++ values are records and datatypes named after the source. \<open>exn + 'a\<close> is a
  call that returns or throws; the exception \<open>Undefined\<close> stands for undefined behaviour, so that a
  theorem that an operation is right shows that it is never undefined. 64-bit integers are
  \<open>64 word\<close>. Threads are step relations: one step is one access to shared state. A program that is a
  sequence of library calls is a value of type \<open>prog\<close> of theory \<open>Program_Effects\<close>, a state passing
  function with output in which a failed assertion, an exit and an exception end the run. Library code
  that is not in the sources (libpmemobj transactions, allocators and vectors, libpmemblk, libpmem2,
  pmemkv, the RPC library, cxxopts, random engines, clocks, \<open>std::hash\<close>) is an argument, and what the
  code relies on is a named hypothesis (\<open>tx_atomic\<close>, \<open>tx_commits\<close>, \<open>fresh_alloc\<close>, \<open>shuffles\<close>, \<open>in_range\<close>,
  \<open>kv_contract\<close>, \<open>vec_contract\<close>, \<open>blk_contract\<close>, \<open>dispatches\<close>, ...), each instantiated in a witness. Loops over
  linked structures are \<open>partial_function (option)\<close> and shown to return.

  \<^bold>\<open>Theories.\<close>
  \<^item> \<open>Prelude\<close>: outcomes, transactions, and the interfaces \<open>invariant_system\<close>, \<open>finishing_system\<close>,
    \<open>terminating_system\<close> for step relations, which every concurrent component interprets, and
    \<open>noisy_system\<close> for those with spurious wake-ups.
  \<^item> \<open>Pretty_Bytes\<close> (\<open>pretty_bytes.hpp\<close>): the parser with its regular expression; exactly which texts
    are accepted, the round trip with printed sizes, and how a large suffix wraps.
  \<^item> \<open>Psync_Barrier\<close> (\<open>psync/barrier.hpp\<close>): \<open>enter\<close> with mutex, condition variable and spurious
    wake-ups; no thread leaves before all have entered, all can leave without a spurious wake-up and
    do so once these stop, and the barrier refines the gate that \<open>Timed_Workers\<close> and \<open>Timed_Frame\<close> use.
  \<^item> \<open>Synchronized_Value\<close> (\<open>synchronized_value.hpp\<close>): every member as a critical section of single
    accesses; linearizability, freedom from data races and deadlock. \<open>Sync_Condvar\<close> adds a condition
    variable that waits on the guard of a synchronized value: no lost wake-up.
  \<^item> \<open>Phi_Accrual\<close> (\<open>window.hpp\<close>, \<open>failure_detector.hpp\<close>, server of \<open>thallium_failure_detector\<close>): the
    incremental statistics of the window, phi as a tail probability, what the server prints.
  \<^item> \<open>Small_Libraries\<close> (\<open>gen_random_string.hpp\<close>, \<open>hello_thallium\<close>, \<open>hellolib\<close>): random strings, the
    serialization of a point, the protocol of an address.
  \<^item> \<open>Linked_Heap\<close>, \<open>Fifo\<close>: list segments in a heap, and the contract of a queue as a locale.
    \<open>Volatile_Queue\<close> (\<open>ppm_ch8_6\<close>), \<open>Persistent_Queue\<close> (\<open>ppm_ch8_7\<close>) and \<open>Work_Pool\<close>
    (\<open>thallium_custom_schedulers_and_pools\<close>) interpret it; \<open>Console\<close> models the input stream of the
    interactive programs.
  \<^item> \<open>Simple_KV\<close> (\<open>ppm_ch11_4\<close>), \<open>Simple_KV_Rebuild\<close> (\<open>ppm_ch11_5\<close>): the persistent hash maps refine a
    finite map, the second also across restarts, when its buckets are rebuilt.
  \<^item> \<open>Pmem\<close>: stores, flushes and the images a power failure can leave. \<open>Versioned_Array\<close> (\<open>ppm_ch11_6\<close>)
    is crash consistent, \<open>Record_Log\<close> (\<open>ppm_ch12_38\<close>) is so for names and not for the counter.
  \<^item> \<open>Burst_Buffer\<close>, \<open>Burst_Buffer_Threads\<close> (\<open>pmembb_list\<close>): all operations on the persistent lists
    refine two queues of requests, and the writer and flusher threads lose, duplicate and reorder
    nothing and terminate; over many lives of the program, each cut off anywhere, every request is
    delivered at least once.
  \<^item> \<open>Striping\<close> with \<open>Pmem2_Bench\<close>, \<open>Pmemblk_Bench\<close>, \<open>Pmemobj_Bench\<close>: the distribution of blocks over
    threads as a locale that the three benchmarks interpret; accesses in bounds, disjoint and complete,
    and what the reported success means.
  \<^item> \<open>Timed_Workers\<close> (\<open>elapsedtime.hpp\<close> and the three barriers of the benchmarks), \<open>Atomic_Bench\<close>
    (\<open>atomic_bench\<close>): the count is right and every iteration falls between the clock readings.
  \<^item> \<open>Counters\<close> (\<open>ppm_ch14_1\<close>, \<open>ppm_ch14_2\<close>, \<open>pmem_distributed_counter\<close>): lost updates, the mutex that is
    released before the commit, and the counter per thread that loses nothing; all of them end.
  \<^item> \<open>Accounts\<close> (\<open>ppm_ch7_6\<close>, \<open>ppm_ch7_7\<close>): money is conserved in every durable state.
  \<^item> \<open>Byte_Memory\<close> (strings and copies in persistent memory) with \<open>Pool_Writer\<close> (\<open>ppm_ch7_1\<close>, \<open>ppm_ch7_2\<close>,
    \<open>ppm_ch7_5\<close>) and \<open>Mapped_Files\<close> (\<open>ppm_ch3_1\<close>, \<open>ppm_ch3_7\<close>, \<open>ppm_ch6_1\<close>): what a power failure can leave of a
    string or block, and that the reader never prints a torn string.
  \<^item> \<open>Program_Effects\<close> with \<open>Kv_Programs\<close> (\<open>pmemkv_1\<close>, \<open>ppm_ch1_1\<close>, \<open>ppm_ch9_2_phonebook\<close>),
    \<open>Container_Programs\<close> (\<open>ppm_ch8_2\<close>, \<open>ppm_ch8_3\<close>, \<open>ppm_ch8_11\<close>, \<open>ppm_ch10_11\<close>) and \<open>Small_Programs\<close>
    (\<open>libpmemblk_example\<close>, \<open>ppm_ch12_1\<close>, \<open>ppm_ch12_3\<close> and the users of the small libraries): when the assertions of
    these programs hold, what a run that reports success has done, and what it leaks.
  \<^item> \<open>Rpc_Programs\<close> (the servers and clients on Thallium): a server is a table of typed handlers, and the
    locale \<open>rpc_service\<close>, interpreted for every server, shows that a well-typed call is answered with
    the type it expects. \<open>Argobots\<close> (\<open>argobots_1\<close>, \<open>main\<close> of \<open>thallium_custom_schedulers_and_pools\<close>): every
    handle is set when it is used.
  \<^item> \<open>Bench_Reports\<close>: the JSON reports of the three benchmarks, the clean-up of \<open>pmem2bench\<close> and its timed
    run, which puts the workers of \<open>Pmem2_Bench\<close> into the frame of \<open>Timed_Workers\<close>. \<open>Timed_Frame\<close> with
    \<open>Bench_Frames\<close>: the frame for workers that may give up early, as a locale, and the timed runs of
    \<open>pmemblkbench\<close> and \<open>pmemobjbench\<close>.
  \<^item> \<open>Subcommands\<close> (\<open>pmemobjstorage\<close>, \<open>example_cxxopts_subcmd\<close>), \<open>Pool_Programs\<close> (opening of pools,
    \<open>pmemobj_atomic_ops\<close>, \<open>mpsc_queue_bench\<close>) and \<open>Pmemobj_Ctl\<close> (\<open>pmemobj_ctl\<close>).

  \<^item> \<open>Program_Starts\<close>: the option tables the other theories leave open, what the programs make of their
    defaults, and \<open>main\<close> of \<open>pmembb_list\<close> from its command line to its exit status.
  \<^item> \<open>Library_Tests\<close>: the unit tests of the libraries, run on their models.

  \<^bold>\<open>Bounds.\<close> There is no fuel in a definition of the program: loops are structural, have a
  termination proof, or are partial functions with a proof that they return. Schedules and inputs are
  lists and arbitrary. The number of threads is arbitrary, below the word size where the code counts
  in words; \<open>ppm_ch14_1\<close> and \<open>ppm_ch14_2\<close> have the ten threads of the source.

  \<^bold>\<open>Not modelled.\<close> The rounding of floating point (times are rationals or reals), the layout of JSON
  reports and console output beyond the order and content of the values, the texts of help screens,
  failures of thread creation, and weak memory: an access to shared state is one atomic step. In the
  RPC programs a handler runs before the client makes its next call; networks and the life of an
  engine are library code. What compiles is not modelled: \<open>unused.hpp\<close> holds macros that silence
  warnings, and of \<open>holder_class_example\<close> only the behaviour at run time is. What is left of the sources beyond
  this are declarations, comments and licences, and \<open>new_account\<close> of \<open>ppm_ch7_7\<close>, which is word for word that
  of \<open>ppm_ch7_6\<close>.
\<close>

end
